(* ===== verification/Prelude.thy ===== *)
theory Prelude
  imports Main "HOL-Library.Word" "HOL-Library.Multiset"
begin

text \<open>
  Shared vocabulary of the development: the result type of fallible code, the
  collections of simplification rules the component theories extend, and the
  generic facts on lists, sets and machine words that more than one component
  uses.  Nothing in this theory models a particular source file except the
  swap-and-pop idiom on vectors, which the storage engine uses for labels and
  for edge lists alike.
\<close>

unbundle bit_operations_syntax

named_theorems wf_intros \<open>introduction rules for the well-formedness invariants\<close>
named_theorems step_simps \<open>evaluation rules of the modelled operations\<close>

section \<open>Results of fallible code\<close>

text \<open>A fallible operation returns \<^term>\<open>Inl e\<close> for the error branch and
  \<^term>\<open>Inr v\<close> for the value.\<close>

fun bind_result :: "'e + 'a \<Rightarrow> ('a \<Rightarrow> 'e + 'b) \<Rightarrow> 'e + 'b" where
  "bind_result (Inl e) f = Inl e"
| "bind_result (Inr v) f = f v"

lemma bind_result_eq_Inr:
  "bind_result r f = Inr w \<longleftrightarrow> (\<exists>v. r = Inr v \<and> f v = Inr w)"
  by (cases r) auto

lemma bind_result_eq_Inl:
  "bind_result r f = Inl e \<longleftrightarrow> r = Inl e \<or> (\<exists>v. r = Inr v \<and> f v = Inl e)"
  by (cases r) auto

lemma bind_result_cong [fundef_cong]:
  "r = r' \<Longrightarrow> (\<And>v. r' = Inr v \<Longrightarrow> f v = g v) \<Longrightarrow> bind_result r f = bind_result r' g"
  by (cases r') auto

lemma bind_result_assoc:
  "bind_result (bind_result r f) g = bind_result r (\<lambda>v. bind_result (f v) g)"
  by (cases r) auto

section \<open>Lists\<close>

lemma find_upt_Some:
  "find P [a..<b] = Some i \<longleftrightarrow> a \<le> i \<and> i < b \<and> P i \<and> (\<forall>j. a \<le> j \<longrightarrow> j < i \<longrightarrow> \<not> P j)"
proof (induction "b - a" arbitrary: a)
  case 0
  then show ?case by simp
next
  case (Suc n)
  then have ab: "a < b" and n: "n = b - Suc a"
    by simp_all
  note IH = Suc.hyps(1)[OF n]
  show ?case
  proof (cases "P a")
    case True
    then show ?thesis
      using ab by (auto simp: upt_conv_Cons dest: le_neq_implies_less)
  next
    case False
    then have "find P [a..<b] = Some i \<longleftrightarrow> find P [Suc a..<b] = Some i"
      using ab by (simp add: upt_conv_Cons)
    moreover have "(a \<le> i \<and> i < b \<and> P i \<and> (\<forall>j. a \<le> j \<longrightarrow> j < i \<longrightarrow> \<not> P j)) \<longleftrightarrow>
      (Suc a \<le> i \<and> i < b \<and> P i \<and> (\<forall>j. Suc a \<le> j \<longrightarrow> j < i \<longrightarrow> \<not> P j))"
      using False by (metis Suc_leD Suc_leI le_neq_implies_less)
    ultimately show ?thesis
      using IH by simp
  qed
qed

lemma find_upt_None:
  "find P [a..<b] = None \<longleftrightarrow> (\<forall>j. a \<le> j \<longrightarrow> j < b \<longrightarrow> \<not> P j)"
  by (auto simp: find_None_iff)

section \<open>Least natural number outside a finite set\<close>

lemma LeastI_finite_compl:
  assumes "finite (A :: nat set)"
  shows "(LEAST i. i \<notin> A) \<notin> A"
proof -
  obtain i where "i \<notin> A"
    using assms ex_new_if_finite infinite_UNIV_nat by blast
  then show ?thesis
    by (rule LeastI[of "\<lambda>i. i \<notin> A"])
qed

lemma Least_compl_eqI:
  assumes "(n :: nat) \<notin> A" and "\<And>i. i < n \<Longrightarrow> i \<in> A"
  shows "(LEAST i. i \<notin> A) = n"
  using assms by (intro Least_equality) (auto simp: not_less[symmetric])

section \<open>Machine words\<close>

lemma word_eq_max_iff: "w = (-1 :: 'a::len word) \<longleftrightarrow> (\<forall>n < LENGTH('a). bit w n)"
  by (auto intro: bit_word_eqI)

lemma bit_shifted_one: "bit (push_bit k 1 :: 'a::len word) n \<longleftrightarrow> n = k \<and> n < LENGTH('a)"
  by (auto simp: bit_simps)

lemma bit_low_mask: "bit (push_bit k 1 - 1 :: 'a::len word) n \<longleftrightarrow> n < k \<and> n < LENGTH('a)"
proof -
  have "(push_bit k 1 - 1 :: 'a word) = mask k"
    by (simp add: mask_eq_exp_minus_1 push_bit_eq_mult)
  then show ?thesis
    by (auto simp: bit_simps)
qed

lemma ucast_up_down:
  "LENGTH('a) \<le> LENGTH('b) \<Longrightarrow> ucast (ucast (w :: 'a::len word) :: 'b::len word) = w"
  by (auto intro!: bit_word_eqI simp: bit_ucast_iff)

lemma ucast_scast_down:
  "LENGTH('a) \<le> LENGTH('b) \<Longrightarrow> ucast (scast (w :: 'a::len word) :: 'b::len word) = w"
  by (auto intro!: bit_word_eqI simp: bit_ucast_iff bit_signed_iff)


section \<open>Removing from a vector by swapping with the last element\<close>

text \<open>\<open>*it = v.back(); v.pop_back();\<close> for the first \<open>it\<close> that holds the element; \<^term>\<open>None\<close> when there is
  none.\<close>

definition swap_remove :: "'a \<Rightarrow> 'a list \<Rightarrow> 'a list option" where
  "swap_remove x xs =
    (case find (\<lambda>i. xs ! i = x) [0..<length xs] of
       None \<Rightarrow> None
     | Some i \<Rightarrow> Some (butlast (xs[i := last xs])))"

lemma swap_remove_None_iff: "swap_remove x xs = None \<longleftrightarrow> x \<notin> set xs"
proof -
  have "find (\<lambda>i. xs ! i = x) [0..<length xs] = None \<longleftrightarrow> x \<notin> set xs"
    by (auto simp: find_None_iff in_set_conv_nth)
  then show ?thesis
    by (cases "find (\<lambda>i. xs ! i = x) [0..<length xs]") (simp_all add: swap_remove_def)
qed

lemma swap_remove_mset:
  assumes "swap_remove x xs = Some ys"
  shows "mset ys = mset xs - {#x#}" and "x \<in> set xs"
proof -
  obtain i where i: "i < length xs" "xs ! i = x" "ys = butlast (xs[i := last xs])"
    using assms by (auto simp: swap_remove_def find_Some_iff split: option.splits)
  let ?zs = "xs[i := last xs]"
  have xs: "xs \<noteq> []" and ne: "?zs \<noteq> []"
    using i by auto
  have l: "last ?zs = last xs"
    unfolding last_conv_nth[OF ne] using xs i(1) by (simp add: nth_list_update last_conv_nth)
  have "mset ?zs = add_mset (last xs) (mset xs - {#x#})"
    using i by (simp add: mset_update)
  moreover have "mset ?zs = add_mset (last xs) (mset (butlast ?zs))"
    using ne l append_butlast_last_id[OF ne] by (metis mset_append mset_single_iff union_mset_add_mset_right union_code add_mset_add_single mset.simps(1,2))
  ultimately show "mset ys = mset xs - {#x#}"
    using i by simp
  show "x \<in> set xs"
    using i by auto
qed

lemma swap_remove_distinct:
  assumes "swap_remove x xs = Some ys" and "distinct xs"
  shows "set ys = set xs - {x}" and "distinct ys"
proof -
  have m: "mset ys = mset_set (set xs) - {#x#}" "x \<in> set xs"
    using swap_remove_mset[OF assms(1)] assms(2) by (simp_all add: mset_set_set)
  then have e: "mset ys = mset_set (set xs - {x})"
    by (simp add: mset_set_Diff)
  then show "set ys = set xs - {x}"
    by (metis finite_Diff finite_set finite_set_mset_mset_set set_mset_mset)
  show "distinct ys"
    using e \<open>set ys = set xs - {x}\<close> distinct_count_atmost_1[of ys] by simp
qed

end
