(* ===== verification/CommitLog.thy ===== *)
theory CommitLog
  imports Prelude
begin

text \<open>
  The commit log of the in-memory storage (src/storage/v2/commit_log.hpp and
  commit_log.cpp): a linked list of bit blocks that records which transaction
  ids are finished and caches the oldest id that is not.  The linked list is
  the list \<open>cl_head\<close>; a pointer to a block is its index in that list, and the
  null pointer is an index past its end.  Ids are natural numbers, the fields of
  a block are 64-bit words.  The spin lock is not modelled: every operation
  takes it for its whole body, so operations are atomic.
\<close>

section \<open>Data\<close>

definition kBlockSize :: nat where
  "kBlockSize = 8192"

definition kIdsInField :: nat where
  "kIdsInField = 64"

definition kIdsInBlock :: nat where
  "kIdsInBlock = kBlockSize * kIdsInField"

type_synonym block = "64 word list"

definition new_block :: block where
  "new_block = replicate kBlockSize 0"

record commit_log =
  cl_head :: "block list"
  cl_head_start :: nat
  cl_next_start :: nat
  cl_oldest_active :: nat

datatype cl_error = Assert_failed | Null_block | Shift_out_of_range

section \<open>Operations\<close>

text \<open>\<open>__builtin_ffsl\<close>: one plus the index of the least set bit, 0 for 0.\<close>

definition ffsl :: "64 word \<Rightarrow> nat" where
  "ffsl w = (case find (bit w) [0..<64] of None \<Rightarrow> 0 | Some i \<Rightarrow> i + 1)"

fun UpdateOldestActive_loop :: "nat \<Rightarrow> block list \<Rightarrow> nat \<Rightarrow> nat \<Rightarrow> block list \<times> nat \<times> nat" where
  "UpdateOldestActive_loop next_start [] head_start oldest = ([], head_start, next_start)"
| "UpdateOldestActive_loop next_start (b # bs) head_start oldest =
    (let start_field = (if head_start \<le> oldest then (oldest - head_start) div kIdsInField else 0)
     in case find (\<lambda>i. b ! i \<noteq> -1) [start_field..<kBlockSize] of
          Some i \<Rightarrow> (b # bs, head_start, head_start + i * kIdsInField + ffsl (NOT (b ! i)) - 1)
        | None \<Rightarrow> UpdateOldestActive_loop next_start bs (head_start + kIdsInBlock) oldest)"

definition UpdateOldestActive :: "commit_log \<Rightarrow> commit_log" where
  "UpdateOldestActive cl =
    (let (bs, hs, oa) =
       UpdateOldestActive_loop (cl_next_start cl) (cl_head cl) (cl_head_start cl) (cl_oldest_active cl)
     in cl\<lparr>cl_head := bs, cl_head_start := hs, cl_oldest_active := oa\<rparr>)"

lemma kIdsInBlock_pos [simp]: "0 < kIdsInBlock"
  by (simp add: kIdsInBlock_def kBlockSize_def kIdsInField_def)

function FindOrCreateBlock_loop :: "nat \<Rightarrow> nat \<Rightarrow> nat \<Rightarrow> block list \<Rightarrow> nat \<Rightarrow> nat \<times> block list \<times> nat" where
  "FindOrCreateBlock_loop tid current current_start bs next_start =
    (if current_start + kIdsInBlock \<le> tid
     then if current + 1 < length bs
          then FindOrCreateBlock_loop tid (current + 1) (current_start + kIdsInBlock) bs next_start
          else FindOrCreateBlock_loop tid (current + 1) (current_start + kIdsInBlock)
                 (bs @ [new_block]) (next_start + kIdsInBlock)
     else (current, bs, next_start))"
  by pat_completeness auto
termination
  by (relation "measure (\<lambda>(tid, current, current_start, bs, next_start). tid - current_start)")
    (use kIdsInBlock_pos in \<open>auto simp del: kIdsInBlock_pos\<close>)

declare FindOrCreateBlock_loop.simps [simp del]

definition FindOrCreateBlock :: "nat \<Rightarrow> commit_log \<Rightarrow> nat \<times> commit_log" where
  "FindOrCreateBlock tid cl =
    (let cl1 = (if cl_head cl = []
                then cl\<lparr>cl_head := [new_block], cl_head_start := cl_next_start cl,
                        cl_next_start := cl_next_start cl + kIdsInBlock\<rparr>
                else cl);
         (current, bs, ns) =
           FindOrCreateBlock_loop tid 0 (cl_head_start cl1) (cl_head cl1) (cl_next_start cl1)
     in (current, cl1\<lparr>cl_head := bs, cl_next_start := ns\<rparr>))"

text \<open>\<open>block->field[i] |= mask\<close> and the loops that set whole fields.\<close>

definition or_field :: "nat \<Rightarrow> 64 word \<Rightarrow> block \<Rightarrow> block" where
  "or_field i m b = b[i := b ! i OR m]"

definition fill_fields :: "nat \<Rightarrow> nat \<Rightarrow> block \<Rightarrow> block" where
  "fill_fields lo hi b = fold (\<lambda>i b. b[i := -1]) [lo..<hi] b"

definition upd_block :: "nat \<Rightarrow> (block \<Rightarrow> block) \<Rightarrow> block list \<Rightarrow> block list" where
  "upd_block j f bs = bs[j := f (bs ! j)]"

definition MarkFinished :: "nat \<Rightarrow> commit_log \<Rightarrow> commit_log" where
  "MarkFinished tid cl =
    (let (j, cl1) = FindOrCreateBlock tid cl;
         cl2 = cl1\<lparr>cl_head := upd_block j (or_field ((tid mod kIdsInBlock) div kIdsInField)
                                 (push_bit (tid mod kIdsInField) 1)) (cl_head cl1)\<rparr>
     in if tid = cl_oldest_active cl2 then UpdateOldestActive cl2 else cl2)"

text \<open>The loop over the intermediate blocks of a range, with the condition the
  source has (\<open>current_start + kIdsInBlock < end_id\<close>).\<close>

function MarkBlocks_loop :: "nat \<Rightarrow> nat \<Rightarrow> nat \<Rightarrow> block list \<Rightarrow> cl_error + nat \<times> block list" where
  "MarkBlocks_loop end_id current current_start bs =
    (if current_start + kIdsInBlock < end_id
     then if current < length bs
          then MarkBlocks_loop end_id (current + 1) (current_start + kIdsInBlock)
                 (upd_block current (fill_fields 0 kBlockSize) bs)
          else Inl Null_block
     else Inr (current, bs))"
  by pat_completeness auto
termination
  by (relation "measure (\<lambda>(end_id, current, current_start, bs). end_id - current_start)")
    (use kIdsInBlock_pos in \<open>auto simp del: kIdsInBlock_pos\<close>)

declare MarkBlocks_loop.simps [simp del]

text \<open>The body of the function between the lookup of the two blocks and the
  scope guard that updates the oldest active id.\<close>

definition MarkRange_fields :: "nat \<Rightarrow> nat \<Rightarrow> nat \<Rightarrow> nat \<Rightarrow> block list \<Rightarrow> cl_error + block list" where
  "MarkRange_fields start_id end_id start_block end_block bs =
    (let start_field_idx = (start_id mod kIdsInBlock) div kIdsInField;
         start_idx_in_field = start_id mod kIdsInField;
         end_field_idx = (end_id mod kIdsInBlock) div kIdsInField;
         end_idx_in_field = end_id mod kIdsInField
     in if start_block = end_block \<and> start_field_idx = end_field_idx
        then if end_idx_in_field + 1 < start_idx_in_field then Inl Shift_out_of_range
             else let bits_shift = end_idx_in_field + 1 - start_idx_in_field
                  in if bits_shift = kIdsInField
                     then Inr (upd_block start_block (\<lambda>b. b[start_field_idx := -1]) bs)
                     else Inr (upd_block start_block (or_field start_field_idx
                            (push_bit start_idx_in_field (push_bit bits_shift 1 - 1))) bs)
        else
          let bs1 = upd_block start_block
                      (or_field start_field_idx (push_bit start_idx_in_field (-1))) bs;
              filled =
                (if start_block = end_block
                 then Inr (upd_block start_block (fill_fields (start_field_idx + 1) end_field_idx) bs1)
                 else
                   let bs2 = upd_block start_block (fill_fields (start_field_idx + 1) kBlockSize) bs1
                   in bind_result
                        (MarkBlocks_loop end_id (start_block + 1)
                           ((start_id div kIdsInBlock + 1) * kIdsInBlock) bs2)
                        (\<lambda>(current, bs3).
                           if current = end_block
                           then Inr (upd_block end_block (fill_fields 0 end_field_idx) bs3)
                           else Inl Assert_failed))
          in bind_result filled
               (\<lambda>bs4. if end_idx_in_field + 1 = kIdsInField
                      then Inr (upd_block end_block (\<lambda>b. b[end_field_idx := -1]) bs4)
                      else Inr (upd_block end_block
                             (or_field end_field_idx (push_bit (end_idx_in_field + 1) 1 - 1)) bs4)))"

definition MarkFinishedInRange :: "nat \<Rightarrow> nat \<Rightarrow> commit_log \<Rightarrow> cl_error + commit_log" where
  "MarkFinishedInRange start_id end_id cl =
    (if end_id < start_id then Inr cl
     else
       let (end_block, cl1) = FindOrCreateBlock end_id cl;
           (start_block, cl2) = FindOrCreateBlock start_id cl1
       in bind_result (MarkRange_fields start_id end_id start_block end_block (cl_head cl2))
            (\<lambda>bs. let cl3 = cl2\<lparr>cl_head := bs\<rparr>
                  in Inr (if start_id \<le> cl_oldest_active cl3 \<and> cl_oldest_active cl3 \<le> end_id
                          then UpdateOldestActive cl3 else cl3)))"

definition OldestActive :: "commit_log \<Rightarrow> nat" where
  "OldestActive cl = cl_oldest_active cl"

fun IsFinished_walk :: "block list \<Rightarrow> nat \<Rightarrow> nat \<Rightarrow> bool" where
  "IsFinished_walk [] current_start tid = False"
| "IsFinished_walk (b # bs) current_start tid =
    (if current_start + kIdsInBlock \<le> tid then IsFinished_walk bs (current_start + kIdsInBlock) tid
     else bit (b ! ((tid mod kIdsInBlock) div kIdsInField)) (tid mod kIdsInField))"

definition IsFinished :: "nat \<Rightarrow> commit_log \<Rightarrow> bool" where
  "IsFinished tid cl = IsFinished_walk (cl_head cl) (cl_head_start cl) tid"

definition CommitLog_new :: commit_log where
  "CommitLog_new = \<lparr>cl_head = [], cl_head_start = 0, cl_next_start = 0, cl_oldest_active = 0\<rparr>"

definition CommitLog_from :: "nat \<Rightarrow> cl_error + commit_log" where
  "CommitLog_from oldest_active =
    (if oldest_active = 0
     then Inr (CommitLog_new\<lparr>cl_head := [new_block], cl_next_start := kIdsInBlock\<rparr>)
     else
       let last_finished = oldest_active - 1;
           head_start = last_finished div kIdsInBlock * kIdsInBlock
       in MarkFinishedInRange 0 last_finished
            (CommitLog_new\<lparr>cl_head := [new_block], cl_head_start := head_start,
                            cl_next_start := head_start + kIdsInBlock\<rparr>))"

section \<open>Abstraction and invariant\<close>

text \<open>The ids a log counts as finished: those of freed blocks, and those whose
  bit is set.\<close>

definition fin_in :: "block list \<Rightarrow> nat \<Rightarrow> nat set" where
  "fin_in bs hs = {tid. tid < hs \<or> IsFinished_walk bs hs tid}"

definition finished :: "commit_log \<Rightarrow> nat set" where
  "finished cl = fin_in (cl_head cl) (cl_head_start cl)"

definition shape :: "block list \<Rightarrow> nat \<Rightarrow> nat \<Rightarrow> bool" where
  "shape bs hs ns \<longleftrightarrow> (\<forall>b \<in> set bs. length b = kBlockSize) \<and>
     kIdsInBlock dvd hs \<and> ns = hs + length bs * kIdsInBlock"

text \<open>\<open>cached bs hs oa\<close>: \<open>oa\<close> is the least unfinished id and lies in the first block.\<close>

definition cached :: "block list \<Rightarrow> nat \<Rightarrow> nat \<Rightarrow> bool" where
  "cached bs hs oa \<longleftrightarrow> oa \<notin> fin_in bs hs \<and> (\<forall>i < oa. i \<in> fin_in bs hs) \<and>
     (bs \<noteq> [] \<longrightarrow> oa < hs + kIdsInBlock)"

definition cl_inv :: "commit_log \<Rightarrow> bool" where
  "cl_inv cl \<longleftrightarrow> shape (cl_head cl) (cl_head_start cl) (cl_next_start cl) \<and>
     cached (cl_head cl) (cl_head_start cl) (cl_oldest_active cl)"

text \<open>The offsets marked in one block.\<close>

definition blk_ids :: "block \<Rightarrow> nat set" where
  "blk_ids b = {k. k < kIdsInBlock \<and> bit (b ! (k div kIdsInField)) (k mod kIdsInField)}"

section \<open>Blocks as sets of offsets\<close>

lemma kIdsInField_pos [simp]: "0 < kIdsInField"
  by (simp add: kIdsInField_def)

lemma mod_field_less [simp]: "k mod kIdsInField < 64"
  by (simp add: kIdsInField_def)

lemma offset_field: "k < kIdsInBlock \<Longrightarrow> k div kIdsInField < kBlockSize"
  by (simp add: kIdsInBlock_def less_mult_imp_div_less)

lemma mod_field: "tid mod kIdsInBlock mod kIdsInField = tid mod kIdsInField"
  unfolding kIdsInBlock_def by (rule mod_mod_cancel) simp

lemma mem_blk_ids:
  "bit (b ! ((tid mod kIdsInBlock) div kIdsInField)) (tid mod kIdsInField) \<longleftrightarrow>
     tid mod kIdsInBlock \<in> blk_ids b"
  by (simp add: blk_ids_def mod_field)

lemma length_new_block [simp]: "length new_block = kBlockSize"
  by (simp add: new_block_def)

lemma blk_ids_new [simp]: "blk_ids new_block = {}"
  by (auto simp: blk_ids_def new_block_def offset_field)

lemma length_or_field [simp]: "length (or_field i m b) = length b"
  by (simp add: or_field_def)

lemma blk_ids_or_field:
  assumes "length b = kBlockSize"
  shows "blk_ids (or_field i m b) =
    blk_ids b \<union> {k. k < kIdsInBlock \<and> k div kIdsInField = i \<and> bit m (k mod kIdsInField)}"
proof (intro set_eqI)
  fix k
  show "k \<in> blk_ids (or_field i m b) \<longleftrightarrow> k \<in> blk_ids b \<union>
    {k. k < kIdsInBlock \<and> k div kIdsInField = i \<and> bit m (k mod kIdsInField)}"
    using assms by (cases "i = k div kIdsInField")
      (auto simp: blk_ids_def or_field_def bit_or_iff offset_field)
qed

lemma fill_fields_nth:
  "length (fill_fields lo hi b) = length b \<and>
   (\<forall>i < length b. fill_fields lo hi b ! i = (if lo \<le> i \<and> i < hi then -1 else b ! i))"
proof (induction "hi - lo" arbitrary: lo b)
  case 0
  then show ?case by (auto simp: fill_fields_def)
next
  case (Suc n)
  then have lt: "lo < hi" and n: "n = hi - Suc lo"
    by simp_all
  have "fill_fields lo hi b = fill_fields (Suc lo) hi (b[lo := -1])"
    using lt by (simp add: fill_fields_def upt_conv_Cons)
  then show ?case
    using Suc.hyps(1)[OF n, of "b[lo := -1]"] lt by (auto simp: nth_list_update)
qed

lemma length_fill_fields [simp]: "length (fill_fields lo hi b) = length b"
  by (simp add: fill_fields_nth)

lemma bit_max_field: "bit (-1 :: 64 word) (k mod kIdsInField)"
  by simp

lemma blk_ids_fill_fields:
  assumes "length b = kBlockSize"
  shows "blk_ids (fill_fields lo hi b) =
    blk_ids b \<union> {k. k < kIdsInBlock \<and> lo \<le> k div kIdsInField \<and> k div kIdsInField < hi}"
proof (intro set_eqI)
  fix k
  show "k \<in> blk_ids (fill_fields lo hi b) \<longleftrightarrow> k \<in> blk_ids b \<union>
    {k. k < kIdsInBlock \<and> lo \<le> k div kIdsInField \<and> k div kIdsInField < hi}"
    using assms by (cases "lo \<le> k div kIdsInField \<and> k div kIdsInField < hi")
      (auto simp: blk_ids_def fill_fields_nth offset_field bit_max_field)
qed

lemma blk_ids_max_field:
  assumes "length b = kBlockSize"
  shows "blk_ids (b[i := -1]) = blk_ids b \<union> {k. k < kIdsInBlock \<and> k div kIdsInField = i}"
proof (intro set_eqI)
  fix k
  show "k \<in> blk_ids (b[i := -1]) \<longleftrightarrow> k \<in> blk_ids b \<union>
    {k. k < kIdsInBlock \<and> k div kIdsInField = i}"
    using assms by (cases "i = k div kIdsInField")
      (auto simp: blk_ids_def offset_field bit_max_field)
qed

section \<open>The finished set through the block list\<close>

lemma walk_iff:
  "cs \<le> tid \<Longrightarrow> IsFinished_walk bs cs tid \<longleftrightarrow>
     (tid - cs) div kIdsInBlock < length bs \<and>
     tid mod kIdsInBlock \<in> blk_ids (bs ! ((tid - cs) div kIdsInBlock))"
proof (induction bs arbitrary: cs)
  case Nil
  then show ?case by simp
next
  case (Cons b bs)
  show ?case
  proof (cases "cs + kIdsInBlock \<le> tid")
    case True
    then have "(tid - cs) div kIdsInBlock = Suc ((tid - (cs + kIdsInBlock)) div kIdsInBlock)"
      by (simp add: le_div_geq)
    then show ?thesis
      using Cons.IH[of "cs + kIdsInBlock"] True by simp
  next
    case False
    then have "(tid - cs) div kIdsInBlock = 0"
      using Cons.prems by simp
    then show ?thesis
      using False by (simp add: mem_blk_ids)
  qed
qed

lemma mem_fin_in:
  "tid \<in> fin_in bs hs \<longleftrightarrow> tid < hs \<or>
     ((tid - hs) div kIdsInBlock < length bs \<and>
      tid mod kIdsInBlock \<in> blk_ids (bs ! ((tid - hs) div kIdsInBlock)))"
  by (cases "tid < hs") (simp_all add: fin_in_def walk_iff)

lemma fin_in_Nil [simp]: "fin_in [] hs = {..<hs}"
  by (auto simp: mem_fin_in)

lemma finite_fin_in: "finite (fin_in bs hs)"
proof -
  have "fin_in bs hs \<subseteq> {..< hs + length bs * kIdsInBlock}"
  proof
    fix tid
    assume "tid \<in> fin_in bs hs"
    moreover have "tid < hs + length bs * kIdsInBlock"
      if "hs \<le> tid" and "(tid - hs) div kIdsInBlock < length bs"
      using that by (simp add: div_less_iff_less_mult less_diff_conv2 add.commute)
    ultimately show "tid \<in> {..< hs + length bs * kIdsInBlock}"
      by (cases "tid < hs") (simp_all add: mem_fin_in)
  qed
  then show ?thesis
    using finite_subset by blast
qed

lemma fin_in_upd_block:
  assumes "j < length bs" and "blk_ids (f (bs ! j)) = blk_ids (bs ! j) \<union> S"
  shows "fin_in (upd_block j f bs) hs =
    fin_in bs hs \<union> {tid. hs \<le> tid \<and> (tid - hs) div kIdsInBlock = j \<and> tid mod kIdsInBlock \<in> S}"
proof (intro set_eqI)
  fix tid
  show "tid \<in> fin_in (upd_block j f bs) hs \<longleftrightarrow> tid \<in> fin_in bs hs \<union>
    {tid. hs \<le> tid \<and> (tid - hs) div kIdsInBlock = j \<and> tid mod kIdsInBlock \<in> S}"
    using assms by (cases "(tid - hs) div kIdsInBlock = j")
      (auto simp: mem_fin_in upd_block_def)
qed

lemma fin_in_append_new [simp]: "fin_in (bs @ replicate k new_block) hs = fin_in bs hs"
  by (auto simp: mem_fin_in nth_append split: if_splits)

lemma shape_upd_block:
  assumes "shape bs hs ns" and "j < length bs" and "length (f (bs ! j)) = length (bs ! j)"
  shows "shape (upd_block j f bs) hs ns"
  using assms by (auto simp: shape_def upd_block_def dest!: set_update_subset_insert[THEN subsetD])

lemma length_upd_block [simp]: "length (upd_block j f bs) = length bs"
  by (simp add: upd_block_def)

section \<open>Finding a block\<close>

lemma FindOrCreateBlock_loop_steps:
  "\<not> cs + kIdsInBlock \<le> tid \<Longrightarrow> FindOrCreateBlock_loop tid current cs bs ns = (current, bs, ns)"
  "cs + kIdsInBlock \<le> tid \<Longrightarrow> current + 1 < length bs \<Longrightarrow>
    FindOrCreateBlock_loop tid current cs bs ns =
      FindOrCreateBlock_loop tid (current + 1) (cs + kIdsInBlock) bs ns"
  "cs + kIdsInBlock \<le> tid \<Longrightarrow> \<not> current + 1 < length bs \<Longrightarrow>
    FindOrCreateBlock_loop tid current cs bs ns =
      FindOrCreateBlock_loop tid (current + 1) (cs + kIdsInBlock) (bs @ [new_block]) (ns + kIdsInBlock)"
  by (subst FindOrCreateBlock_loop.simps; simp)+

lemma FindOrCreateBlock_loop_spec:
  assumes "FindOrCreateBlock_loop tid current cs bs ns = (j, bs', ns')"
    and "cs = hs + current * kIdsInBlock" and "current < length bs"
    and "ns = hs + length bs * kIdsInBlock" and "current \<le> (tid - hs) div kIdsInBlock"
  shows "j = (tid - hs) div kIdsInBlock \<and> j < length bs' \<and>
    ns' = hs + length bs' * kIdsInBlock \<and> (\<exists>k. bs' = bs @ replicate k new_block)"
  using assms
proof (induction tid current cs bs ns arbitrary: j bs' ns' rule: FindOrCreateBlock_loop.induct)
  case (1 tid current cs bs ns)
  show ?case
  proof (cases "cs + kIdsInBlock \<le> tid")
    case False
    then have "tid - hs < Suc current * kIdsInBlock"
      using 1(4) kIdsInBlock_pos unfolding mult_Suc by linarith
    then have "(tid - hs) div kIdsInBlock \<le> current"
      by (intro less_Suc_eq_le[THEN iffD1] less_mult_imp_div_less)
    then show ?thesis
      using 1(3-) FindOrCreateBlock_loop_steps(1)[OF False] by (auto intro: exI[of _ 0])
  next
    case True
    have next_le: "current + 1 \<le> (tid - hs) div kIdsInBlock"
      using True 1(4) by (simp add: less_eq_div_iff_mult_less_eq le_diff_conv2 algebra_simps)
    have cs': "cs + kIdsInBlock = hs + (current + 1) * kIdsInBlock"
      using 1(4) by simp
    show ?thesis
    proof (cases "current + 1 < length bs")
      case less: True
      have "FindOrCreateBlock_loop tid (current + 1) (cs + kIdsInBlock) bs ns = (j, bs', ns')"
        using 1(3) FindOrCreateBlock_loop_steps(2)[OF True less] by simp
      then show ?thesis
        by (rule 1(1)[OF True less _ cs' less 1(6) next_le])
    next
      case ge: False
      have step: "FindOrCreateBlock_loop tid (current + 1) (cs + kIdsInBlock)
          (bs @ [new_block]) (ns + kIdsInBlock) = (j, bs', ns')"
        using 1(3) FindOrCreateBlock_loop_steps(3)[OF True ge] by simp
      have len: "current + 1 < length (bs @ [new_block])"
        using 1(5) ge by simp
      have ns: "ns + kIdsInBlock = hs + length (bs @ [new_block]) * kIdsInBlock"
        using 1(6) by simp
      have "\<exists>k. bs' = bs @ replicate k new_block"
        if "\<exists>k. bs' = (bs @ [new_block]) @ replicate k new_block"
        using that by (metis append.assoc append_Cons append_Nil replicate_Suc)
      then show ?thesis
        using 1(2)[OF True ge step cs' len ns next_le] by blast
    qed
  qed
qed

lemma cached_Nil: "cached [] hs oa \<longleftrightarrow> oa = hs"
  by (auto simp: cached_def) (metis linorder_neqE_nat less_irrefl)

lemma cached_append_new:
  "cached bs hs oa \<Longrightarrow> bs \<noteq> [] \<Longrightarrow> cached (bs @ replicate k new_block) hs oa"
  by (simp add: cached_def)

lemma shape_append_new:
  "shape bs hs ns \<Longrightarrow>
   shape (bs @ replicate k new_block) hs (hs + length (bs @ replicate k new_block) * kIdsInBlock)"
  by (auto simp: shape_def)

lemma FindOrCreateBlock_spec:
  assumes "FindOrCreateBlock tid cl = (j, cl')"
    and "shape (cl_head cl) (cl_head_start cl) (cl_next_start cl)"
  shows "shape (cl_head cl') (cl_head_start cl') (cl_next_start cl') \<and>
    j = (tid - cl_head_start cl') div kIdsInBlock \<and> j < length (cl_head cl') \<and>
    cl_head_start cl' = cl_head_start cl \<and> cl_oldest_active cl' = cl_oldest_active cl \<and>
    (\<exists>k. cl_head cl' = cl_head cl @ replicate k new_block)"
proof (cases "cl_head cl = []")
  case True
  define hs where "hs = cl_head_start cl"
  have ns: "cl_next_start cl = hs" and sh: "shape [new_block] hs (hs + kIdsInBlock)"
    using assms(2) True by (auto simp: shape_def hs_def)
  obtain bs' ns' where loop:
    "FindOrCreateBlock_loop tid 0 hs [new_block] (hs + kIdsInBlock) = (j, bs', ns')"
    and cl': "cl' = cl\<lparr>cl_head := bs', cl_head_start := hs, cl_next_start := ns'\<rparr>"
    using assms(1) True ns by (auto simp: FindOrCreateBlock_def Let_def split: prod.splits)
  obtain k where "bs' = [new_block] @ replicate k new_block"
    and "j = (tid - hs) div kIdsInBlock" "j < length bs'" "ns' = hs + length bs' * kIdsInBlock"
    using FindOrCreateBlock_loop_spec[OF loop, of hs] by auto
  then show ?thesis
    using cl' True shape_append_new[OF sh, of k] by (auto simp: hs_def intro: exI[of _ "Suc k"])
next
  case False
  define hs where "hs = cl_head_start cl"
  obtain bs' ns' where loop:
    "FindOrCreateBlock_loop tid 0 hs (cl_head cl) (cl_next_start cl) = (j, bs', ns')"
    and cl': "cl' = cl\<lparr>cl_head := bs', cl_next_start := ns'\<rparr>"
    using assms(1) False by (auto simp: FindOrCreateBlock_def hs_def split: prod.splits)
  obtain k where "bs' = cl_head cl @ replicate k new_block"
    and "j = (tid - hs) div kIdsInBlock" "j < length bs'" "ns' = hs + length bs' * kIdsInBlock"
    using FindOrCreateBlock_loop_spec[OF loop, of hs] False assms(2)
    by (auto simp: shape_def hs_def)
  then show ?thesis
    using cl' assms(2) shape_append_new[OF assms(2), of k] by (auto simp: hs_def)
qed

section \<open>The cached oldest id\<close>

lemma ffsl_not:
  assumes "w \<noteq> -1"
  shows "\<exists>i < 64. ffsl (NOT w) = i + 1 \<and> \<not> bit w i \<and> (\<forall>j < i. bit w j)"
proof -
  obtain n where "n < 64" and "\<not> bit w n"
    using assms by (auto simp: word_eq_max_iff)
  then have "find (bit (NOT w)) [0..<64] \<noteq> None"
    by (auto simp: find_upt_None bit_not_iff)
  then obtain i where i: "find (bit (NOT w)) [0..<64] = Some i"
    by blast
  then have "i < 64 \<and> \<not> bit w i \<and> (\<forall>j < i. bit w j)"
    by (auto simp: find_upt_Some bit_not_iff)
  then show ?thesis
    using i by (auto simp: ffsl_def)
qed

lemma blk_ids_first_free:
  assumes "length b = kBlockSize" and "find (\<lambda>i. b ! i \<noteq> -1) [s..<kBlockSize] = Some i"
    and "\<And>k. k div kIdsInField < s \<Longrightarrow> k \<in> blk_ids b"
  shows "\<exists>n. i * kIdsInField + ffsl (NOT (b ! i)) - 1 = n \<and> n < kIdsInBlock \<and>
    n \<notin> blk_ids b \<and> (\<forall>k < n. k \<in> blk_ids b)"
proof -
  have i: "s \<le> i" "i < kBlockSize" "b ! i \<noteq> -1" "\<And>j. s \<le> j \<Longrightarrow> j < i \<Longrightarrow> b ! j = -1"
    using assms(2) by (auto simp: find_upt_Some)
  obtain r where r: "r < 64" "ffsl (NOT (b ! i)) = r + 1" "\<not> bit (b ! i) r" "\<And>j. j < r \<Longrightarrow> bit (b ! i) j"
    using ffsl_not[OF i(3)] by blast
  define n where "n = i * kIdsInField + r"
  have n: "n div kIdsInField = i" "n mod kIdsInField = r"
    using r(1) by (simp_all add: n_def kIdsInField_def)
  have lt: "n < kIdsInBlock"
    using i(2) r(1) by (simp add: n_def kIdsInBlock_def kIdsInField_def kBlockSize_def)
  have "k \<in> blk_ids b" if "k < n" for k
  proof (cases "k div kIdsInField < s")
    case True
    then show ?thesis by (rule assms(3))
  next
    case False
    have "k div kIdsInField \<le> i"
      using that n(1) div_le_mono less_imp_le by metis
    moreover have "bit (b ! i) (k mod kIdsInField)" if "k div kIdsInField = i"
    proof -
      have "k mod kIdsInField < r"
        using \<open>k < n\<close> that div_mult_mod_eq[of k kIdsInField] by (simp add: n_def)
      then show ?thesis by (rule r(4))
    qed
    ultimately show ?thesis
      using False i(4)[of "k div kIdsInField"] that lt by (cases "k div kIdsInField = i")
        (auto simp: blk_ids_def bit_max_field)
  qed
  moreover have "n \<notin> blk_ids b"
    using n r(3) by (simp add: blk_ids_def)
  ultimately show ?thesis
    using lt r(2) by (auto simp: n_def)
qed

lemma blk_ids_all_max:
  assumes "find (\<lambda>i. b ! i \<noteq> -1) [s..<kBlockSize] = None"
    and "\<And>k. k div kIdsInField < s \<Longrightarrow> k \<in> blk_ids b" and "k < kIdsInBlock"
  shows "k \<in> blk_ids b"
proof (cases "k div kIdsInField < s")
  case False
  then have "b ! (k div kIdsInField) = -1"
    using assms(1,3) offset_field[of k] by (auto simp: find_upt_None)
  then show ?thesis
    using assms(3) by (simp add: blk_ids_def bit_max_field)
qed (rule assms(2))

lemma mem_fin_in_first:
  "kIdsInBlock dvd hs \<Longrightarrow> k < kIdsInBlock \<Longrightarrow> hs + k \<in> fin_in (b # bs) hs \<longleftrightarrow> k \<in> blk_ids b"
  by (auto simp: mem_fin_in mod_add_eq)

lemma fin_in_drop_full:
  assumes "\<And>k. k < kIdsInBlock \<Longrightarrow> k \<in> blk_ids b"
  shows "fin_in (b # bs) hs = fin_in bs (hs + kIdsInBlock)"
proof (intro set_eqI)
  fix tid
  consider "tid < hs" | "hs \<le> tid" "tid < hs + kIdsInBlock" | "hs + kIdsInBlock \<le> tid"
    by linarith
  then show "tid \<in> fin_in (b # bs) hs \<longleftrightarrow> tid \<in> fin_in bs (hs + kIdsInBlock)"
  proof cases
    case 2
    then have "(tid - hs) div kIdsInBlock = 0"
      by simp
    then show ?thesis
      using 2 assms by (simp add: mem_fin_in)
  next
    case 3
    then have "(tid - hs) div kIdsInBlock = Suc ((tid - (hs + kIdsInBlock)) div kIdsInBlock)"
      by (simp add: le_div_geq)
    then show ?thesis
      using 3 by (simp add: mem_fin_in)
  qed (simp add: mem_fin_in)
qed

lemma UpdateOldestActive_loop_spec:
  assumes "UpdateOldestActive_loop ns bs hs oa = (bs', hs', oa')"
    and "shape bs hs ns" and "\<forall>i < oa. i \<in> fin_in bs hs" and "bs \<noteq> [] \<longrightarrow> oa < hs + kIdsInBlock"
    and "bs = [] \<longrightarrow> oa \<le> hs"
  shows "shape bs' hs' ns \<and> fin_in bs' hs' = fin_in bs hs \<and> cached bs' hs' oa'"
  using assms
proof (induction bs arbitrary: hs)
  case Nil
  then show ?case
    by (auto simp: shape_def cached_Nil)
next
  case (Cons b bs)
  define s where "s = (if hs \<le> oa then (oa - hs) div kIdsInField else 0)"
  have len: "length b = kBlockSize" and dvd: "kIdsInBlock dvd hs"
    using Cons.prems(2) by (auto simp: shape_def)
  have below: "k \<in> blk_ids b" if "k div kIdsInField < s" for k
  proof -
    have "hs \<le> oa" and "k div kIdsInField < (oa - hs) div kIdsInField"
      using that by (auto simp: s_def split: if_splits)
    then have "k < oa - hs"
      using div_le_mono[of "oa - hs" k kIdsInField] by linarith
    then show ?thesis
      using Cons.prems(3,4) dvd by (subst mem_fin_in_first[symmetric, of hs _ _ bs]) auto
  qed
  show ?case
  proof (cases "find (\<lambda>i. b ! i \<noteq> -1) [s..<kBlockSize]")
    case None
    have full: "k \<in> blk_ids b" if "k < kIdsInBlock" for k
      using blk_ids_all_max[OF None below that] .
    have "UpdateOldestActive_loop ns bs (hs + kIdsInBlock) oa = (bs', hs', oa')"
      using Cons.prems(1) None by (simp add: s_def)
    moreover have "shape bs (hs + kIdsInBlock) ns"
      using Cons.prems(2) by (auto simp: shape_def)
    ultimately show ?thesis
      using Cons.IH[of "hs + kIdsInBlock"] Cons.prems(3,4) fin_in_drop_full[OF full, of bs hs]
      by auto
  next
    case (Some i)
    obtain n where n: "i * kIdsInField + ffsl (NOT (b ! i)) - 1 = n" "n < kIdsInBlock"
      "n \<notin> blk_ids b" "\<forall>k < n. k \<in> blk_ids b"
      using blk_ids_first_free[OF len Some below] by blast
    have "0 < ffsl (NOT (b ! i))"
      using Some ffsl_not[of "b ! i"] by (auto simp: find_upt_Some)
    then have res: "bs' = b # bs" "hs' = hs" "oa' = hs + n"
      using Cons.prems(1) Some n(1) by (auto simp: s_def)
    have "j \<in> fin_in (b # bs) hs" if "j < hs + n" for j
      using that n(2,4) mem_fin_in_first[OF dvd, of "j - hs" b bs]
      by (cases "j < hs") (auto simp: mem_fin_in)
    then show ?thesis
      using res n(2,3) Cons.prems(2) mem_fin_in_first[OF dvd n(2), of b bs] by (auto simp: cached_def)
  qed
qed

section \<open>Marking as a union of intervals\<close>

lemma UpdateOldestActive_spec:
  assumes "shape (cl_head cl) (cl_head_start cl) (cl_next_start cl)" and "cl_head cl \<noteq> []"
    and "\<forall>i < cl_oldest_active cl. i \<in> finished cl"
    and "cl_oldest_active cl < cl_head_start cl + kIdsInBlock"
  shows "cl_inv (UpdateOldestActive cl) \<and> finished (UpdateOldestActive cl) = finished cl"
proof -
  obtain bs' hs' oa' where r: "UpdateOldestActive_loop (cl_next_start cl) (cl_head cl)
      (cl_head_start cl) (cl_oldest_active cl) = (bs', hs', oa')"
    by (metis prod_cases3)
  show ?thesis
    using UpdateOldestActive_loop_spec[OF r] assms r
    by (simp add: UpdateOldestActive_def cl_inv_def finished_def)
qed

lemma cached_oldest: "cached bs hs oa \<Longrightarrow> oa < hs + kIdsInBlock"
  using cached_Nil[of hs oa] by (cases "bs = []") (simp_all add: cached_def)

text \<open>Marking a set \<open>S\<close> and refreshing the cache exactly when it is hit.\<close>

lemma mark_then_update:
  assumes "shape (cl_head cl) (cl_head_start cl) (cl_next_start cl)" and "cl_head cl \<noteq> []"
    and "cached bs (cl_head_start cl) (cl_oldest_active cl)"
    and "finished cl = fin_in bs (cl_head_start cl) \<union> S"
    and "upd \<longleftrightarrow> cl_oldest_active cl \<in> S"
  shows "cl_inv (if upd then UpdateOldestActive cl else cl) \<and>
    finished (if upd then UpdateOldestActive cl else cl) = fin_in bs (cl_head_start cl) \<union> S"
proof (cases upd)
  case True
  then show ?thesis
    using UpdateOldestActive_spec[OF assms(1,2)] assms(3,4) cached_oldest[OF assms(3)]
    by (auto simp: cached_def)
next
  case False
  then show ?thesis
    using assms cached_oldest[OF assms(3)] by (auto simp: cl_inv_def cached_def finished_def)
qed

lemma div_mod_interval:
  assumes "kIdsInBlock dvd hs" and "hi \<le> kIdsInBlock"
  shows "{tid. hs \<le> tid \<and> (tid - hs) div kIdsInBlock = j \<and> tid mod kIdsInBlock \<in> {lo..<hi}} =
    {hs + j * kIdsInBlock + lo..<hs + j * kIdsInBlock + hi}" (is "?L = ?R")
proof (intro set_eqI iffI)
  fix tid
  assume "tid \<in> ?L"
  then have le: "hs \<le> tid" and d: "(tid - hs) div kIdsInBlock = j" and m: "tid mod kIdsInBlock \<in> {lo..<hi}"
    by auto
  have "tid mod kIdsInBlock = (tid - hs) mod kIdsInBlock"
    using assms(1) le by (auto elim!: dvdE simp: le_iff_add)
  moreover have "tid - hs = j * kIdsInBlock + (tid - hs) mod kIdsInBlock"
    using d div_mult_mod_eq[of "tid - hs" kIdsInBlock] by simp
  ultimately show "tid \<in> ?R"
    using le m by auto
next
  fix tid
  assume R: "tid \<in> ?R"
  define r where "r = tid - (hs + j * kIdsInBlock)"
  have tid: "tid = hs + j * kIdsInBlock + r" and r: "lo \<le> r" "r < hi"
    using R by (auto simp: r_def)
  obtain c where "hs = c * kIdsInBlock"
    using assms(1) by (metis dvd_def mult.commute)
  then have "tid = r + (c + j) * kIdsInBlock"
    using tid by (simp add: algebra_simps)
  then have "tid mod kIdsInBlock = r"
    using assms(2) r by (simp only: mod_mult_self1) simp
  then show "tid \<in> ?L"
    using tid r assms(2) by simp
qed

lemma fin_in_upd_interval:
  assumes "shape bs hs ns" and "j < length bs" and "hi \<le> kIdsInBlock"
    and "blk_ids (f (bs ! j)) = blk_ids (bs ! j) \<union> {lo..<hi}"
  shows "fin_in (upd_block j f bs) hs =
    fin_in bs hs \<union> {hs + j * kIdsInBlock + lo..<hs + j * kIdsInBlock + hi}"
  using fin_in_upd_block[where f = f and hs = hs, OF assms(2,4)]
    div_mod_interval[of hs hi j lo] assms(1,3) by (simp add: shape_def)

lemma offset_interval:
  assumes "i < kBlockSize" and "hi \<le> kIdsInField"
  shows "{k. k < kIdsInBlock \<and> k div kIdsInField = i \<and> lo \<le> k mod kIdsInField \<and> k mod kIdsInField < hi} =
    {i * kIdsInField + lo..<i * kIdsInField + hi}" (is "?L = ?R")
proof (intro set_eqI iffI)
  fix k
  assume "k \<in> ?L"
  then show "k \<in> ?R"
    using div_mult_mod_eq[of k kIdsInField] by auto
next
  fix k
  assume R: "k \<in> ?R"
  define r where "r = k - i * kIdsInField"
  have k: "k = i * kIdsInField + r" and r: "lo \<le> r" "r < hi"
    using R by (auto simp: r_def)
  have "k < (i + 1) * kIdsInField"
    using k r assms(2) by simp
  also have "\<dots> \<le> kIdsInBlock"
    using assms(1) unfolding kIdsInBlock_def by (intro mult_le_mono1) simp
  finally show "k \<in> ?L"
    using k r assms(2) by simp
qed

text \<open>The masks of the source, as intervals of offsets within a block.\<close>

lemma blk_ids_masks:
  assumes "length b = kBlockSize" and "i < kBlockSize"
  shows "s < kIdsInField \<Longrightarrow> blk_ids (or_field i (push_bit s 1) b) =
      blk_ids b \<union> {i * kIdsInField + s..<i * kIdsInField + (s + 1)}"
    and "blk_ids (or_field i (push_bit s (-1)) b) =
      blk_ids b \<union> {i * kIdsInField + s..<i * kIdsInField + kIdsInField}"
    and "e \<le> kIdsInField \<Longrightarrow> blk_ids (or_field i (push_bit e 1 - 1) b) =
      blk_ids b \<union> {i * kIdsInField + 0..<i * kIdsInField + e}"
    and "s + n \<le> kIdsInField \<Longrightarrow> blk_ids (or_field i (push_bit s (push_bit n 1 - 1)) b) =
      blk_ids b \<union> {i * kIdsInField + s..<i * kIdsInField + (s + n)}"
    and "blk_ids (b[i := -1]) = blk_ids b \<union> {i * kIdsInField + 0..<i * kIdsInField + kIdsInField}"
proof -
  have 64: "kIdsInField = 64"
    by (simp add: kIdsInField_def)
  have or_ivl: "blk_ids (or_field i m b) = blk_ids b \<union> {i * kIdsInField + lo..<i * kIdsInField + hi}"
    if "hi \<le> kIdsInField" and "\<And>r. r < kIdsInField \<Longrightarrow> bit m r \<longleftrightarrow> lo \<le> r \<and> r < hi" for m lo hi
    using offset_interval[OF assms(2) that(1), of lo] that(2)
    by (simp add: blk_ids_or_field[OF assms(1)])
  show "s < kIdsInField \<Longrightarrow> blk_ids (or_field i (push_bit s 1) b) =
      blk_ids b \<union> {i * kIdsInField + s..<i * kIdsInField + (s + 1)}"
    by (rule or_ivl, simp, subst bit_shifted_one) (auto simp: 64)
  show "blk_ids (or_field i (push_bit s (-1)) b) =
      blk_ids b \<union> {i * kIdsInField + s..<i * kIdsInField + kIdsInField}"
    by (rule or_ivl) (auto simp: bit_not_iff bit_mask_iff 64)
  show "e \<le> kIdsInField \<Longrightarrow> blk_ids (or_field i (push_bit e 1 - 1) b) =
      blk_ids b \<union> {i * kIdsInField + 0..<i * kIdsInField + e}"
    by (rule or_ivl, simp, subst bit_low_mask) (auto simp: 64)
  show "s + n \<le> kIdsInField \<Longrightarrow> blk_ids (or_field i (push_bit s (push_bit n 1 - 1)) b) =
      blk_ids b \<union> {i * kIdsInField + s..<i * kIdsInField + (s + n)}"
    by (rule or_ivl, simp, subst bit_push_bit_iff, subst bit_low_mask) (auto simp: 64)
  show "blk_ids (b[i := -1]) = blk_ids b \<union> {i * kIdsInField + 0..<i * kIdsInField + kIdsInField}"
    using offset_interval[OF assms(2) order_refl, of 0] by (simp add: blk_ids_max_field[OF assms(1)])
qed

lemma blk_ids_fill_interval:
  assumes "length b = kBlockSize" and "hi \<le> kBlockSize"
  shows "blk_ids (fill_fields lo hi b) = blk_ids b \<union> {lo * kIdsInField..<hi * kIdsInField}"
proof -
  have "hi * kIdsInField \<le> kIdsInBlock"
    unfolding kIdsInBlock_def by (rule mult_le_mono1[OF assms(2)])
  then have "{k. k < kIdsInBlock \<and> lo \<le> k div kIdsInField \<and> k div kIdsInField < hi} =
      {lo * kIdsInField..<hi * kIdsInField}"
    by (auto simp: less_eq_div_iff_mult_less_eq div_less_iff_less_mult)
  then show ?thesis
    by (simp add: blk_ids_fill_fields[OF assms(1)])
qed

lemma id_decomposition:
  assumes "kIdsInBlock dvd hs" and "hs \<le> tid"
  shows "hs + (tid - hs) div kIdsInBlock * kIdsInBlock + tid mod kIdsInBlock = tid"
proof -
  have "tid mod kIdsInBlock = (tid - hs) mod kIdsInBlock"
    using assms by (auto elim!: dvdE simp: le_iff_add)
  then show ?thesis
    using assms(2) div_mult_mod_eq[of "tid - hs" kIdsInBlock] by linarith
qed

lemma offset_decomposition:
  "(tid mod kIdsInBlock) div kIdsInField * kIdsInField + tid mod kIdsInField = tid mod kIdsInBlock"
  using div_mult_mod_eq[of "tid mod kIdsInBlock" kIdsInField] by (simp add: mod_field)

lemma field_idx_less: "(tid mod kIdsInBlock) div kIdsInField < kBlockSize"
  by (simp add: offset_field)

lemma idx_in_field_less: "tid mod kIdsInField < kIdsInField"
  by simp

lemma shape_length: "shape bs hs ns \<Longrightarrow> j < length bs \<Longrightarrow> length (bs ! j) = kBlockSize"
  by (simp add: shape_def)

section \<open>Marking one id\<close>

lemma MarkFinished_spec:
  assumes "cl_inv cl" and "cl_head_start cl \<le> tid"
  shows "cl_inv (MarkFinished tid cl) \<and> finished (MarkFinished tid cl) = insert tid (finished cl)"
proof -
  define hs where "hs = cl_head_start cl"
  obtain j cl1 where f: "FindOrCreateBlock tid cl = (j, cl1)"
    by fastforce
  have inv: "shape (cl_head cl) hs (cl_next_start cl)" "cached (cl_head cl) hs (cl_oldest_active cl)"
    using assms(1) by (simp_all add: cl_inv_def hs_def)
  note spec = FindOrCreateBlock_spec[OF f, folded hs_def, OF inv(1)]
  define fi where "fi = (tid mod kIdsInBlock) div kIdsInField"
  define cl2 where "cl2 = cl1\<lparr>cl_head := upd_block j (or_field fi (push_bit (tid mod kIdsInField) 1)) (cl_head cl1)\<rparr>"
  have dvd: "kIdsInBlock dvd hs"
    using inv(1) by (simp add: shape_def)
  have block: "blk_ids (or_field fi (push_bit (tid mod kIdsInField) 1) (cl_head cl1 ! j)) =
      blk_ids (cl_head cl1 ! j) \<union> {tid mod kIdsInBlock..<tid mod kIdsInBlock + 1}"
    using blk_ids_masks(1)[OF shape_length[of "cl_head cl1" _ _ j] field_idx_less idx_in_field_less] spec
      offset_decomposition[of tid] by (auto simp: fi_def)
  have same: "fin_in (cl_head cl1) hs = fin_in (cl_head cl) hs" "cl_head_start cl2 = hs"
    "cl_oldest_active cl2 = cl_oldest_active cl"
    using spec by (auto simp: cl2_def)
  have sh1: "shape (cl_head cl1) hs (cl_next_start cl1)" and j: "j < length (cl_head cl1)"
    using spec by auto
  have fin2: "finished cl2 = fin_in (cl_head cl) (cl_head_start cl2) \<union> {tid}"
    using fin_in_upd_interval[where f = "or_field fi (push_bit (tid mod kIdsInField) 1)",
        OF sh1 j _ block] same spec id_decomposition[OF dvd, of tid] assms(2)
    by (auto simp: finished_def cl2_def hs_def Suc_le_eq)
  have sh2: "shape (cl_head cl2) (cl_head_start cl2) (cl_next_start cl2)"
    using shape_upd_block[OF sh1 j] same by (simp add: cl2_def)
  have ne: "cl_head cl2 \<noteq> []"
    using j by (auto simp: cl2_def upd_block_def)
  have "MarkFinished tid cl = (if tid = cl_oldest_active cl2 then UpdateOldestActive cl2 else cl2)"
    using f by (simp add: MarkFinished_def cl2_def fi_def Let_def)
  moreover have "cached (cl_head cl) (cl_head_start cl2) (cl_oldest_active cl2)"
    using inv(2) same by simp
  moreover have "tid = cl_oldest_active cl2 \<longleftrightarrow> cl_oldest_active cl2 \<in> {tid}"
    by auto
  ultimately show ?thesis
    using mark_then_update[OF sh2 ne _ fin2] same by (simp add: finished_def hs_def)
qed

section \<open>Marking a range\<close>

text \<open>The updates of a range, on a well-shaped block list.\<close>

lemma fin_in_range_updates:
  assumes "shape bs hs ns" and "j < length bs" and "i < kBlockSize"
  shows "fin_in (upd_block j (or_field i (push_bit s (-1))) bs) hs = fin_in bs hs \<union>
      {hs + j * kIdsInBlock + (i * kIdsInField + s)..<hs + j * kIdsInBlock + (i + 1) * kIdsInField}"
    and "e \<le> kIdsInField \<Longrightarrow> fin_in (upd_block j (or_field i (push_bit e 1 - 1)) bs) hs =
      fin_in bs hs \<union>
      {hs + j * kIdsInBlock + i * kIdsInField..<hs + j * kIdsInBlock + (i * kIdsInField + e)}"
    and "s + n \<le> kIdsInField \<Longrightarrow>
      fin_in (upd_block j (or_field i (push_bit s (push_bit n 1 - 1))) bs) hs = fin_in bs hs \<union>
      {hs + j * kIdsInBlock + (i * kIdsInField + s)..<hs + j * kIdsInBlock + (i * kIdsInField + (s + n))}"
    and "fin_in (upd_block j (\<lambda>b. b[i := -1]) bs) hs = fin_in bs hs \<union>
      {hs + j * kIdsInBlock + i * kIdsInField..<hs + j * kIdsInBlock + (i + 1) * kIdsInField}"
proof -
  have len: "length (bs ! j) = kBlockSize"
    by (rule shape_length[OF assms(1,2)])
  have field: "i * kIdsInField + e \<le> kIdsInBlock" if "e \<le> kIdsInField" for e
  proof -
    have "i * kIdsInField + e \<le> (i + 1) * kIdsInField"
      using that by simp
    also have "\<dots> \<le> kIdsInBlock"
      using assms(3) unfolding kIdsInBlock_def by (intro mult_le_mono1) simp
    finally show ?thesis .
  qed
  note upd = fin_in_upd_interval[OF assms(1,2)]
  show "fin_in (upd_block j (or_field i (push_bit s (-1))) bs) hs = fin_in bs hs \<union>
      {hs + j * kIdsInBlock + (i * kIdsInField + s)..<hs + j * kIdsInBlock + (i + 1) * kIdsInField}"
    using upd[where f = "or_field i (push_bit s (-1))", OF field blk_ids_masks(2)[OF len assms(3)]]
    by (simp add: algebra_simps)
  show "e \<le> kIdsInField \<Longrightarrow> fin_in (upd_block j (or_field i (push_bit e 1 - 1)) bs) hs =
      fin_in bs hs \<union>
      {hs + j * kIdsInBlock + i * kIdsInField..<hs + j * kIdsInBlock + (i * kIdsInField + e)}"
    using upd[where f = "or_field i (push_bit e 1 - 1)", OF field blk_ids_masks(3)[OF len assms(3)]]
    by (simp only: add_0_right)
  show "s + n \<le> kIdsInField \<Longrightarrow>
      fin_in (upd_block j (or_field i (push_bit s (push_bit n 1 - 1))) bs) hs = fin_in bs hs \<union>
      {hs + j * kIdsInBlock + (i * kIdsInField + s)..<hs + j * kIdsInBlock + (i * kIdsInField + (s + n))}"
    by (rule upd[where f = "or_field i (push_bit s (push_bit n 1 - 1))",
          OF field blk_ids_masks(4)[OF len assms(3)]])
  show "fin_in (upd_block j (\<lambda>b. b[i := -1]) bs) hs = fin_in bs hs \<union>
      {hs + j * kIdsInBlock + i * kIdsInField..<hs + j * kIdsInBlock + (i + 1) * kIdsInField}"
    using upd[where f = "\<lambda>b. b[i := -1]", OF field blk_ids_masks(5)[OF len assms(3)]]
    by (simp add: algebra_simps)
qed

lemma fin_in_range_fill:
  assumes "shape bs hs ns" and "j < length bs" and "hi \<le> kBlockSize"
  shows "fin_in (upd_block j (fill_fields lo hi) bs) hs = fin_in bs hs \<union>
    {hs + j * kIdsInBlock + lo * kIdsInField..<hs + j * kIdsInBlock + hi * kIdsInField}"
proof -
  have "hi * kIdsInField \<le> kIdsInBlock"
    unfolding kIdsInBlock_def by (rule mult_le_mono1[OF assms(3)])
  then show ?thesis
    by (rule fin_in_upd_interval[OF assms(1,2)])
      (rule blk_ids_fill_interval[OF shape_length[OF assms(1,2)] assms(3)])
qed

lemma shape_updates:
  assumes "shape bs hs ns" and "j < length bs"
  shows "shape (upd_block j (or_field i m) bs) hs ns"
    and "shape (upd_block j (fill_fields lo hi) bs) hs ns"
    and "shape (upd_block j (\<lambda>b. b[i := -1]) bs) hs ns"
  using assms by (auto intro!: shape_upd_block)

lemma ivl_union: "a \<le> b \<Longrightarrow> b \<le> c \<Longrightarrow> {a..<b} \<union> {b..<c} = {a..<(c::nat)}"
  by auto

text \<open>The last field of a range, whichever of the two branches marks it.\<close>

definition mark_last :: "nat \<Rightarrow> nat \<Rightarrow> block list \<Rightarrow> block list" where
  "mark_last end_id end_block bs =
    (if end_id mod kIdsInField + 1 = kIdsInField
     then upd_block end_block (\<lambda>b. b[(end_id mod kIdsInBlock) div kIdsInField := -1]) bs
     else upd_block end_block (or_field ((end_id mod kIdsInBlock) div kIdsInField)
            (push_bit (end_id mod kIdsInField + 1) 1 - 1)) bs)"

lemma mark_last_spec:
  assumes "shape bs hs ns" and "j < length bs"
  shows "shape (mark_last end_id j bs) hs ns \<and> length (mark_last end_id j bs) = length bs \<and>
    fin_in (mark_last end_id j bs) hs = fin_in bs hs \<union>
      {hs + j * kIdsInBlock + (end_id mod kIdsInBlock) div kIdsInField * kIdsInField..<
       hs + j * kIdsInBlock + end_id mod kIdsInBlock + 1}"
proof (cases "end_id mod kIdsInField + 1 = kIdsInField")
  case True
  then have "((end_id mod kIdsInBlock) div kIdsInField + 1) * kIdsInField = end_id mod kIdsInBlock + 1"
    using offset_decomposition[of end_id] by simp
  then show ?thesis
    using fin_in_range_updates(4)[OF assms field_idx_less, of end_id] shape_updates(3)[OF assms] True
    unfolding mark_last_def by (simp only: if_True length_upd_block add.assoc simp_thms)
next
  case False
  have "end_id mod kIdsInField + 1 \<le> kIdsInField"
    by (simp add: Suc_le_eq)
  then show ?thesis
    using fin_in_range_updates(2)[OF assms field_idx_less, of "end_id mod kIdsInField + 1" end_id] False
      shape_updates(1)[OF assms] offset_decomposition[of end_id]
    by (simp add: mark_last_def ac_simps)
qed

lemma MarkRange_one_block:
  assumes "shape bs hs ns" and "j < length bs" and "start_id mod kIdsInBlock \<le> end_id mod kIdsInBlock"
  shows "\<exists>bs'. MarkRange_fields start_id end_id j j bs = Inr bs' \<and> shape bs' hs ns \<and>
    length bs' = length bs \<and> fin_in bs' hs = fin_in bs hs \<union>
      {hs + j * kIdsInBlock + start_id mod kIdsInBlock..<hs + j * kIdsInBlock + end_id mod kIdsInBlock + 1}"
proof -
  define sf where "sf = (start_id mod kIdsInBlock) div kIdsInField"
  define ef where "ef = (end_id mod kIdsInBlock) div kIdsInField"
  define si where "si = start_id mod kIdsInField"
  define ei where "ei = end_id mod kIdsInField"
  define base where "base = hs + j * kIdsInBlock"
  have st: "start_id mod kIdsInBlock = sf * kIdsInField + si" and en: "end_id mod kIdsInBlock = ef * kIdsInField + ei"
    using offset_decomposition[of start_id] offset_decomposition[of end_id]
    by (simp_all add: sf_def ef_def si_def ei_def)
  have lt: "sf < kBlockSize" "ef < kBlockSize" "si < kIdsInField" "ei < kIdsInField"
    by (simp_all add: sf_def ef_def si_def ei_def field_idx_less)
  have le: "sf \<le> ef"
    unfolding sf_def ef_def by (rule div_le_mono[OF assms(3)])
  show ?thesis
  proof (cases "sf = ef")
    case True
    have "si \<le> ei"
      using assms(3) st en True by simp
    define n where "n = ei + 1 - si"
    have n: "si + n = ei + 1" "si + n \<le> kIdsInField"
      using \<open>si \<le> ei\<close> lt by (auto simp: n_def)
    show ?thesis
    proof (cases "n = kIdsInField")
      case full: True
      then have "si = 0" and "ei + 1 = kIdsInField"
        using n by auto
      then have "(sf + 1) * kIdsInField = end_id mod kIdsInBlock + 1" "start_id mod kIdsInBlock = sf * kIdsInField"
        using st en True by simp_all
      moreover have "MarkRange_fields start_id end_id j j bs = Inr (upd_block j (\<lambda>b. b[sf := -1]) bs)"
        using True full \<open>si \<le> ei\<close> by (simp add: MarkRange_fields_def sf_def[symmetric] ef_def[symmetric]
            si_def[symmetric] ei_def[symmetric] n_def Let_def)
      ultimately show ?thesis
        using fin_in_range_updates(4)[OF assms(1,2) lt(1)] shape_updates(3)[OF assms(1,2)]
        by (simp add: add.assoc del: One_nat_def)
    next
      case False
      have "MarkRange_fields start_id end_id j j bs =
          Inr (upd_block j (or_field sf (push_bit si (push_bit n 1 - 1))) bs)"
        using True False \<open>si \<le> ei\<close> by (simp add: MarkRange_fields_def sf_def[symmetric]
            ef_def[symmetric] si_def[symmetric] ei_def[symmetric] n_def Let_def)
      then show ?thesis
        using fin_in_range_updates(3)[OF assms(1,2) lt(1) n(2)] shape_updates(1)[OF assms(1,2)] st en n(1) True
        by (simp add: add.assoc)
    qed
  next
    case False
    define bs1 where "bs1 = upd_block j (or_field sf (push_bit si (-1))) bs"
    define bs2 where "bs2 = upd_block j (fill_fields (sf + 1) ef) bs1"
    have sh1: "shape bs1 hs ns" and sh2: "shape bs2 hs ns" and len: "j < length bs1" "j < length bs2" "length bs2 = length bs"
      using shape_updates[OF assms(1,2)] shape_updates(2)[of bs1 hs ns j] assms(2)
      by (auto simp: bs1_def bs2_def)
    have run: "MarkRange_fields start_id end_id j j bs = Inr (mark_last end_id j bs2)"
      using False by (simp add: MarkRange_fields_def mark_last_def Let_def bs1_def bs2_def sf_def ef_def si_def)
    have "(sf + 1) * kIdsInField \<le> ef * kIdsInField"
      using le False by (intro mult_le_mono1) simp
    moreover have "sf * kIdsInField + si \<le> (sf + 1) * kIdsInField"
      using lt by simp
    ultimately have "{base + (sf * kIdsInField + si)..<base + (sf + 1) * kIdsInField} \<union>
      {base + (sf + 1) * kIdsInField..<base + ef * kIdsInField} \<union>
      {base + ef * kIdsInField..<base + end_id mod kIdsInBlock + 1} =
      {base + start_id mod kIdsInBlock..<base + end_id mod kIdsInBlock + 1}"
      using st en by (subst ivl_union; (subst ivl_union)?; simp)
    then show ?thesis
      using run mark_last_spec[OF sh2 len(2), of end_id, folded ef_def base_def] len(3)
        fin_in_range_fill[OF sh1 len(1) less_imp_le[OF lt(2)], of "sf + 1", folded bs2_def base_def]
        fin_in_range_updates(1)[OF assms(1,2) lt(1), of si, folded bs1_def base_def]
      unfolding base_def[symmetric] by (simp add: Un_assoc)
  qed
qed

lemma MarkBlocks_loop_steps:
  "\<not> cs + kIdsInBlock < end_id \<Longrightarrow> MarkBlocks_loop end_id current cs bs = Inr (current, bs)"
  "cs + kIdsInBlock < end_id \<Longrightarrow> current < length bs \<Longrightarrow> MarkBlocks_loop end_id current cs bs =
    MarkBlocks_loop end_id (current + 1) (cs + kIdsInBlock)
      (upd_block current (fill_fields 0 kBlockSize) bs)"
  by (subst MarkBlocks_loop.simps; simp)+

text \<open>The intermediate blocks: the loop reaches the last block unless the range
  ends on the first id of a block that is not the next one.\<close>

lemma MarkBlocks_loop_spec:
  assumes "shape bs hs ns" and "j < length bs" and "current \<le> j" and "cs = hs + current * kIdsInBlock"
    and "end_id = hs + j * kIdsInBlock + r" and "r < kIdsInBlock" and "0 < r \<or> current = j"
  shows "\<exists>bs'. MarkBlocks_loop end_id current cs bs = Inr (j, bs') \<and> shape bs' hs ns \<and>
    length bs' = length bs \<and>
    fin_in bs' hs = fin_in bs hs \<union> {cs..<hs + j * kIdsInBlock}"
  using assms
proof (induction end_id current cs bs rule: MarkBlocks_loop.induct)
  case (1 end_id current cs bs)
  show ?case
  proof (cases "current = j")
    case True
    then show ?thesis
      using 1(2-) MarkBlocks_loop_steps(1)[of cs end_id current bs] by simp
  next
    case False
    then have lt: "current < j" "0 < r" "current < length bs"
      using 1(3,4,8) by auto
    have "(current + 1) * kIdsInBlock \<le> j * kIdsInBlock"
      using lt(1) by (intro mult_le_mono1) simp
    then have le: "cs + kIdsInBlock \<le> hs + j * kIdsInBlock" and go: "cs + kIdsInBlock < end_id"
      using 1(5,6) lt(2) by simp_all
    define bs1 where "bs1 = upd_block current (fill_fields 0 kBlockSize) bs"
    have sh1: "shape bs1 hs ns" and len1: "length bs1 = length bs"
      using shape_updates(2)[OF 1(2) lt(3)] by (simp_all add: bs1_def)
    have fin1: "fin_in bs1 hs = fin_in bs hs \<union> {cs..<cs + kIdsInBlock}"
      using fin_in_range_fill[OF 1(2) lt(3) order_refl, of 0] 1(5)
      by (simp add: bs1_def kIdsInBlock_def)
    obtain bs' where "MarkBlocks_loop end_id (current + 1) (cs + kIdsInBlock) bs1 = Inr (j, bs')"
      "shape bs' hs ns" "length bs' = length bs"
      "fin_in bs' hs = fin_in bs1 hs \<union> {cs + kIdsInBlock..<hs + j * kIdsInBlock}"
      using 1(1)[OF go lt(3), folded bs1_def, OF sh1] lt 1(3,5-) len1 by auto
    moreover have "{cs..<cs + kIdsInBlock} \<union> {cs + kIdsInBlock..<hs + j * kIdsInBlock} = {cs..<hs + j * kIdsInBlock}"
      using le by (intro ivl_union) auto
    ultimately show ?thesis
      using MarkBlocks_loop_steps(2)[OF go lt(3)] fin1 by (simp add: bs1_def Un_assoc)
  qed
qed

lemma MarkRange_many_blocks:
  assumes "shape bs hs ns" and "hs \<le> start_id" and "start_id \<le> end_id"
    and "j1 = (start_id - hs) div kIdsInBlock" and "j2 = (end_id - hs) div kIdsInBlock"
    and "j1 < j2" and "j2 < length bs" and "end_id mod kIdsInBlock \<noteq> 0 \<or> j2 = j1 + 1"
  shows "\<exists>bs'. MarkRange_fields start_id end_id j1 j2 bs = Inr bs' \<and> shape bs' hs ns \<and>
    length bs' = length bs \<and> fin_in bs' hs = fin_in bs hs \<union> {start_id..<end_id + 1}"
proof -
  define sf where "sf = (start_id mod kIdsInBlock) div kIdsInField"
  define ef where "ef = (end_id mod kIdsInBlock) div kIdsInField"
  define si where "si = start_id mod kIdsInField"
  define b1 where "b1 = hs + j1 * kIdsInBlock"
  define b2 where "b2 = hs + j2 * kIdsInBlock"
  have dvd: "kIdsInBlock dvd hs"
    using assms(1) by (simp add: shape_def)
  have st: "start_id = b1 + (sf * kIdsInField + si)" and en: "end_id = b2 + end_id mod kIdsInBlock"
    using id_decomposition[OF dvd assms(2)] id_decomposition[OF dvd, of end_id]
      offset_decomposition[of start_id] assms(2-5) by (simp_all add: b1_def b2_def sf_def si_def)
  have lt: "sf < kBlockSize" "ef < kBlockSize" "si < kIdsInField" "j1 < length bs"
    using assms(6,7) by (simp_all add: sf_def ef_def si_def field_idx_less)
  define bs1 where "bs1 = upd_block j1 (or_field sf (push_bit si (-1))) bs"
  define bs2 where "bs2 = upd_block j1 (fill_fields (sf + 1) kBlockSize) bs1"
  have sh1: "shape bs1 hs ns" and sh2: "shape bs2 hs ns" and len2: "length bs2 = length bs"
    using shape_updates[OF assms(1) lt(4)] shape_updates(2)[of bs1 hs ns j1] lt(4)
    by (auto simp: bs1_def bs2_def)
  have fin2: "fin_in bs2 hs = fin_in bs hs \<union> {start_id..<b1 + kIdsInBlock}"
  proof -
    have "sf * kIdsInField + si \<le> (sf + 1) * kIdsInField" "(sf + 1) * kIdsInField \<le> kIdsInBlock"
      using lt(1,3) unfolding kIdsInBlock_def by (simp, intro mult_le_mono1) simp
    then have "{start_id..<b1 + (sf + 1) * kIdsInField} \<union> {b1 + (sf + 1) * kIdsInField..<b1 + kIdsInBlock} =
        {start_id..<b1 + kIdsInBlock}"
      using st by (intro ivl_union) auto
    moreover have "j1 < length bs1"
      using lt(4) by (simp add: bs1_def)
    ultimately show ?thesis
      using fin_in_range_fill[OF sh1 _ order_refl, of j1 "sf + 1", folded bs2_def b1_def kIdsInBlock_def]
        fin_in_range_updates(1)[OF assms(1) lt(4,1), of si, folded bs1_def b1_def, folded st]
      by (simp only: Un_assoc simp_thms)
  qed
  have cs: "(start_id div kIdsInBlock + 1) * kIdsInBlock = b1 + kIdsInBlock"
    using dvd assms(2,4) by (auto elim!: dvdE simp: b1_def le_iff_add algebra_simps)
  have "\<exists>bs3. MarkBlocks_loop end_id (j1 + 1) (b1 + kIdsInBlock) bs2 = Inr (j2, bs3) \<and>
      shape bs3 hs ns \<and> length bs3 = length bs2 \<and>
      fin_in bs3 hs = fin_in bs2 hs \<union> {b1 + kIdsInBlock..<hs + j2 * kIdsInBlock}"
    by (rule MarkBlocks_loop_spec[OF sh2, where r = "end_id mod kIdsInBlock"])
      (use assms(6-8) len2 en in \<open>auto simp: b1_def b2_def\<close>)
  then obtain bs3 where bs3: "MarkBlocks_loop end_id (j1 + 1) (b1 + kIdsInBlock) bs2 = Inr (j2, bs3)"
      "shape bs3 hs ns" "length bs3 = length bs"
      "fin_in bs3 hs = fin_in bs2 hs \<union> {b1 + kIdsInBlock..<b2}"
    using len2 by (auto simp: b2_def)
  define bs4 where "bs4 = upd_block j2 (fill_fields 0 ef) bs3"
  have sh4: "shape bs4 hs ns" and len4: "j2 < length bs4" "length bs4 = length bs"
    using shape_updates(2)[OF bs3(2)] bs3(3) assms(7) by (auto simp: bs4_def)
  have run: "MarkRange_fields start_id end_id j1 j2 bs = Inr (mark_last end_id j2 bs4)"
    using assms(6) bs3(1)[unfolded bs2_def bs1_def] cs unfolding MarkRange_fields_def
    by (simp add: Let_def mark_last_def sf_def[symmetric] si_def[symmetric] ef_def[symmetric]
        bs4_def del: add_mult_distrib mult_Suc)
  have "(j1 + 1) * kIdsInBlock \<le> j2 * kIdsInBlock"
    using assms(6) by (intro mult_le_mono1) simp
  moreover have "start_id = b1 + start_id mod kIdsInBlock"
    using id_decomposition[OF dvd assms(2)] assms(4) by (simp add: b1_def)
  moreover have "start_id mod kIdsInBlock < kIdsInBlock"
    by simp
  ultimately have ends: "start_id \<le> b1 + kIdsInBlock" "b1 + kIdsInBlock \<le> b2"
    by (linarith, simp add: b1_def b2_def)
  have "ef * kIdsInField \<le> end_id mod kIdsInBlock"
    by (simp add: ef_def)
  then have "{start_id..<b1 + kIdsInBlock} \<union> {b1 + kIdsInBlock..<b2} \<union> {b2..<b2 + ef * kIdsInField} \<union>
    {b2 + ef * kIdsInField..<end_id + 1} = {start_id..<end_id + 1}"
    using ends en by (subst ivl_union | simp)+
  then show ?thesis
    using run mark_last_spec[OF sh4 len4(1), of end_id] fin_in_range_fill[OF bs3(2), of j2 ef 0]
      bs3(3,4) assms(7) lt(2) fin2 len4(2) en
    by (simp add: ef_def[symmetric] b2_def[symmetric] bs4_def[symmetric] Un_assoc)
qed

text \<open>The precondition under which a range does not run into the assertion:
  the last id is not the first of a block two or more blocks after the first one.\<close>

definition range_ok :: "nat \<Rightarrow> nat \<Rightarrow> bool" where
  "range_ok start_id end_id \<longleftrightarrow>
     end_id mod kIdsInBlock \<noteq> 0 \<or> end_id div kIdsInBlock \<le> start_id div kIdsInBlock + 1"

lemma div_shift:
  "kIdsInBlock dvd hs \<Longrightarrow> hs \<le> tid \<Longrightarrow>
   tid div kIdsInBlock = hs div kIdsInBlock + (tid - hs) div kIdsInBlock"
  by (auto elim!: dvdE simp: le_iff_add)

lemma MarkRange_fields_spec:
  assumes "shape bs hs ns" and "hs \<le> start_id" and "start_id \<le> end_id" and "range_ok start_id end_id"
    and "(end_id - hs) div kIdsInBlock < length bs"
  shows "\<exists>bs'. MarkRange_fields start_id end_id ((start_id - hs) div kIdsInBlock)
      ((end_id - hs) div kIdsInBlock) bs = Inr bs' \<and> shape bs' hs ns \<and>
    length bs' = length bs \<and> fin_in bs' hs = fin_in bs hs \<union> {start_id..<end_id + 1}"
proof -
  define j1 where "j1 = (start_id - hs) div kIdsInBlock"
  define j2 where "j2 = (end_id - hs) div kIdsInBlock"
  have dvd: "kIdsInBlock dvd hs"
    using assms(1) by (simp add: shape_def)
  have st: "hs + j1 * kIdsInBlock + start_id mod kIdsInBlock = start_id"
    and en: "hs + j2 * kIdsInBlock + end_id mod kIdsInBlock = end_id"
    using id_decomposition[OF dvd] assms(2,3) by (simp_all add: j1_def j2_def)
  have le: "j1 \<le> j2"
    unfolding j1_def j2_def using assms(3) by (intro div_le_mono) simp
  have j: "j1 < length bs" "j2 < length bs"
    using le assms(5) by (auto simp: j2_def)
  show ?thesis
  proof (cases "j1 = j2")
    case True
    have "start_id mod kIdsInBlock \<le> end_id mod kIdsInBlock"
      using st en assms(3) True by (metis nat_add_left_cancel_le)
    from MarkRange_one_block[OF assms(1) j(2) this] show ?thesis
      using st en True unfolding j1_def[symmetric] j2_def[symmetric] by simp
  next
    case False
    have "j2 = j1 + 1" if "end_id mod kIdsInBlock = 0"
    proof -
      have "end_id div kIdsInBlock = hs div kIdsInBlock + j2" "start_id div kIdsInBlock = hs div kIdsInBlock + j1"
        unfolding j1_def j2_def
        by (rule div_shift[OF dvd order_trans[OF assms(2,3)]], rule div_shift[OF dvd assms(2)])
      then show ?thesis
        using assms(4) that le False by (simp add: range_ok_def)
    qed
    then have "end_id mod kIdsInBlock \<noteq> 0 \<or> j2 = j1 + 1"
      by blast
    then show ?thesis
      using MarkRange_many_blocks[OF assms(1,2,3) j1_def j2_def _ j(2)] le False
      unfolding j1_def[symmetric] j2_def[symmetric] by simp
  qed
qed

lemma MarkFinishedInRange_spec:
  assumes "cl_inv cl" and "cl_head_start cl \<le> start_id" and "start_id \<le> end_id"
    and "range_ok start_id end_id"
  shows "\<exists>cl'. MarkFinishedInRange start_id end_id cl = Inr cl' \<and> cl_inv cl' \<and>
    finished cl' = finished cl \<union> {start_id..end_id}"
proof -
  define hs where "hs = cl_head_start cl"
  obtain j2 cl1 where f1: "FindOrCreateBlock end_id cl = (j2, cl1)"
    by fastforce
  obtain j1 cl2 where f2: "FindOrCreateBlock start_id cl1 = (j1, cl2)"
    by fastforce
  have inv: "shape (cl_head cl) hs (cl_next_start cl)" "cached (cl_head cl) hs (cl_oldest_active cl)"
    using assms(1) by (simp_all add: cl_inv_def hs_def)
  note s1 = FindOrCreateBlock_spec[OF f1, folded hs_def, OF inv(1)]
  then have "shape (cl_head cl1) (cl_head_start cl1) (cl_next_start cl1)"
    by blast
  note s2 = FindOrCreateBlock_spec[OF f2 this]
  have hs2: "cl_head_start cl2 = hs" and oa2: "cl_oldest_active cl2 = cl_oldest_active cl"
    using s1 s2 by simp_all
  have sh2: "shape (cl_head cl2) hs (cl_next_start cl2)" and j1: "j1 = (start_id - hs) div kIdsInBlock"
    and j2: "j2 = (end_id - hs) div kIdsInBlock" "j2 < length (cl_head cl2)"
    using s1 s2 hs2 by auto
  have fin2: "fin_in (cl_head cl2) hs = fin_in (cl_head cl) hs"
    using s1 s2 fin_in_append_new by metis
  obtain bs' where bs': "MarkRange_fields start_id end_id j1 j2 (cl_head cl2) = Inr bs'"
    "shape bs' hs (cl_next_start cl2)" "length bs' = length (cl_head cl2)"
    "fin_in bs' hs = fin_in (cl_head cl2) hs \<union> {start_id..<end_id + 1}"
    using MarkRange_fields_spec[OF sh2 _ assms(3,4)] assms(2) j1 j2 by (auto simp: hs_def)
  define cl3 where "cl3 = cl2\<lparr>cl_head := bs'\<rparr>"
  have run: "MarkFinishedInRange start_id end_id cl = Inr
      (if start_id \<le> cl_oldest_active cl3 \<and> cl_oldest_active cl3 \<le> end_id
       then UpdateOldestActive cl3 else cl3)"
    using f1 f2 bs'(1) assms(3) by (simp add: MarkFinishedInRange_def cl3_def Let_def)
  have "cl_head cl3 \<noteq> []"
    using bs'(3) j2(2) by (auto simp: cl3_def)
  then show ?thesis
    using mark_then_update[of cl3 "cl_head cl" "{start_id..end_id}"
        "start_id \<le> cl_oldest_active cl3 \<and> cl_oldest_active cl3 \<le> end_id"]
      run bs'(2,4) hs2 oa2 inv(2) fin2
    by (simp add: cl3_def finished_def hs_def atLeastLessThanSuc_atLeastAtMost)
qed

section \<open>Construction\<close>

lemma cl_inv_oldest:
  assumes "cl_inv cl"
  shows "OldestActive cl = (LEAST i. i \<notin> finished cl)" and "OldestActive cl \<notin> finished cl"
    and "i < OldestActive cl \<Longrightarrow> i \<in> finished cl"
proof -
  show "OldestActive cl \<notin> finished cl" and "i < OldestActive cl \<Longrightarrow> i \<in> finished cl" for i
    using assms by (auto simp: cl_inv_def cached_def finished_def OldestActive_def)
  then show "OldestActive cl = (LEAST i. i \<notin> finished cl)"
    by (intro Least_compl_eqI[symmetric]) auto
qed

lemma CommitLog_new_inv: "cl_inv CommitLog_new" and CommitLog_new_finished: "finished CommitLog_new = {}"
  by (auto simp: cl_inv_def CommitLog_new_def finished_def cached_def shape_def)

lemma shape_single: "shape [new_block] (k * kIdsInBlock) (k * kIdsInBlock + kIdsInBlock)"
  by (simp add: shape_def)

lemma fin_in_single: "fin_in [new_block] hs = {..<hs}"
  using fin_in_append_new[of "[]" 1 hs] by simp

lemma CommitLog_from_spec:
  "\<exists>cl. CommitLog_from n = Inr cl \<and> cl_inv cl \<and> finished cl = {..<n}"
proof (cases "n = 0")
  case True
  have "shape [new_block] 0 kIdsInBlock" "cached [new_block] 0 0"
    using shape_single[of 0] fin_in_single[of 0] by (auto simp: cached_def)
  then show ?thesis
    using True by (simp add: CommitLog_from_def CommitLog_new_def cl_inv_def finished_def fin_in_single)
next
  case False
  define l where "l = n - 1"
  define hs where "hs = l div kIdsInBlock * kIdsInBlock"
  define cl0 where "cl0 = CommitLog_new\<lparr>cl_head := [new_block], cl_head_start := hs,
    cl_next_start := hs + kIdsInBlock\<rparr>"
  have n: "n = l + 1" and l: "l = hs + l mod kIdsInBlock"
    using False by (simp_all add: l_def hs_def)
  have sh: "shape [new_block] hs (hs + kIdsInBlock)"
    unfolding hs_def by (rule shape_single)
  have "l < hs + kIdsInBlock"
    using l mod_less_divisor[OF kIdsInBlock_pos, of l] by linarith
  then have find: "FindOrCreateBlock l cl0 = (0, cl0)" "FindOrCreateBlock 0 cl0 = (0, cl0)"
    by (simp_all add: FindOrCreateBlock_def cl0_def CommitLog_new_def FindOrCreateBlock_loop_steps(1))
  obtain bs' where bs': "MarkRange_fields 0 l 0 0 [new_block] = Inr bs'"
    "shape bs' hs (hs + kIdsInBlock)" "length bs' = 1"
    "fin_in bs' hs = {..<hs} \<union> {hs..<hs + l mod kIdsInBlock + 1}"
    using MarkRange_one_block[OF sh, of 0 0 l] by (auto simp: fin_in_single)
  define cl1 where "cl1 = cl0\<lparr>cl_head := bs'\<rparr>"
  have "CommitLog_from n = MarkFinishedInRange 0 l cl0"
    using False by (simp add: CommitLog_from_def cl0_def hs_def l_def Let_def)
  moreover have "cl_head cl0 = [new_block]" "cl_oldest_active cl0 = 0"
    by (simp_all add: cl0_def CommitLog_new_def)
  ultimately have "CommitLog_from n = Inr (UpdateOldestActive cl1)"
    using find bs'(1) by (simp add: MarkFinishedInRange_def cl1_def Let_def)
  moreover have "finished cl1 = {..<n}"
  proof -
    have eq: "hs + l mod kIdsInBlock + 1 = n"
      using l n by linarith
    have "fin_in bs' hs = {..<hs} \<union> {hs..<n}"
      using bs'(4) unfolding eq .
    moreover have "hs \<le> n"
      using eq by linarith
    ultimately show ?thesis
      by (simp add: finished_def cl1_def cl0_def ivl_disj_un)
  qed
  moreover have "cl_inv (UpdateOldestActive cl1) \<and> finished (UpdateOldestActive cl1) = finished cl1"
  proof (rule UpdateOldestActive_spec)
    show "cl_head cl1 \<noteq> []"
      using bs'(3) by (auto simp: cl1_def)
  qed (simp_all add: cl1_def cl0_def CommitLog_new_def bs'(2))
  ultimately show ?thesis
    by simp
qed

section \<open>The interface of the commit log\<close>

text \<open>What the transaction engine and the garbage collector rely on: marking an
  unfinished id adds exactly that id, and the oldest active id is the least one that
  is not finished.\<close>

locale finished_ids =
  fixes inv :: "'s \<Rightarrow> bool" and fin :: "'s \<Rightarrow> nat set" and mark :: "nat \<Rightarrow> 's \<Rightarrow> 's"
    and oldest :: "'s \<Rightarrow> nat" and is_fin :: "nat \<Rightarrow> 's \<Rightarrow> bool"
  assumes mark_inv: "inv s \<Longrightarrow> i \<notin> fin s \<Longrightarrow> inv (mark i s)"
    and mark_fin: "inv s \<Longrightarrow> i \<notin> fin s \<Longrightarrow> fin (mark i s) = insert i (fin s)"
    and oldest_free: "inv s \<Longrightarrow> oldest s \<notin> fin s"
    and below_oldest: "inv s \<Longrightarrow> i < oldest s \<Longrightarrow> i \<in> fin s"
    and is_fin_iff: "inv s \<Longrightarrow> oldest s \<le> i \<Longrightarrow> is_fin i s \<longleftrightarrow> i \<in> fin s"
begin

lemma fold_mark:
  assumes "inv s" and "distinct ids" and "set ids \<inter> fin s = {}"
  shows "inv (fold mark ids s) \<and> fin (fold mark ids s) = set ids \<union> fin s"
  using assms
proof (induction ids arbitrary: s)
  case (Cons i ids)
  then show ?case
    using Cons.IH[of "mark i s"] by (auto simp: mark_inv mark_fin)
qed simp

lemma oldest_is_least: "inv s \<Longrightarrow> oldest s = (LEAST i. i \<notin> fin s)"
  by (rule Least_compl_eqI[symmetric, OF oldest_free below_oldest])

lemma oldest_after_marks:
  assumes "inv s" and "distinct ids" and "set ids \<inter> fin s = {}"
  shows "oldest (fold mark ids s) = (LEAST i. i \<notin> set ids \<union> fin s)"
  using fold_mark[OF assms] oldest_is_least[of "fold mark ids s"] by simp

text \<open>Finishing more transactions never moves the oldest active id backwards.\<close>

lemma oldest_mono:
  assumes "inv s" and "i \<notin> fin s"
  shows "oldest s \<le> oldest (mark i s)"
proof (rule ccontr)
  assume "\<not> ?thesis"
  then have "oldest (mark i s) \<in> fin s"
    using assms(1) below_oldest by auto
  then show False
    using assms oldest_free[OF mark_inv[OF assms]] mark_fin by auto
qed

end

lemma unfinished_ge_head: "tid \<notin> finished cl \<Longrightarrow> cl_head_start cl \<le> tid"
  by (auto simp: finished_def fin_in_def)

interpretation cl: finished_ids cl_inv finished MarkFinished OldestActive IsFinished
proof (unfold_locales, goal_cases)
  case (1 s i)
  then show ?case
    using MarkFinished_spec[OF 1(1) unfinished_ge_head[OF 1(2)]] by simp
next
  case (2 s i)
  then show ?case
    using MarkFinished_spec[OF 2(1) unfinished_ge_head[OF 2(2)]] by simp
next
  case (3 s)
  then show ?case
    by (rule cl_inv_oldest(2))
next
  case (4 s i)
  then show ?case
    by (rule cl_inv_oldest(3))
next
  case (5 s i)
  then have "cl_head_start s \<le> OldestActive s"
    by (intro unfinished_ge_head cl_inv_oldest(2))
  then show ?case
    using 5 by (auto simp: finished_def fin_in_def IsFinished_def)
qed

section \<open>Properties\<close>





text \<open>C28: A log constructed for an oldest active id has exactly the smaller ids finished
  and reports that id.\<close>

theorem CommitLog_from_oldest:
  "\<exists>cl. CommitLog_from n = Inr cl \<and> cl_inv cl \<and> finished cl = {..<n} \<and> OldestActive cl = n"
proof -
  obtain cl where "CommitLog_from n = Inr cl" "cl_inv cl" "finished cl = {..<n}"
    using CommitLog_from_spec by blast
  moreover have "(LEAST i. i \<notin> {..<n}) = n"
    by (rule Least_compl_eqI) auto
  ultimately show ?thesis
    using cl.oldest_is_least by auto
qed

lemma MarkBlocks_loop_aligned_end:
  assumes "current < j" and "j \<le> length bs" and "cs = hs + current * kIdsInBlock"
  shows "\<exists>bs'. MarkBlocks_loop (hs + j * kIdsInBlock) current cs bs = Inr (j - 1, bs')"
  using assms
proof (induction "hs + j * kIdsInBlock" current cs bs rule: MarkBlocks_loop.induct)
  case (1 current cs bs)
  show ?case
  proof (cases "current + 1 = j")
    case True
    then have "\<not> cs + kIdsInBlock < hs + j * kIdsInBlock"
      using 1(4) by auto
    then show ?thesis
      using True MarkBlocks_loop_steps(1) by fastforce
  next
    case False
    have lt: "current < length bs" "current + 1 < j"
      using False 1(2,3) by auto
    have "(current + 1) * kIdsInBlock < j * kIdsInBlock"
      using lt(2) by (rule mult_strict_right_mono) simp
    then have go: "cs + kIdsInBlock < hs + j * kIdsInBlock"
      using 1(4) by simp
    show ?thesis
      using 1(1)[OF go lt(1) lt(2)] 1(3,4) MarkBlocks_loop_steps(2)[OF go lt(1)] by simp
  qed
qed

text \<open>C34: The loop over the intermediate blocks stops one block early when the range ends on
  the first id of a block (\<open>current_start + kIdsInBlock < end_id\<close>): marking \<open>0 .. k * kIdsInBlock\<close>
  on a fresh log runs into the assertion for every \<open>k\<close> from 2 on.\<close>

theorem MarkFinishedInRange_aligned_end_asserts:
  assumes "2 \<le> k"
  shows "MarkFinishedInRange 0 (k * kIdsInBlock) CommitLog_new = Inl Assert_failed"
proof -
  obtain j2 cl1 where f1: "FindOrCreateBlock (k * kIdsInBlock) CommitLog_new = (j2, cl1)"
    by fastforce
  have s1: "shape (cl_head cl1) (cl_head_start cl1) (cl_next_start cl1)" "j2 = k"
    "k < length (cl_head cl1)" "cl_head_start cl1 = 0"
    using FindOrCreateBlock_spec[OF f1] CommitLog_new_inv
    by (auto simp: cl_inv_def CommitLog_new_def)
  obtain j1 cl2 where f2: "FindOrCreateBlock 0 cl1 = (j1, cl2)"
    by fastforce
  have s2: "j1 = 0" "k < length (cl_head cl2)"
    using FindOrCreateBlock_spec[OF f2 s1(1)] s1 by auto
  define bs where "bs = upd_block 0 (fill_fields 1 kBlockSize)
    (upd_block 0 (or_field 0 (push_bit 0 (-1))) (cl_head cl2))"
  obtain bs' where "MarkBlocks_loop (k * kIdsInBlock) 1 kIdsInBlock bs = Inr (k - 1, bs')"
    using MarkBlocks_loop_aligned_end[of 1 k bs kIdsInBlock 0] assms s2(2)
    by (auto simp: bs_def)
  moreover have "k - 1 \<noteq> k" "k \<noteq> 0"
    using assms by auto
  ultimately have "MarkRange_fields 0 (k * kIdsInBlock) 0 k (cl_head cl2) = Inl Assert_failed"
    by (simp add: MarkRange_fields_def Let_def bs_def)
  then show ?thesis
    using f1 f2 s1 s2 by (simp add: MarkFinishedInRange_def)
qed

theorem MarkFinishedInRange_aligned_end_asserts_witness:
  "(2 :: nat) \<le> 2 \<and> MarkFinishedInRange 0 1048576 CommitLog_new = Inl Assert_failed"
  using MarkFinishedInRange_aligned_end_asserts[of 2]
  by (simp add: kIdsInBlock_def kBlockSize_def kIdsInField_def)

end
