(* ===== verification/WireFormat.thy ===== *)
theory WireFormat
  imports Prelude
begin

text \<open>
  The byte level shared by the durability files and the replication streams:
  little-endian integers (src/utils/endian.hpp) and the one-byte markers
  (src/wire_format/marker.hpp, src/storage/v2/durability/marker.hpp) with the
  bitmap test that accepts exactly the declared ones
  (src/storage/v2/durability/serialization.cpp).
\<close>

type_synonym byte = "8 word"

section \<open>Little-endian integers\<close>

text \<open>The bytes of \<open>HostToLittleEndian(value)\<close> in memory order, and the value
  \<open>LittleEndianToHost\<close> reads back.\<close>

definition HostToLittleEndian :: "nat \<Rightarrow> 'a::len word \<Rightarrow> byte list" where
  "HostToLittleEndian n w = map (\<lambda>i. ucast (drop_bit (8 * i) w)) [0..<n]"

fun LittleEndianToHost :: "byte list \<Rightarrow> 'a::len word" where
  "LittleEndianToHost [] = 0"
| "LittleEndianToHost (b # bs) = ucast b OR push_bit 8 (LittleEndianToHost bs)"

lemma length_HostToLittleEndian [simp]: "length (HostToLittleEndian n w) = n"
  by (simp add: HostToLittleEndian_def)

lemma bit_LittleEndianToHost:
  "bit (LittleEndianToHost bs :: 'a::len word) k \<longleftrightarrow>
     k < LENGTH('a) \<and> k div 8 < length bs \<and> bit (bs ! (k div 8)) (k mod 8)"
proof (induction bs arbitrary: k)
  case Nil
  then show ?case by simp
next
  case (Cons b bs)
  show ?case
  proof (cases "k < 8")
    case True
    then show ?thesis
      by (auto simp: bit_or_iff bit_push_bit_iff bit_ucast_iff)
  next
    case False
    then have "k div 8 = Suc ((k - 8) div 8)" and "k mod 8 = (k - 8) mod 8"
      by (simp_all add: le_div_geq le_mod_geq)
    then show ?thesis
      using False Cons.IH[of "k - 8"]
      by (auto simp: bit_or_iff bit_push_bit_iff bit_ucast_iff dest: bit_imp_le_length)
  qed
qed

lemma LittleEndian_round_trip:
  assumes "LENGTH('a) \<le> 8 * n"
  shows "LittleEndianToHost (HostToLittleEndian n w) = (w :: 'a::len word)"
proof (rule bit_word_eqI)
  fix k
  assume "k < LENGTH('a)"
  moreover have "k div 8 < n"
    using assms calculation by (simp add: div_less_iff_less_mult mult.commute)
  moreover have "8 * (k div 8) + k mod 8 = k"
    by simp
  ultimately show "bit (LittleEndianToHost (HostToLittleEndian n w) :: 'a word) k \<longleftrightarrow> bit w k"
    by (simp add: bit_LittleEndianToHost HostToLittleEndian_def bit_ucast_iff bit_drop_bit_eq)
qed

lemma LittleEndian64 [simp]: "LittleEndianToHost (HostToLittleEndian 8 w) = (w :: 64 word)"
  by (rule LittleEndian_round_trip) simp

lemma LittleEndian32 [simp]: "LittleEndianToHost (HostToLittleEndian 4 w) = (w :: 32 word)"
  by (rule LittleEndian_round_trip) simp

section \<open>Markers\<close>

datatype (plugins only:) Marker =
    TYPE_NULL | TYPE_BOOL | TYPE_INT
  | TYPE_DOUBLE | TYPE_STRING | TYPE_LIST
  | TYPE_MAP | TYPE_PROPERTY_VALUE | TYPE_TEMPORAL_DATA
  | TYPE_ZONED_TEMPORAL_DATA | TYPE_ENUM | TYPE_POINT_2D
  | TYPE_POINT_3D | TYPE_VECTOR_INDEX_ID | SECTION_VERTEX
  | SECTION_EDGE | SECTION_MAPPER | SECTION_METADATA
  | SECTION_INDICES | SECTION_CONSTRAINTS | SECTION_DELTA
  | SECTION_EPOCH_HISTORY | SECTION_EDGE_INDICES | SECTION_ENUMS
  | SECTION_TTL | SECTION_DESCRIPTIONS | SECTION_OFFSETS
  | DELTA_VERTEX_CREATE | DELTA_VERTEX_DELETE | DELTA_VERTEX_ADD_LABEL
  | DELTA_VERTEX_REMOVE_LABEL | DELTA_VERTEX_SET_PROPERTY | DELTA_EDGE_CREATE
  | DELTA_EDGE_DELETE | DELTA_EDGE_SET_PROPERTY | DELTA_TRANSACTION_END
  | DELTA_LABEL_INDEX_CREATE | DELTA_LABEL_INDEX_DROP | DELTA_LABEL_PROPERTIES_INDEX_CREATE
  | DELTA_LABEL_PROPERTIES_INDEX_DROP | DELTA_EXISTENCE_CONSTRAINT_CREATE | DELTA_EXISTENCE_CONSTRAINT_DROP
  | DELTA_UNIQUE_CONSTRAINT_CREATE | DELTA_UNIQUE_CONSTRAINT_DROP | DELTA_LABEL_INDEX_STATS_SET
  | DELTA_LABEL_INDEX_STATS_CLEAR | DELTA_LABEL_PROPERTIES_INDEX_STATS_SET | DELTA_LABEL_PROPERTIES_INDEX_STATS_CLEAR
  | DELTA_EDGE_INDEX_CREATE | DELTA_EDGE_INDEX_DROP | DELTA_TEXT_INDEX_CREATE
  | DELTA_TEXT_INDEX_DROP | DELTA_ENUM_CREATE | DELTA_ENUM_ALTER_ADD
  | DELTA_ENUM_ALTER_UPDATE | DELTA_EDGE_PROPERTY_INDEX_CREATE | DELTA_EDGE_PROPERTY_INDEX_DROP
  | DELTA_POINT_INDEX_CREATE | DELTA_POINT_INDEX_DROP | DELTA_TYPE_CONSTRAINT_CREATE
  | DELTA_TYPE_CONSTRAINT_DROP | DELTA_VECTOR_INDEX_CREATE | DELTA_VECTOR_INDEX_DROP
  | DELTA_GLOBAL_EDGE_PROPERTY_INDEX_CREATE | DELTA_GLOBAL_EDGE_PROPERTY_INDEX_DROP | DELTA_VECTOR_EDGE_INDEX_CREATE
  | DELTA_TRANSACTION_START | DELTA_TTL_OPERATION | DELTA_TEXT_EDGE_INDEX_CREATE
  | DELTA_DESCRIPTION_SET | DELTA_DESCRIPTION_DELETE | VALUE_FALSE
  | VALUE_TRUE

primrec marker_byte :: "Marker \<Rightarrow> 8 word" where
  "marker_byte TYPE_NULL = 0x10"
| "marker_byte TYPE_BOOL = 0x11"
| "marker_byte TYPE_INT = 0x12"
| "marker_byte TYPE_DOUBLE = 0x13"
| "marker_byte TYPE_STRING = 0x14"
| "marker_byte TYPE_LIST = 0x15"
| "marker_byte TYPE_MAP = 0x16"
| "marker_byte TYPE_PROPERTY_VALUE = 0x17"
| "marker_byte TYPE_TEMPORAL_DATA = 0x18"
| "marker_byte TYPE_ZONED_TEMPORAL_DATA = 0x19"
| "marker_byte TYPE_ENUM = 0x1A"
| "marker_byte TYPE_POINT_2D = 0x1B"
| "marker_byte TYPE_POINT_3D = 0x1C"
| "marker_byte TYPE_VECTOR_INDEX_ID = 0x1D"
| "marker_byte SECTION_VERTEX = 0x20"
| "marker_byte SECTION_EDGE = 0x21"
| "marker_byte SECTION_MAPPER = 0x22"
| "marker_byte SECTION_METADATA = 0x23"
| "marker_byte SECTION_INDICES = 0x24"
| "marker_byte SECTION_CONSTRAINTS = 0x25"
| "marker_byte SECTION_DELTA = 0x26"
| "marker_byte SECTION_EPOCH_HISTORY = 0x27"
| "marker_byte SECTION_EDGE_INDICES = 0x28"
| "marker_byte SECTION_ENUMS = 0x29"
| "marker_byte SECTION_TTL = 0x2A"
| "marker_byte SECTION_DESCRIPTIONS = 0x2B"
| "marker_byte SECTION_OFFSETS = 0x42"
| "marker_byte DELTA_VERTEX_CREATE = 0x50"
| "marker_byte DELTA_VERTEX_DELETE = 0x51"
| "marker_byte DELTA_VERTEX_ADD_LABEL = 0x52"
| "marker_byte DELTA_VERTEX_REMOVE_LABEL = 0x53"
| "marker_byte DELTA_VERTEX_SET_PROPERTY = 0x54"
| "marker_byte DELTA_EDGE_CREATE = 0x55"
| "marker_byte DELTA_EDGE_DELETE = 0x56"
| "marker_byte DELTA_EDGE_SET_PROPERTY = 0x57"
| "marker_byte DELTA_TRANSACTION_END = 0x58"
| "marker_byte DELTA_LABEL_INDEX_CREATE = 0x59"
| "marker_byte DELTA_LABEL_INDEX_DROP = 0x5A"
| "marker_byte DELTA_LABEL_PROPERTIES_INDEX_CREATE = 0x5B"
| "marker_byte DELTA_LABEL_PROPERTIES_INDEX_DROP = 0x5C"
| "marker_byte DELTA_EXISTENCE_CONSTRAINT_CREATE = 0x5D"
| "marker_byte DELTA_EXISTENCE_CONSTRAINT_DROP = 0x5E"
| "marker_byte DELTA_UNIQUE_CONSTRAINT_CREATE = 0x5F"
| "marker_byte DELTA_UNIQUE_CONSTRAINT_DROP = 0x60"
| "marker_byte DELTA_LABEL_INDEX_STATS_SET = 0x61"
| "marker_byte DELTA_LABEL_INDEX_STATS_CLEAR = 0x62"
| "marker_byte DELTA_LABEL_PROPERTIES_INDEX_STATS_SET = 0x63"
| "marker_byte DELTA_LABEL_PROPERTIES_INDEX_STATS_CLEAR = 0x64"
| "marker_byte DELTA_EDGE_INDEX_CREATE = 0x65"
| "marker_byte DELTA_EDGE_INDEX_DROP = 0x66"
| "marker_byte DELTA_TEXT_INDEX_CREATE = 0x67"
| "marker_byte DELTA_TEXT_INDEX_DROP = 0x68"
| "marker_byte DELTA_ENUM_CREATE = 0x69"
| "marker_byte DELTA_ENUM_ALTER_ADD = 0x6A"
| "marker_byte DELTA_ENUM_ALTER_UPDATE = 0x6B"
| "marker_byte DELTA_EDGE_PROPERTY_INDEX_CREATE = 0x6C"
| "marker_byte DELTA_EDGE_PROPERTY_INDEX_DROP = 0x6D"
| "marker_byte DELTA_POINT_INDEX_CREATE = 0x6E"
| "marker_byte DELTA_POINT_INDEX_DROP = 0x6F"
| "marker_byte DELTA_TYPE_CONSTRAINT_CREATE = 0x70"
| "marker_byte DELTA_TYPE_CONSTRAINT_DROP = 0x71"
| "marker_byte DELTA_VECTOR_INDEX_CREATE = 0x72"
| "marker_byte DELTA_VECTOR_INDEX_DROP = 0x73"
| "marker_byte DELTA_GLOBAL_EDGE_PROPERTY_INDEX_CREATE = 0x74"
| "marker_byte DELTA_GLOBAL_EDGE_PROPERTY_INDEX_DROP = 0x75"
| "marker_byte DELTA_VECTOR_EDGE_INDEX_CREATE = 0x76"
| "marker_byte DELTA_TRANSACTION_START = 0x77"
| "marker_byte DELTA_TTL_OPERATION = 0x78"
| "marker_byte DELTA_TEXT_EDGE_INDEX_CREATE = 0x79"
| "marker_byte DELTA_DESCRIPTION_SET = 0x7A"
| "marker_byte DELTA_DESCRIPTION_DELETE = 0x7B"
| "marker_byte VALUE_FALSE = 0x00"
| "marker_byte VALUE_TRUE = 0xFF"

definition kMarkersAll :: "Marker list" where
  "kMarkersAll =
    [TYPE_NULL, TYPE_BOOL, TYPE_INT,
     TYPE_DOUBLE, TYPE_STRING, TYPE_LIST,
     TYPE_MAP, TYPE_TEMPORAL_DATA, TYPE_ZONED_TEMPORAL_DATA,
     TYPE_PROPERTY_VALUE, TYPE_ENUM, TYPE_POINT_2D,
     TYPE_POINT_3D, TYPE_VECTOR_INDEX_ID, SECTION_VERTEX,
     SECTION_EDGE, SECTION_MAPPER, SECTION_METADATA,
     SECTION_INDICES, SECTION_CONSTRAINTS, SECTION_DELTA,
     SECTION_EPOCH_HISTORY, SECTION_EDGE_INDICES, SECTION_OFFSETS,
     SECTION_ENUMS, SECTION_TTL, SECTION_DESCRIPTIONS,
     DELTA_VERTEX_CREATE, DELTA_VERTEX_DELETE, DELTA_VERTEX_ADD_LABEL,
     DELTA_VERTEX_REMOVE_LABEL, DELTA_VERTEX_SET_PROPERTY, DELTA_EDGE_CREATE,
     DELTA_EDGE_DELETE, DELTA_EDGE_SET_PROPERTY, DELTA_TRANSACTION_END,
     DELTA_TRANSACTION_START, DELTA_LABEL_INDEX_CREATE, DELTA_LABEL_INDEX_DROP,
     DELTA_LABEL_INDEX_STATS_SET, DELTA_LABEL_INDEX_STATS_CLEAR, DELTA_LABEL_PROPERTIES_INDEX_STATS_SET,
     DELTA_LABEL_PROPERTIES_INDEX_STATS_CLEAR, DELTA_LABEL_PROPERTIES_INDEX_CREATE, DELTA_LABEL_PROPERTIES_INDEX_DROP,
     DELTA_EDGE_INDEX_CREATE, DELTA_EDGE_INDEX_DROP, DELTA_EDGE_PROPERTY_INDEX_CREATE,
     DELTA_EDGE_PROPERTY_INDEX_DROP, DELTA_TEXT_INDEX_CREATE, DELTA_TEXT_INDEX_DROP,
     DELTA_EXISTENCE_CONSTRAINT_CREATE, DELTA_EXISTENCE_CONSTRAINT_DROP, DELTA_UNIQUE_CONSTRAINT_CREATE,
     DELTA_UNIQUE_CONSTRAINT_DROP, DELTA_ENUM_CREATE, DELTA_ENUM_ALTER_ADD,
     DELTA_ENUM_ALTER_UPDATE, DELTA_POINT_INDEX_CREATE, DELTA_POINT_INDEX_DROP,
     DELTA_TYPE_CONSTRAINT_CREATE, DELTA_TYPE_CONSTRAINT_DROP, DELTA_VECTOR_INDEX_CREATE,
     DELTA_VECTOR_EDGE_INDEX_CREATE, DELTA_VECTOR_INDEX_DROP, DELTA_GLOBAL_EDGE_PROPERTY_INDEX_CREATE,
     DELTA_GLOBAL_EDGE_PROPERTY_INDEX_DROP, DELTA_TTL_OPERATION, DELTA_TEXT_EDGE_INDEX_CREATE,
     DELTA_DESCRIPTION_SET, DELTA_DESCRIPTION_DELETE, VALUE_FALSE,
     VALUE_TRUE]"

text \<open>The lookup bitmaps: the two top bits of a byte select one of four 64-bit
  maps, the six low bits the position in it.\<close>

definition bitmap_add :: "byte \<Rightarrow> 64 word list \<Rightarrow> 64 word list" where
  "bitmap_add u arr = (let i = unat (drop_bit 6 u) in arr[i := arr ! i OR push_bit (unat (u AND 0x3F)) 1])"

definition validMarkerBitMaps :: "64 word list" where
  "validMarkerBitMaps = fold (\<lambda>m. bitmap_add (marker_byte m)) kMarkersAll [0, 0, 0, 0]"

definition isValidMarkerValue :: "byte \<Rightarrow> bool" where
  "isValidMarkerValue v =
     (validMarkerBitMaps ! unat (drop_bit 6 v) AND push_bit (unat (v AND 0x3F)) 1 \<noteq> 0)"

definition CastToMarker :: "byte \<Rightarrow> Marker option" where
  "CastToMarker v = (if isValidMarkerValue v then find (\<lambda>m. marker_byte m = v) kMarkersAll else None)"

lemma kMarkersAll_complete: "set kMarkersAll = UNIV"
proof -
  have "m \<in> set kMarkersAll" for m
    by (cases m) (simp_all add: kMarkersAll_def)
  then show ?thesis
    by blast
qed

lemma find_marker: "find (\<lambda>m. marker_byte m = marker_byte k) kMarkersAll = Some k"
  by (cases k) (simp_all add: kMarkersAll_def)

lemma byte_split:
  "unat (drop_bit 6 (u :: byte)) < 4" "unat (u AND 0x3F) < 64"
  "drop_bit 6 u = drop_bit 6 v \<Longrightarrow> u AND 0x3F = v AND 0x3F \<Longrightarrow> u = (v :: byte)"
proof -
  have "unat (drop_bit 6 u) = unat u div 64"
    by (simp only: unat_drop_bit_eq) (simp add: drop_bit_eq_div)
  moreover have "unat u < 256"
    by (rule order.strict_trans2[OF unsigned_less]) simp
  ultimately show "unat (drop_bit 6 u) < 4"
    by simp
  have m: "(0x3F :: byte) = mask 6"
    by (simp add: mask_eq_exp_minus_1)
  show "unat (u AND 0x3F) < 64"
    unfolding m take_bit_eq_mask[symmetric] unsigned_take_bit_eq by (simp add: take_bit_eq_mod)
  show "u = v" if "drop_bit 6 u = drop_bit 6 v" and "u AND 0x3F = v AND 0x3F"
    using that unfolding m by (metis bits_ident take_bit_eq_mask)
qed

lemma length_bitmap_add [simp]: "length (bitmap_add u arr) = length arr"
  by (simp add: bitmap_add_def Let_def)

lemma bit_set_in_map:
  assumes "i < length arr" and "s < 64"
  shows "bit (arr[i := arr ! i OR push_bit r (1 :: 64 word)] ! j) s \<longleftrightarrow> (i = j \<and> r = s) \<or> bit (arr ! j) s"
proof (cases "i = j")
  case True
  then show ?thesis
    using assms by (simp add: bit_or_iff bit_shifted_one del: push_bit_of_1) blast
next
  case False
  then show ?thesis
    by simp
qed

lemma bit_bitmap_add:
  assumes "length arr = 4"
  shows "bit (bitmap_add u arr ! unat (drop_bit 6 v)) (unat (v AND 0x3F)) \<longleftrightarrow>
    u = v \<or> bit (arr ! unat (drop_bit 6 v)) (unat (v AND 0x3F))"
proof -
  have "unat (drop_bit 6 u) = unat (drop_bit 6 v) \<and> unat (u AND 0x3F) = unat (v AND 0x3F) \<longleftrightarrow> u = v"
    using byte_split(3)[of u v] unfolding word_unat_eq_iff[symmetric] by blast
  moreover have "unat (drop_bit 6 u) < length arr"
    unfolding assms by (rule byte_split(1))
  ultimately show ?thesis
    unfolding bitmap_add_def Let_def by (simp only: bit_set_in_map[OF _ byte_split(2)])
qed

lemma bit_bitmaps:
  assumes "length arr = 4"
  shows "bit (fold (\<lambda>m. bitmap_add (f m)) ms arr ! unat (drop_bit 6 v)) (unat (v AND 0x3F)) \<longleftrightarrow>
    v \<in> f ` set ms \<or> bit (arr ! unat (drop_bit 6 v)) (unat (v AND 0x3F))"
  using assms by (induction ms arbitrary: arr) (auto simp: bit_bitmap_add)

lemma and_shifted_one_neq_0: "w AND push_bit n 1 \<noteq> (0 :: 64 word) \<longleftrightarrow> bit w n"
  by (simp only: bit_iff_and_push_bit_not_eq_0)

lemma isValidMarkerValue_iff: "isValidMarkerValue v \<longleftrightarrow> v \<in> range marker_byte"
proof -
  have "bit ([0, 0, 0, 0 :: 64 word] ! unat (drop_bit 6 v)) n = False" for n
    using byte_split(1)[of v] by (auto simp: less_Suc_eq numeral_eq_Suc)
  then show ?thesis
    using bit_bitmaps[of "[0, 0, 0, 0]" marker_byte kMarkersAll v]
    by (simp add: isValidMarkerValue_def validMarkerBitMaps_def and_shifted_one_neq_0 kMarkersAll_complete
        del: push_bit_of_1)
qed

lemma CastToMarker_byte [simp]: "CastToMarker (marker_byte m) = Some m"
  by (simp add: CastToMarker_def isValidMarkerValue_iff find_marker)

lemma CastToMarker_Some: "CastToMarker v = Some m \<longleftrightarrow> v = marker_byte m"
proof
  assume "CastToMarker v = Some m"
  then have "find (\<lambda>m. marker_byte m = v) kMarkersAll = Some m"
    unfolding CastToMarker_def by (simp split: if_split_asm)
  then show "v = marker_byte m"
    unfolding find_Some_iff by blast
qed simp

end
