(* ===== verification/PropertyValue.thy ===== *)
theory PropertyValue
  imports WireFormat
begin

text \<open>
  Property values as the durability layer sees them
  (\<open>ExternalPropertyValue\<close>, declared in src/storage/v2/property_value.cppm), the
  coordinate reference systems of src/storage/v2/point.hpp, the temporal data of
  src/storage/v2/temporal.hpp, and the conversions between list representations.
  Strings are byte lists, a \<open>double\<close> is its 64-bit pattern, a \<open>float\<close> its 32-bit
  pattern, \<open>int64_t\<close> and \<open>int\<close> are 64-bit and 32-bit words read as signed numbers.
\<close>

section \<open>Data\<close>

type_synonym string_t = "byte list"

datatype CoordinateReferenceSystem = WGS84_2d | WGS84_3d | Cartesian_2d | Cartesian_3d

definition CrsToSrid :: "CoordinateReferenceSystem \<Rightarrow> 16 word" where
  "CrsToSrid crs = (case crs of WGS84_2d \<Rightarrow> 4326 | WGS84_3d \<Rightarrow> 4979
     | Cartesian_2d \<Rightarrow> 7203 | Cartesian_3d \<Rightarrow> 9157)"

definition SridToCrs :: "16 word \<Rightarrow> CoordinateReferenceSystem option" where
  "SridToCrs srid =
    (if srid = 4326 then Some WGS84_2d
     else if srid = 4979 then Some WGS84_3d
     else if srid = 7203 then Some Cartesian_2d
     else if srid = 9157 then Some Cartesian_3d
     else if srid = 9757 then Some Cartesian_3d
     else None)"

definition valid2d :: "CoordinateReferenceSystem \<Rightarrow> bool" where
  "valid2d crs \<longleftrightarrow> crs = WGS84_2d \<or> crs = Cartesian_2d"

definition valid3d :: "CoordinateReferenceSystem \<Rightarrow> bool" where
  "valid3d crs \<longleftrightarrow> crs = WGS84_3d \<or> crs = Cartesian_3d"

text \<open>A time zone is a fixed offset in minutes or a zone of the tz database; the
  enumerations of temporal types have the underlying type \<open>uint8_t\<close> and are kept as
  bytes, because the decoder casts an arbitrary integer to them.\<close>

datatype Timezone = Tz_offset "64 word" | Tz_name string_t

record TemporalData =
  td_type :: byte
  td_microseconds :: "64 word"

record ZonedTemporalData =
  ztd_type :: byte
  ztd_microseconds :: "64 word"
  ztd_timezone :: Timezone

datatype numeric = Num_int "32 word" | Num_double "64 word"

datatype pv =
    PV_Null
  | PV_Bool bool
  | PV_Int "64 word"
  | PV_Double "64 word"
  | PV_String string_t
  | PV_List "pv list"
  | PV_Map "(string_t \<times> pv) list"
  | PV_Temporal TemporalData
  | PV_Zoned ZonedTemporalData
  | PV_Enum "64 word" "64 word"
  | PV_Point2d CoordinateReferenceSystem "64 word" "64 word"
  | PV_Point3d CoordinateReferenceSystem "64 word" "64 word" "64 word"
  | PV_IntList "32 word list"
  | PV_DoubleList "64 word list"
  | PV_NumericList "numeric list"
  | PV_VectorIndexId "string_t list" "32 word list"

section \<open>Floating-point conversions\<close>

text \<open>\<open>float\<close> to \<open>double\<close> and back, on bit patterns, with IEEE 754 round-to-nearest-even.\<close>

definition pack64 :: "nat \<Rightarrow> nat \<Rightarrow> nat \<Rightarrow> 64 word" where
  "pack64 s e m = word_of_nat (s * 2 ^ 63 + e * 2 ^ 52 + m)"

definition pack32 :: "nat \<Rightarrow> nat \<Rightarrow> nat \<Rightarrow> 32 word" where
  "pack32 s e m = word_of_nat (s * 2 ^ 31 + e * 2 ^ 23 + m)"

fun log2 :: "nat \<Rightarrow> nat" where
  "log2 n = (if n \<le> 1 then 0 else Suc (log2 (n div 2)))"

declare log2.simps [simp del]

text \<open>The nearest multiple: \<open>n / 2 ^ k\<close> rounded to nearest, ties to even.\<close>

definition round_shift :: "nat \<Rightarrow> nat \<Rightarrow> nat" where
  "round_shift n k =
    (let q = n div 2 ^ k; r = n mod 2 ^ k
     in if 2 * r > 2 ^ k \<or> (2 * r = 2 ^ k \<and> odd q) then q + 1 else q)"

definition float_to_double :: "32 word \<Rightarrow> 64 word" where
  "float_to_double w =
    (let s = unat w div 2 ^ 31; e = unat w div 2 ^ 23 mod 2 ^ 8; m = unat w mod 2 ^ 23
     in if e = 255 then (if m = 0 then pack64 s 2047 0 else pack64 s 2047 (2 ^ 51 + m mod 2 ^ 22 * 2 ^ 29))
        else if e = 0
             then (if m = 0 then pack64 s 0 0
                   else let p = log2 m in pack64 s (p + 874) ((m - 2 ^ p) * 2 ^ (52 - p)))
        else pack64 s (e + 896) (m * 2 ^ 29))"

definition double_to_float :: "64 word \<Rightarrow> 32 word" where
  "double_to_float w =
    (let s = unat w div 2 ^ 63; e = unat w div 2 ^ 52 mod 2 ^ 11; m = unat w mod 2 ^ 52
     in if e = 2047 then (if m = 0 then pack32 s 255 0 else pack32 s 255 (2 ^ 22 + m div 2 ^ 29 mod 2 ^ 22))
        else if e \<ge> 1151 then pack32 s 255 0
        else if e \<ge> 897
             then let v = (e - 896) * 2 ^ 23 + round_shift m 29
                  in if v \<ge> 255 * 2 ^ 23 then pack32 s 255 0 else pack32 s 0 v
        else if e = 0 then pack32 s 0 0
        else pack32 s 0 (round_shift (2 ^ 52 + m) (29 + (897 - e))))"

lemma fields_split:
  assumes "(m :: nat) < 2 ^ b" and "e < 2 ^ a"
  shows "(s * 2 ^ (a + b) + e * 2 ^ b + m) div 2 ^ (a + b) = s"
    and "(s * 2 ^ (a + b) + e * 2 ^ b + m) div 2 ^ b mod 2 ^ a = e"
    and "(s * 2 ^ (a + b) + e * 2 ^ b + m) mod 2 ^ b = m"
proof -
  have eq: "s * 2 ^ (a + b) + e * 2 ^ b + m = (s * 2 ^ a + e) * 2 ^ b + m"
    by (simp add: power_add algebra_simps)
  then have d: "(s * 2 ^ (a + b) + e * 2 ^ b + m) div 2 ^ b = s * 2 ^ a + e"
    using assms(1) by simp
  then show "(s * 2 ^ (a + b) + e * 2 ^ b + m) div 2 ^ b mod 2 ^ a = e"
    using assms(2) by simp
  show "(s * 2 ^ (a + b) + e * 2 ^ b + m) mod 2 ^ b = m"
    unfolding eq using assms(1) by simp
  have "x div 2 ^ (a + b) = x div 2 ^ b div 2 ^ a" for x :: nat
    by (subst add.commute) (simp only: power_add div_mult2_eq)
  then show "(s * 2 ^ (a + b) + e * 2 ^ b + m) div 2 ^ (a + b) = s"
    using d assms(2) by simp
qed

lemma fields_bound:
  assumes "(m :: nat) < 2 ^ b" and "e < 2 ^ a" and "s < 2"
  shows "s * 2 ^ (a + b) + e * 2 ^ b + m < 2 ^ (a + b + 1)"
proof -
  have "e * 2 ^ b + m < (e + 1) * 2 ^ b"
    using assms(1) by simp
  also have "\<dots> \<le> 2 ^ a * 2 ^ b"
    using assms(2) by (intro mult_le_mono1) simp
  finally have "e * 2 ^ b + m < 2 ^ (a + b)"
    by (simp add: power_add)
  moreover have "s * 2 ^ (a + b) \<le> 2 ^ (a + b)"
    using assms(3) by (cases s) auto
  moreover have "(2 :: nat) ^ (a + b + 1) = 2 ^ (a + b) + 2 ^ (a + b)"
    by simp
  ultimately show ?thesis
    by linarith
qed

lemma unat_pack64:
  assumes "s < 2" and "e < 2 ^ 11" and "m < 2 ^ 52"
  shows "unat (pack64 s e m) div 2 ^ 63 = s" and "unat (pack64 s e m) div 2 ^ 52 mod 2 ^ 11 = e"
    and "unat (pack64 s e m) mod 2 ^ 52 = m"
proof -
  have "s * 2 ^ 63 + e * 2 ^ 52 + m < 2 ^ 64"
    using fields_bound[of m 52 e 11 s] assms by simp
  then have "unat (pack64 s e m) = s * 2 ^ 63 + e * 2 ^ 52 + m"
    unfolding pack64_def unsigned_of_nat of_nat_id by (intro take_bit_nat_eq_self) simp
  then show "unat (pack64 s e m) div 2 ^ 63 = s" "unat (pack64 s e m) div 2 ^ 52 mod 2 ^ 11 = e"
    "unat (pack64 s e m) mod 2 ^ 52 = m"
    using fields_split[of m 52 e 11 s] assms by simp_all
qed

lemma pack32_fields: "pack32 (unat w div 2 ^ 31) (unat w div 2 ^ 23 mod 2 ^ 8) (unat w mod 2 ^ 23) = w"
proof -
  define n where "n = unat w"
  define q where "q = n div 2 ^ 23"
  have "n div 2 ^ 31 = q div 2 ^ 8"
    by (simp add: q_def div_mult2_eq[symmetric])
  then have "n div 2 ^ 31 * 2 ^ 31 + n div 2 ^ 23 mod 2 ^ 8 * 2 ^ 23 + n mod 2 ^ 23 =
      q div 2 ^ 8 * 2 ^ 31 + q mod 2 ^ 8 * 2 ^ 23 + n mod 2 ^ 23"
    by (simp add: q_def)
  also have "\<dots> = (q div 2 ^ 8 * 2 ^ 8 + q mod 2 ^ 8) * 2 ^ 23 + n mod 2 ^ 23"
    by (simp only: add_mult_distrib mult.assoc) simp
  also have "\<dots> = n"
    unfolding div_mult_mod_eq unfolding q_def by (rule div_mult_mod_eq)
  finally have eq: "n div 2 ^ 31 * 2 ^ 31 + n div 2 ^ 23 mod 2 ^ 8 * 2 ^ 23 + n mod 2 ^ 23 = n" .
  show ?thesis
    unfolding pack32_def n_def[symmetric] eq by (simp add: n_def)
qed

lemma log2_bounds: "0 < m \<Longrightarrow> 2 ^ log2 m \<le> m \<and> m < 2 ^ (log2 m + 1)"
proof (induction m rule: log2.induct)
  case (1 m)
  show ?case
  proof (cases "m \<le> 1")
    case True
    then show ?thesis
      using 1(2) by (simp add: log2.simps)
  next
    case False
    then have "2 ^ log2 (m div 2) \<le> m div 2 \<and> m div 2 < 2 ^ (log2 (m div 2) + 1)"
      using 1(1) by simp
    moreover have "log2 m = Suc (log2 (m div 2))"
      using False by (subst log2.simps) simp
    ultimately show ?thesis
      by auto
  qed
qed

lemma round_shift_exact [simp]: "round_shift (m * 2 ^ k) k = m"
  by (simp add: round_shift_def)

definition signalling :: "32 word \<Rightarrow> bool" where
  "signalling w \<longleftrightarrow> unat w div 2 ^ 23 mod 2 ^ 8 = 255 \<and> unat w mod 2 ^ 23 \<noteq> 0 \<and> unat w mod 2 ^ 23 < 2 ^ 22"

lemma float_round_trip_finite:
  assumes "s < 2" and "0 < e" and "e < 255" and "m < 2 ^ 23"
  shows "double_to_float (pack64 s (e + 896) (m * 2 ^ 29)) = pack32 s e m"
proof -
  have "m * 2 ^ 29 < 2 ^ 52"
    using assms(4) by simp
  note fields = unat_pack64[OF assms(1) _ this, of "e + 896"]
  have "e * 2 ^ 23 + m < 255 * 2 ^ 23"
    using assms by simp
  then show ?thesis
    using fields assms round_shift_exact[of m 29] by (simp add: double_to_float_def Let_def pack32_def)
qed

lemma float_round_trip_subnormal:
  assumes "s < 2" and "0 < m" and "m < 2 ^ 23"
  shows "double_to_float (pack64 s (log2 m + 874) ((m - 2 ^ log2 m) * 2 ^ (52 - log2 m))) = pack32 s 0 m"
proof -
  define p where "p = log2 m"
  have p: "2 ^ p \<le> m" "m < 2 ^ (p + 1)"
    using log2_bounds[OF assms(2)] by (simp_all add: p_def)
  have "(2 :: nat) ^ p < 2 ^ 23"
    using p(1) assms(3) by simp
  then have "p < 23"
    by (rule power_less_imp_less_exp[rotated]) simp
  have two: "(2 :: nat) ^ p * 2 ^ (52 - p) = 2 ^ 52"
    using \<open>p < 23\<close> by (simp add: power_add[symmetric])
  have "(m - 2 ^ p) * 2 ^ (52 - p) < 2 ^ p * 2 ^ (52 - p)"
    using p by (intro mult_strict_right_mono) auto
  then have lt: "(m - 2 ^ p) * 2 ^ (52 - p) < 2 ^ 52"
    using two by simp
  have "2 ^ 52 \<le> m * 2 ^ (52 - p)"
    using mult_le_mono1[OF p(1), of "2 ^ (52 - p)"] unfolding two .
  then have sig: "2 ^ 52 + (m - 2 ^ p) * 2 ^ (52 - p) = m * 2 ^ (52 - p)"
    unfolding diff_mult_distrib two by (rule le_add_diff_inverse)
  have sh: "29 + (897 - (p + 874)) = 52 - p"
    using \<open>p < 23\<close> by simp
  have e: "p + 874 < 2 ^ 11" "p + 874 \<noteq> 2047" "\<not> p + 874 \<ge> 1151" "\<not> p + 874 \<ge> 897" "p + 874 \<noteq> 0"
    using \<open>p < 23\<close> by simp_all
  show ?thesis
    unfolding double_to_float_def p_def[symmetric] unat_pack64[OF assms(1) e(1) lt] Let_def
    using e(2-) by (simp only: if_False simp_thms sig sh round_shift_exact)
qed

lemma double_to_float_float_to_double:
  assumes "\<not> signalling w"
  shows "double_to_float (float_to_double w) = w"
proof -
  define s where "s = unat w div 2 ^ 31"
  define e where "e = unat w div 2 ^ 23 mod 2 ^ 8"
  define m where "m = unat w mod 2 ^ 23"
  have w: "pack32 s e m = w"
    unfolding s_def e_def m_def by (rule pack32_fields)
  have "unat w < 2 ^ 32"
    by (rule order.strict_trans2[OF unsigned_less]) simp
  then have s: "s < 2"
    by (simp add: s_def)
  have e: "e < 256" and m: "m < 2 ^ 23"
    by (simp_all add: e_def m_def)
  have nan: "2 ^ 22 + (2 ^ 51 + m mod 2 ^ 22 * 2 ^ 29) div 2 ^ 29 mod 2 ^ 22 = m" if "2 ^ 22 \<le> m"
    using that m by (simp add: mod_if; linarith)
  have big: "2 ^ 51 + m mod 2 ^ 22 * 2 ^ 29 < 2 ^ 52"
    using mod_less_divisor[of "2 ^ 22" m] by simp
  have def: "float_to_double w =
      (if e = 255 then (if m = 0 then pack64 s 2047 0 else pack64 s 2047 (2 ^ 51 + m mod 2 ^ 22 * 2 ^ 29))
       else if e = 0 then (if m = 0 then pack64 s 0 0
                           else pack64 s (log2 m + 874) ((m - 2 ^ log2 m) * 2 ^ (52 - log2 m)))
       else pack64 s (e + 896) (m * 2 ^ 29))"
    by (simp add: float_to_double_def Let_def s_def e_def m_def)
  consider "e = 255" "m = 0" | "e = 255" "2 ^ 22 \<le> m" | "e = 0" "m = 0" | "e = 0" "0 < m" | "0 < e" "e < 255"
    using assms e by (fastforce simp: signalling_def e_def m_def)
  then show ?thesis
  proof cases
    case 1
    then show ?thesis
      using w unat_pack64[OF s, of 2047 0] by (simp add: def double_to_float_def Let_def)
  next
    case 2
    then show ?thesis
      using w nan unat_pack64[OF s _ big, of 2047] by (simp add: def double_to_float_def Let_def)
  next
    case 3
    then show ?thesis
      using w unat_pack64[OF s, of 0 0] by (simp add: def double_to_float_def Let_def)
  next
    case 4
    then show ?thesis
      using w float_round_trip_subnormal[OF s _ m] by (simp add: def)
  next
    case 5
    then show ?thesis
      using w float_round_trip_finite[OF s _ _ m] by (simp add: def)
  qed
qed

section \<open>List representations\<close>

definition IsInt :: "pv \<Rightarrow> bool" where
  "IsInt v = (case v of PV_Int _ \<Rightarrow> True | _ \<Rightarrow> False)"

definition IsDouble :: "pv \<Rightarrow> bool" where
  "IsDouble v = (case v of PV_Double _ \<Rightarrow> True | _ \<Rightarrow> False)"

definition IsNumeric :: "pv \<Rightarrow> bool" where
  "IsNumeric v \<longleftrightarrow> IsInt v \<or> IsDouble v"

text \<open>\<open>static_cast<double>\<close> of an \<open>int64_t\<close>.\<close>

definition int_to_double :: "64 word \<Rightarrow> 64 word" where
  "int_to_double i =
    (let s = (if sint i < 0 then 1 else 0); n = nat \<bar>sint i\<bar>; p = log2 n
     in if n = 0 then 0
        else if p \<le> 52 then pack64 s (p + 1023) ((n - 2 ^ p) * 2 ^ (52 - p))
        else pack64 s (p + 1022) (round_shift n (p - 52)))"

text \<open>The constructors with \<open>IntListTag\<close>, \<open>DoubleListTag\<close> and \<open>NumericListTag\<close>, with
  \<^term>\<open>None\<close> for the \<open>PropertyValueException\<close> they throw.  An \<open>int64_t\<close> element
  becomes an \<open>int\<close> by \<open>static_cast<int>\<close>, which keeps the low 32 bits.\<close>

fun IntListTag :: "pv list \<Rightarrow> 32 word list option" where
  "IntListTag [] = Some []"
| "IntListTag (PV_Int i # vs) = map_option ((#) (ucast i)) (IntListTag vs)"
| "IntListTag (_ # vs) = None"

fun DoubleListTag :: "pv list \<Rightarrow> 64 word list option" where
  "DoubleListTag [] = Some []"
| "DoubleListTag (PV_Double d # vs) = map_option ((#) d) (DoubleListTag vs)"
| "DoubleListTag (PV_Int i # vs) = map_option ((#) (int_to_double i)) (DoubleListTag vs)"
| "DoubleListTag (_ # vs) = None"

fun NumericListTag :: "pv list \<Rightarrow> numeric list option" where
  "NumericListTag [] = Some []"
| "NumericListTag (PV_Double d # vs) = map_option ((#) (Num_double d)) (NumericListTag vs)"
| "NumericListTag (PV_Int i # vs) = map_option ((#) (Num_int (ucast i))) (NumericListTag vs)"
| "NumericListTag (_ # vs) = None"

text \<open>The choice of representation for a list of values, shared by the decoder of
  durability files and the conversion of query values.\<close>

definition make_list :: "pv list \<Rightarrow> pv option" where
  "make_list vs =
    (if list_all IsInt vs then map_option PV_IntList (IntListTag vs)
     else if list_all IsDouble vs then map_option PV_DoubleList (DoubleListTag vs)
     else if list_all IsNumeric vs then map_option PV_NumericList (NumericListTag vs)
     else Some (PV_List vs))"

lemma IntListTag_ints: "list_all IsInt vs \<Longrightarrow> \<exists>xs. IntListTag vs = Some xs"
  by (induction vs rule: IntListTag.induct) (auto simp: IsInt_def)

lemma DoubleListTag_doubles: "list_all IsDouble vs \<Longrightarrow> \<exists>xs. DoubleListTag vs = Some xs"
  by (induction vs rule: DoubleListTag.induct) (auto simp: IsDouble_def)

lemma NumericListTag_numerics: "list_all IsNumeric vs \<Longrightarrow> \<exists>xs. NumericListTag vs = Some xs"
  by (induction vs rule: NumericListTag.induct) (auto simp: IsNumeric_def IsInt_def IsDouble_def)

text \<open>The tests protect the constructors: choosing a representation never throws.\<close>

lemma make_list_total: "\<exists>v. make_list vs = Some v"
  using IntListTag_ints[of vs] DoubleListTag_doubles[of vs] NumericListTag_numerics[of vs]
  by (auto simp: make_list_def)

section \<open>Maps\<close>

text \<open>\<open>flat_map::emplace\<close>: insertion into a vector sorted by key (byte-wise
  lexicographic, as \<open>std::string\<close> compares); an existing key is left alone.\<close>

fun bytes_less :: "byte list \<Rightarrow> byte list \<Rightarrow> bool" where
  "bytes_less [] ys = (ys \<noteq> [])"
| "bytes_less (x # xs) [] = False"
| "bytes_less (x # xs) (y # ys) = (x < y \<or> (x = y \<and> bytes_less xs ys))"

fun flat_map_emplace :: "string_t \<Rightarrow> 'v \<Rightarrow> (string_t \<times> 'v) list \<Rightarrow> (string_t \<times> 'v) list" where
  "flat_map_emplace k v [] = [(k, v)]"
| "flat_map_emplace k v ((k', v') # kvs) =
    (if bytes_less k k' then (k, v) # (k', v') # kvs
     else if k = k' then (k', v') # kvs
     else (k', v') # flat_map_emplace k v kvs)"

definition flat_map_sorted :: "(string_t \<times> 'v) list \<Rightarrow> bool" where
  "flat_map_sorted kvs = sorted_wrt bytes_less (map fst kvs)"

lemma bytes_less_irrefl [simp]: "\<not> bytes_less x x"
  by (induction x) auto

lemma bytes_less_trans: "bytes_less x y \<Longrightarrow> bytes_less y z \<Longrightarrow> bytes_less x z"
proof (induction x y arbitrary: z rule: bytes_less.induct)
  case (1 ys)
  then show ?case
    by (cases ys; cases z) auto
next
  case (3 x xs y ys)
  then show ?case
    by (cases z) auto
qed simp

lemma bytes_less_asym: "bytes_less x y \<Longrightarrow> \<not> bytes_less y x"
  using bytes_less_trans bytes_less_irrefl by blast

lemma bytes_less_total: "x \<noteq> y \<Longrightarrow> \<not> bytes_less x y \<Longrightarrow> bytes_less y x"
  by (induction x y rule: bytes_less.induct) auto

lemma flat_map_emplace_last:
  "flat_map_sorted (kvs @ [(k, v)]) \<Longrightarrow> flat_map_emplace k v kvs = kvs @ [(k, v)]"
  by (induction k v kvs rule: flat_map_emplace.induct)
    (auto simp: flat_map_sorted_def sorted_wrt_append dest: bytes_less_asym)

lemma set_flat_map_emplace: "set (flat_map_emplace k v kvs) \<subseteq> insert (k, v) (set kvs)"
  by (induction k v kvs rule: flat_map_emplace.induct) auto

lemma flat_map_emplace_sorted: "flat_map_sorted kvs \<Longrightarrow> flat_map_sorted (flat_map_emplace k v kvs)"
proof (induction k v kvs rule: flat_map_emplace.induct)
  case (2 k v k' v' kvs)
  have all: "\<forall>kv \<in> set kvs. bytes_less k' (fst kv)" and tl: "flat_map_sorted kvs"
    using 2(2) by (auto simp: flat_map_sorted_def)
  consider "bytes_less k k'" | "k = k'" | "\<not> bytes_less k k'" "k \<noteq> k'"
    by blast
  then show ?case
  proof cases
    case 1
    then have "\<forall>kv \<in> set kvs. bytes_less k (fst kv)"
      using all bytes_less_trans by blast
    then show ?thesis
      using 1 2(2) by (auto simp: flat_map_sorted_def)
  next
    case 2
    then show ?thesis
      using \<open>flat_map_sorted ((k', v') # kvs)\<close> by simp
  next
    case 3
    then have "bytes_less k' k"
      using bytes_less_total by blast
    then have "\<forall>kv \<in> set (flat_map_emplace k v kvs). bytes_less k' (fst kv)"
      using all set_flat_map_emplace[of k v kvs] by auto
    moreover have "flat_map_sorted (flat_map_emplace k v kvs)"
      using 2(1)[OF 3 tl] .
    ultimately show ?thesis
      using 3 by (auto simp: flat_map_sorted_def)
  qed
qed (simp add: flat_map_sorted_def)

end
