(* ===== verification/Serialization.thy ===== *)
theory Serialization
  imports PropertyValue
begin

text \<open>
  The encoder and the decoder of durability files
  (src/storage/v2/durability/serialization.cpp): snapshots and write-ahead logs
  consist of the values written here.  An encoder operation is the list of bytes it
  appends to the file; a decoder operation takes the unread bytes and returns a value
  with the bytes left, \<open>Nullopt\<close> for \<open>std::nullopt\<close>, or \<open>Exception\<close> where the
  source throws.  The tz database is not part of the repository: \<open>locate_zone\<close>, the
  lookup \<open>std::chrono::locate_zone\<close> followed by \<open>time_zone::name\<close>, is a parameter.
\<close>

section \<open>Encoder\<close>

definition WriteSize :: "nat \<Rightarrow> byte list" where
  "WriteSize sz = HostToLittleEndian 8 (word_of_nat sz :: 64 word)"

definition WriteMarker :: "Marker \<Rightarrow> byte list" where
  "WriteMarker marker = [marker_byte marker]"

definition WriteBool :: "bool \<Rightarrow> byte list" where
  "WriteBool value =
    WriteMarker TYPE_BOOL @ (if value then WriteMarker VALUE_TRUE else WriteMarker VALUE_FALSE)"

definition WriteUint :: "64 word \<Rightarrow> byte list" where
  "WriteUint value = WriteMarker TYPE_INT @ HostToLittleEndian 8 value"

definition WriteDouble :: "64 word \<Rightarrow> byte list" where
  "WriteDouble value = WriteMarker TYPE_DOUBLE @ HostToLittleEndian 8 value"

definition WriteString :: "string_t \<Rightarrow> byte list" where
  "WriteString value = WriteMarker TYPE_STRING @ WriteSize (length value) @ value"

definition WriteEnum :: "64 word \<Rightarrow> 64 word \<Rightarrow> byte list" where
  "WriteEnum etype evalue =
    WriteMarker TYPE_ENUM @ HostToLittleEndian 8 etype @ HostToLittleEndian 8 evalue"

definition WritePoint2d :: "CoordinateReferenceSystem \<Rightarrow> 64 word \<Rightarrow> 64 word \<Rightarrow> byte list" where
  "WritePoint2d crs x y =
    WriteMarker TYPE_POINT_2D @ WriteUint (ucast (CrsToSrid crs)) @ WriteDouble x @ WriteDouble y"

definition WritePoint3d :: "CoordinateReferenceSystem \<Rightarrow> 64 word \<Rightarrow> 64 word \<Rightarrow> 64 word \<Rightarrow> byte list" where
  "WritePoint3d crs x y z =
    WriteMarker TYPE_POINT_3D @ WriteUint (ucast (CrsToSrid crs)) @
    WriteDouble x @ WriteDouble y @ WriteDouble z"

definition WriteTemporal :: "TemporalData \<Rightarrow> byte list" where
  "WriteTemporal td =
    WriteMarker TYPE_TEMPORAL_DATA @ WriteUint (ucast (td_type td)) @ WriteUint (td_microseconds td)"

definition WriteZoned :: "ZonedTemporalData \<Rightarrow> byte list" where
  "WriteZoned ztd =
    WriteMarker TYPE_ZONED_TEMPORAL_DATA @ WriteUint (ucast (ztd_type ztd)) @
    WriteUint (ztd_microseconds ztd) @
    (case ztd_timezone ztd of Tz_name name \<Rightarrow> WriteString name | Tz_offset offset \<Rightarrow> WriteUint offset)"

text \<open>An item of a numeric list: \<open>static_cast<uint64_t>\<close> of an \<open>int\<close> sign-extends.\<close>

fun WriteNumeric :: "numeric \<Rightarrow> byte list" where
  "WriteNumeric (Num_int i) = WriteUint (scast i)"
| "WriteNumeric (Num_double d) = WriteDouble d"

fun WriteExternalPropertyValue :: "pv \<Rightarrow> byte list" where
  "WriteExternalPropertyValue PV_Null = WriteMarker TYPE_PROPERTY_VALUE @ WriteMarker TYPE_NULL"
| "WriteExternalPropertyValue (PV_Bool b) = WriteMarker TYPE_PROPERTY_VALUE @ WriteBool b"
| "WriteExternalPropertyValue (PV_Int i) = WriteMarker TYPE_PROPERTY_VALUE @ WriteUint i"
| "WriteExternalPropertyValue (PV_Double d) = WriteMarker TYPE_PROPERTY_VALUE @ WriteDouble d"
| "WriteExternalPropertyValue (PV_String s) = WriteMarker TYPE_PROPERTY_VALUE @ WriteString s"
| "WriteExternalPropertyValue (PV_List vs) =
    WriteMarker TYPE_PROPERTY_VALUE @ WriteMarker TYPE_LIST @ WriteSize (length vs) @
    concat (map WriteExternalPropertyValue vs)"
| "WriteExternalPropertyValue (PV_NumericList ns) =
    WriteMarker TYPE_PROPERTY_VALUE @ WriteMarker TYPE_LIST @ WriteSize (length ns) @
    concat (map (\<lambda>n. WriteMarker TYPE_PROPERTY_VALUE @ WriteNumeric n) ns)"
| "WriteExternalPropertyValue (PV_IntList ints) =
    WriteMarker TYPE_PROPERTY_VALUE @ WriteMarker TYPE_LIST @ WriteSize (length ints) @
    concat (map (\<lambda>i. WriteMarker TYPE_PROPERTY_VALUE @ WriteUint (scast i)) ints)"
| "WriteExternalPropertyValue (PV_DoubleList ds) =
    WriteMarker TYPE_PROPERTY_VALUE @ WriteMarker TYPE_LIST @ WriteSize (length ds) @
    concat (map (\<lambda>d. WriteMarker TYPE_PROPERTY_VALUE @ WriteDouble d) ds)"
| "WriteExternalPropertyValue (PV_Map kvs) =
    WriteMarker TYPE_PROPERTY_VALUE @ WriteMarker TYPE_MAP @ WriteSize (length kvs) @
    concat (map (\<lambda>(k, v). WriteString k @ WriteExternalPropertyValue v) kvs)"
| "WriteExternalPropertyValue (PV_Temporal td) = WriteMarker TYPE_PROPERTY_VALUE @ WriteTemporal td"
| "WriteExternalPropertyValue (PV_Zoned ztd) = WriteMarker TYPE_PROPERTY_VALUE @ WriteZoned ztd"
| "WriteExternalPropertyValue (PV_Enum t v) = WriteMarker TYPE_PROPERTY_VALUE @ WriteEnum t v"
| "WriteExternalPropertyValue (PV_Point2d crs x y) =
    WriteMarker TYPE_PROPERTY_VALUE @ WritePoint2d crs x y"
| "WriteExternalPropertyValue (PV_Point3d crs x y z) =
    WriteMarker TYPE_PROPERTY_VALUE @ WritePoint3d crs x y z"
| "WriteExternalPropertyValue (PV_VectorIndexId ids vec) =
    WriteMarker TYPE_PROPERTY_VALUE @ WriteMarker TYPE_VECTOR_INDEX_ID @
    WriteSize (length ids) @ concat (map WriteString ids) @
    WriteSize (length vec) @ concat (map (\<lambda>f. WriteDouble (float_to_double f)) vec)"

section \<open>Decoder\<close>

datatype dec_error = Nullopt | Exception | Out_of_fuel

type_synonym 'a reader = "byte list \<Rightarrow> dec_error + ('a \<times> byte list)"

definition Read :: "nat \<Rightarrow> byte list reader" where
  "Read sz bs = (if sz \<le> length bs then Inr (take sz bs, drop sz bs) else Inl Nullopt)"

definition ReadSize :: "nat reader" where
  "ReadSize bs = bind_result (Read 8 bs) (\<lambda>(v, bs). Inr (unat (LittleEndianToHost v :: 64 word), bs))"

definition ReadMarker :: "Marker reader" where
  "ReadMarker bs = bind_result (Read 1 bs)
    (\<lambda>(v, bs). case CastToMarker (hd v) of None \<Rightarrow> Inl Nullopt | Some m \<Rightarrow> Inr (m, bs))"

definition PeekMarker :: "byte list \<Rightarrow> dec_error + Marker" where
  "PeekMarker bs = bind_result (Read 1 bs)
    (\<lambda>(v, _). case CastToMarker (hd v) of None \<Rightarrow> Inl Nullopt | Some m \<Rightarrow> Inr m)"

text \<open>The recurring \<open>if (!marker || *marker != m) return std::nullopt\<close>.\<close>

definition ExpectMarker :: "Marker \<Rightarrow> unit reader" where
  "ExpectMarker m bs = bind_result (ReadMarker bs)
    (\<lambda>(m', bs). if m' = m then Inr ((), bs) else Inl Nullopt)"

definition ReadBool :: "bool reader" where
  "ReadBool bs = bind_result (ExpectMarker TYPE_BOOL bs) (\<lambda>(_, bs). bind_result (ReadMarker bs)
    (\<lambda>(v, bs). if v \<noteq> VALUE_FALSE \<and> v \<noteq> VALUE_TRUE then Inl Nullopt else Inr (v = VALUE_TRUE, bs)))"

definition ReadWord :: "64 word reader" where
  "ReadWord bs = bind_result (Read 8 bs) (\<lambda>(v, bs). Inr (LittleEndianToHost v, bs))"

definition ReadUint :: "64 word reader" where
  "ReadUint bs = bind_result (ExpectMarker TYPE_INT bs) (\<lambda>(_, bs). ReadWord bs)"

definition ReadDouble :: "64 word reader" where
  "ReadDouble bs = bind_result (ExpectMarker TYPE_DOUBLE bs) (\<lambda>(_, bs). ReadWord bs)"

definition ReadString :: "string_t reader" where
  "ReadString bs = bind_result (ExpectMarker TYPE_STRING bs) (\<lambda>(_, bs). bind_result (ReadSize bs)
    (\<lambda>(sz, bs). Read sz bs))"

definition ReadEnumValue :: "(64 word \<times> 64 word) reader" where
  "ReadEnumValue bs = bind_result (ExpectMarker TYPE_ENUM bs) (\<lambda>(_, bs). bind_result (ReadWord bs)
    (\<lambda>(etype, bs). bind_result (ReadWord bs) (\<lambda>(evalue, bs). Inr ((etype, evalue), bs))))"

definition ReadCrs :: "(CoordinateReferenceSystem \<Rightarrow> bool) \<Rightarrow> CoordinateReferenceSystem reader" where
  "ReadCrs valid bs = bind_result (ReadUint bs)
    (\<lambda>(srid, bs). case SridToCrs (ucast srid) of None \<Rightarrow> Inl Nullopt
       | Some crs \<Rightarrow> if valid crs then Inr (crs, bs) else Inl Nullopt)"

definition ReadPoint2dValue :: "(CoordinateReferenceSystem \<times> 64 word \<times> 64 word) reader" where
  "ReadPoint2dValue bs = bind_result (ExpectMarker TYPE_POINT_2D bs) (\<lambda>(_, bs).
     bind_result (ReadCrs valid2d bs) (\<lambda>(crs, bs). bind_result (ReadDouble bs) (\<lambda>(x, bs).
     bind_result (ReadDouble bs) (\<lambda>(y, bs). Inr ((crs, x, y), bs)))))"

definition ReadPoint3dValue :: "(CoordinateReferenceSystem \<times> 64 word \<times> 64 word \<times> 64 word) reader" where
  "ReadPoint3dValue bs = bind_result (ExpectMarker TYPE_POINT_3D bs) (\<lambda>(_, bs).
     bind_result (ReadCrs valid3d bs) (\<lambda>(crs, bs). bind_result (ReadDouble bs) (\<lambda>(x, bs).
     bind_result (ReadDouble bs) (\<lambda>(y, bs). bind_result (ReadDouble bs) (\<lambda>(z, bs).
     Inr ((crs, x, y, z), bs))))))"

definition ReadTemporalData :: "TemporalData reader" where
  "ReadTemporalData bs = bind_result (ExpectMarker TYPE_TEMPORAL_DATA bs) (\<lambda>(_, bs).
     bind_result (ReadUint bs) (\<lambda>(t, bs). bind_result (ReadUint bs) (\<lambda>(us, bs).
     Inr (\<lparr>td_type = ucast t, td_microseconds = us\<rparr>, bs))))"

text \<open>\<open>Timezone(std::chrono::minutes)\<close> throws beyond 18 hours.\<close>

definition MAX_OFFSET_MINUTES :: int where
  "MAX_OFFSET_MINUTES = 1080"

definition Timezone_of_offset :: "64 word \<Rightarrow> dec_error + Timezone" where
  "Timezone_of_offset offset =
    (if MAX_OFFSET_MINUTES < \<bar>sint offset\<bar> then Inl Exception else Inr (Tz_offset offset))"

definition Timezone_of_name :: "(string_t \<Rightarrow> string_t option) \<Rightarrow> string_t \<Rightarrow> dec_error + Timezone" where
  "Timezone_of_name locate_zone name =
    (case locate_zone name of None \<Rightarrow> Inl Exception | Some n \<Rightarrow> Inr (Tz_name n))"

definition ReadZonedTemporalData :: "(string_t \<Rightarrow> string_t option) \<Rightarrow> ZonedTemporalData reader" where
  "ReadZonedTemporalData locate_zone bs = bind_result (ExpectMarker TYPE_ZONED_TEMPORAL_DATA bs) (\<lambda>(_, bs).
     bind_result (ReadUint bs) (\<lambda>(t, bs). bind_result (ReadUint bs) (\<lambda>(us, bs).
     bind_result (PeekMarker bs) (\<lambda>marker.
       if marker = TYPE_STRING
       then bind_result (ReadString bs) (\<lambda>(name, bs). bind_result (Timezone_of_name locate_zone name)
              (\<lambda>tz. Inr (\<lparr>ztd_type = ucast t, ztd_microseconds = us, ztd_timezone = tz\<rparr>, bs)))
       else if marker = TYPE_INT
       then bind_result (ReadUint bs) (\<lambda>(offset, bs). bind_result (Timezone_of_offset offset)
              (\<lambda>tz. Inr (\<lparr>ztd_type = ucast t, ztd_microseconds = us, ztd_timezone = tz\<rparr>, bs)))
       else Inl Nullopt))))"

text \<open>The counted loops: \<open>read_times\<close> runs a reader \<open>n\<close> times and stops at the first failure.\<close>

primrec read_times :: "nat \<Rightarrow> 'a reader \<Rightarrow> 'a list reader" where
  "read_times 0 r bs = Inr ([], bs)"
| "read_times (Suc n) r bs = bind_result (r bs) (\<lambda>(x, bs). bind_result (read_times n r bs)
    (\<lambda>(xs, bs). Inr (x # xs, bs)))"

definition rmap :: "('a \<Rightarrow> 'b) \<Rightarrow> dec_error + ('a \<times> byte list) \<Rightarrow> dec_error + ('b \<times> byte list)" where
  "rmap f r = bind_result r (\<lambda>(x, bs). Inr (f x, bs))"

text \<open>One level of \<open>ReadExternalPropertyValue\<close>; \<open>rec\<close> reads the nested values.\<close>

definition ReadPV_step :: "(string_t \<Rightarrow> string_t option) \<Rightarrow> pv reader \<Rightarrow> pv reader" where
  "ReadPV_step locate_zone rec bs = bind_result (ExpectMarker TYPE_PROPERTY_VALUE bs) (\<lambda>(_, bs).
     bind_result (PeekMarker bs) (\<lambda>marker.
       if marker = TYPE_NULL then rmap (\<lambda>_. PV_Null) (ExpectMarker TYPE_NULL bs)
       else if marker = TYPE_BOOL then rmap PV_Bool (ReadBool bs)
       else if marker = TYPE_INT then rmap PV_Int (ReadUint bs)
       else if marker = TYPE_DOUBLE then rmap PV_Double (ReadDouble bs)
       else if marker = TYPE_STRING then rmap PV_String (ReadString bs)
       else if marker = TYPE_LIST
       then bind_result (ExpectMarker TYPE_LIST bs) (\<lambda>(_, bs). bind_result (ReadSize bs) (\<lambda>(sz, bs).
              bind_result (read_times sz rec bs) (\<lambda>(items, bs).
              case make_list items of None \<Rightarrow> Inl Exception | Some v \<Rightarrow> Inr (v, bs))))
       else if marker = TYPE_MAP
       then bind_result (ExpectMarker TYPE_MAP bs) (\<lambda>(_, bs). bind_result (ReadSize bs) (\<lambda>(sz, bs).
              rmap (\<lambda>kvs. PV_Map (fold (\<lambda>(k, v). flat_map_emplace k v) kvs []))
                (read_times sz (\<lambda>bs. bind_result (ReadString bs) (\<lambda>(k, bs). rmap (Pair k) (rec bs))) bs)))
       else if marker = TYPE_TEMPORAL_DATA then rmap PV_Temporal (ReadTemporalData bs)
       else if marker = TYPE_ZONED_TEMPORAL_DATA then rmap PV_Zoned (ReadZonedTemporalData locate_zone bs)
       else if marker = TYPE_ENUM then rmap (\<lambda>(t, v). PV_Enum t v) (ReadEnumValue bs)
       else if marker = TYPE_POINT_2D then rmap (\<lambda>(crs, x, y). PV_Point2d crs x y) (ReadPoint2dValue bs)
       else if marker = TYPE_POINT_3D then rmap (\<lambda>(crs, x, y, z). PV_Point3d crs x y z) (ReadPoint3dValue bs)
       else if marker = TYPE_VECTOR_INDEX_ID
       then bind_result (ExpectMarker TYPE_VECTOR_INDEX_ID bs) (\<lambda>(_, bs). bind_result (ReadSize bs) (\<lambda>(sz, bs).
              bind_result (read_times sz ReadString bs) (\<lambda>(ids, bs). bind_result (ReadSize bs) (\<lambda>(sz, bs).
              rmap (\<lambda>ds. PV_VectorIndexId ids (map double_to_float ds)) (read_times sz ReadDouble bs)))))
       else Inl Nullopt))"

primrec ReadPV_fuel :: "(string_t \<Rightarrow> string_t option) \<Rightarrow> nat \<Rightarrow> pv reader" where
  "ReadPV_fuel locate_zone 0 = (\<lambda>bs. Inl Out_of_fuel)"
| "ReadPV_fuel locate_zone (Suc n) = ReadPV_step locate_zone (ReadPV_fuel locate_zone n)"

text \<open>Every nested value starts with a marker, so one level of nesting per unread byte is enough.\<close>

definition ReadExternalPropertyValue :: "(string_t \<Rightarrow> string_t option) \<Rightarrow> pv reader" where
  "ReadExternalPropertyValue locate_zone bs = ReadPV_fuel locate_zone (length bs + 1) bs"

section \<open>Skipping\<close>

definition kBufferSize :: nat where
  "kBufferSize = 262144"

lemma kBufferSize_pos [simp]: "0 < kBufferSize"
  by (simp add: kBufferSize_def)

function SkipString_loop :: "nat \<Rightarrow> byte list \<Rightarrow> dec_error + byte list" where
  "SkipString_loop sz bs =
    (if 0 < sz
     then let to_read = (if sz < kBufferSize then sz else kBufferSize)
          in bind_result (Read to_read bs) (\<lambda>(_, bs). SkipString_loop (sz - to_read) bs)
     else Inr bs)"
  by pat_completeness auto
termination
  by (relation "measure fst") auto

declare SkipString_loop.simps [simp del]

definition SkipString :: "byte list \<Rightarrow> dec_error + byte list" where
  "SkipString bs = bind_result (ExpectMarker TYPE_STRING bs) (\<lambda>(_, bs). bind_result (ReadSize bs)
    (\<lambda>(sz, bs). SkipString_loop sz bs))"

primrec skip_times :: "nat \<Rightarrow> (byte list \<Rightarrow> dec_error + byte list) \<Rightarrow> byte list \<Rightarrow> dec_error + byte list" where
  "skip_times 0 skip bs = Inr bs"
| "skip_times (Suc n) skip bs = bind_result (skip bs) (\<lambda>bs. skip_times n skip bs)"

definition rest_of :: "dec_error + ('a \<times> byte list) \<Rightarrow> dec_error + byte list" where
  "rest_of r = bind_result r (\<lambda>(_, bs). Inr bs)"

definition SkipPV_step ::
  "(string_t \<Rightarrow> string_t option) \<Rightarrow> (byte list \<Rightarrow> dec_error + byte list) \<Rightarrow> byte list \<Rightarrow> dec_error + byte list" where
  "SkipPV_step locate_zone skip bs = bind_result (ExpectMarker TYPE_PROPERTY_VALUE bs) (\<lambda>(_, bs).
     bind_result (PeekMarker bs) (\<lambda>marker.
       if marker = TYPE_NULL then rest_of (ExpectMarker TYPE_NULL bs)
       else if marker = TYPE_BOOL then rest_of (ReadBool bs)
       else if marker = TYPE_INT then rest_of (ReadUint bs)
       else if marker = TYPE_DOUBLE then rest_of (ReadDouble bs)
       else if marker = TYPE_STRING then SkipString bs
       else if marker = TYPE_LIST
       then bind_result (ExpectMarker TYPE_LIST bs) (\<lambda>(_, bs). bind_result (ReadSize bs) (\<lambda>(sz, bs).
              skip_times sz skip bs))
       else if marker = TYPE_MAP
       then bind_result (ExpectMarker TYPE_MAP bs) (\<lambda>(_, bs). bind_result (ReadSize bs) (\<lambda>(sz, bs).
              skip_times sz (\<lambda>bs. bind_result (SkipString bs) skip) bs))
       else if marker = TYPE_TEMPORAL_DATA then rest_of (ReadTemporalData bs)
       else if marker = TYPE_ZONED_TEMPORAL_DATA then rest_of (ReadZonedTemporalData locate_zone bs)
       else if marker = TYPE_ENUM then rest_of (ReadEnumValue bs)
       else if marker = TYPE_POINT_2D then rest_of (ReadPoint2dValue bs)
       else if marker = TYPE_POINT_3D then rest_of (ReadPoint3dValue bs)
       else if marker = TYPE_VECTOR_INDEX_ID
       then bind_result (ExpectMarker TYPE_VECTOR_INDEX_ID bs) (\<lambda>(_, bs). bind_result (ReadSize bs) (\<lambda>(sz, bs).
              bind_result (skip_times sz SkipString bs) (\<lambda>bs. bind_result (ReadSize bs) (\<lambda>(sz, bs).
              skip_times sz (\<lambda>bs. rest_of (ReadDouble bs)) bs))))
       else Inl Nullopt))"

primrec SkipPV_fuel ::
  "(string_t \<Rightarrow> string_t option) \<Rightarrow> nat \<Rightarrow> byte list \<Rightarrow> dec_error + byte list" where
  "SkipPV_fuel locate_zone 0 = (\<lambda>bs. Inl Out_of_fuel)"
| "SkipPV_fuel locate_zone (Suc n) = SkipPV_step locate_zone (SkipPV_fuel locate_zone n)"

definition SkipExternalPropertyValue ::
  "(string_t \<Rightarrow> string_t option) \<Rightarrow> byte list \<Rightarrow> dec_error + byte list" where
  "SkipExternalPropertyValue locate_zone bs = SkipPV_fuel locate_zone (length bs + 1) bs"

section \<open>Fuel is never exhausted\<close>

text \<open>\<open>good_res k r\<close>: the result \<open>r\<close> is not the fuel error and leaves at most \<open>k\<close> bytes unread.\<close>

definition good_res :: "nat \<Rightarrow> dec_error + ('a \<times> byte list) \<Rightarrow> bool" where
  "good_res k r = (case r of Inl e \<Rightarrow> e \<noteq> Out_of_fuel | Inr (x, bs) \<Rightarrow> length bs \<le> k)"

named_theorems good_intros \<open>readers that consume input and never run out of fuel\<close>

lemma good_bind [good_intros]:
  assumes "good_res k r" and "\<And>x bs. length bs \<le> k \<Longrightarrow> good_res k (f x bs)"
  shows "good_res k (bind_result r (\<lambda>(x, bs). f x bs))"
  using assms by (cases r) (auto simp: good_res_def)

lemma good_mono: "good_res j r \<Longrightarrow> j \<le> k \<Longrightarrow> good_res k r"
  by (auto simp: good_res_def split: sum.splits)

lemma good_Inr [good_intros]: "length bs \<le> k \<Longrightarrow> good_res k (Inr (x, bs))"
  by (simp add: good_res_def)

lemma good_Inl [good_intros]: "e \<noteq> Out_of_fuel \<Longrightarrow> good_res k (Inl e)"
  by (simp add: good_res_def)

lemma good_rmap [good_intros]: "good_res k r \<Longrightarrow> good_res k (rmap f r)"
  unfolding rmap_def by (intro good_intros)

lemma good_Read [good_intros]: "length bs \<le> k \<Longrightarrow> good_res k (Read n bs)"
  by (auto simp: Read_def good_res_def)

lemma good_if [good_intros]: "(c \<Longrightarrow> good_res k a) \<Longrightarrow> (\<not> c \<Longrightarrow> good_res k b) \<Longrightarrow> good_res k (if c then a else b)"
  by simp

lemma good_option [good_intros]:
  "good_res k a \<Longrightarrow> (\<And>x. good_res k (f x)) \<Longrightarrow> good_res k (case opt of None \<Rightarrow> a | Some x \<Rightarrow> f x)"
  by (cases opt) auto

lemma good_ReadMarker: "length bs \<le> Suc k \<Longrightarrow> good_res k (ReadMarker bs)"
  by (auto simp: ReadMarker_def Read_def good_res_def split: option.splits)

lemma good_ExpectMarker: "length bs \<le> Suc k \<Longrightarrow> good_res k (ExpectMarker m bs)"
  unfolding ExpectMarker_def by (intro good_intros good_ReadMarker) auto

lemma good_Markers [good_intros]:
  "length bs \<le> k \<Longrightarrow> good_res k (ReadMarker bs)" "length bs \<le> k \<Longrightarrow> good_res k (ExpectMarker m bs)"
  by (auto intro: good_ReadMarker good_ExpectMarker)

lemma good_peek [good_intros]:
  "(\<And>m. good_res k (f m)) \<Longrightarrow> good_res k (bind_result (PeekMarker bs) f)"
  by (auto simp: PeekMarker_def Read_def good_res_def split: option.splits)

lemma good_basic [good_intros]:
  "length bs \<le> k \<Longrightarrow> good_res k (ReadSize bs)"
  "length bs \<le> k \<Longrightarrow> good_res k (ReadWord bs)"
  unfolding ReadSize_def ReadWord_def by (intro good_intros; simp)+

lemma good_scalar [good_intros]:
  "length bs \<le> k \<Longrightarrow> good_res k (ReadBool bs)"
  "length bs \<le> k \<Longrightarrow> good_res k (ReadUint bs)"
  "length bs \<le> k \<Longrightarrow> good_res k (ReadDouble bs)"
  "length bs \<le> k \<Longrightarrow> good_res k (ReadString bs)"
  "length bs \<le> k \<Longrightarrow> good_res k (ReadEnumValue bs)"
  unfolding ReadBool_def ReadUint_def ReadDouble_def ReadString_def ReadEnumValue_def
  by (intro good_intros; simp)+

lemma good_struct [good_intros]:
  "length bs \<le> k \<Longrightarrow> good_res k (ReadCrs p bs)"
  "length bs \<le> k \<Longrightarrow> good_res k (ReadTemporalData bs)"
  unfolding ReadCrs_def ReadTemporalData_def by (intro good_intros; simp)+

lemma good_points [good_intros]:
  "length bs \<le> k \<Longrightarrow> good_res k (ReadPoint2dValue bs)"
  "length bs \<le> k \<Longrightarrow> good_res k (ReadPoint3dValue bs)"
  unfolding ReadPoint2dValue_def ReadPoint3dValue_def by (intro good_intros; simp)+

lemma good_timezone [good_intros]:
  "(\<And>tz. good_res k (f tz)) \<Longrightarrow> good_res k (bind_result (Timezone_of_name locate_zone name) f)"
  "(\<And>tz. good_res k (f tz)) \<Longrightarrow> good_res k (bind_result (Timezone_of_offset off) f)"
  by (auto simp: Timezone_of_name_def Timezone_of_offset_def good_res_def split: option.splits)

lemma good_zoned [good_intros]: "length bs \<le> k \<Longrightarrow> good_res k (ReadZonedTemporalData locate_zone bs)"
  unfolding ReadZonedTemporalData_def by (intro good_intros; simp)

lemma good_read_times [good_intros]:
  assumes "\<And>bs. length bs \<le> k \<Longrightarrow> good_res k (r bs)" and "length bs \<le> k"
  shows "good_res k (read_times n r bs)"
  using assms(2) by (induction n arbitrary: bs) (auto intro!: good_intros assms(1))

lemma good_ReadPV_step:
  assumes "\<And>bs. length bs \<le> k \<Longrightarrow> good_res k (rec bs)" and "length bs \<le> Suc k"
  shows "good_res k (ReadPV_step locate_zone rec bs)"
  unfolding ReadPV_step_def
  by (intro good_intros good_ExpectMarker assms; (assumption | simp)?)

lemma good_ReadPV_fuel: "length bs \<le> k \<Longrightarrow> k < n \<Longrightarrow> good_res k (ReadPV_fuel locate_zone n bs)"
proof (induction n arbitrary: k bs)
  case (Suc n)
  show ?case
  proof (cases k)
    case 0
    then show ?thesis
      using Suc.prems by (simp add: ReadPV_step_def ExpectMarker_def ReadMarker_def Read_def good_res_def)
  next
    case (Suc j)
    have "good_res j (ReadPV_step locate_zone (ReadPV_fuel locate_zone n) bs)"
      by (rule good_ReadPV_step) (use Suc Suc.prems Suc.IH in auto)
    then show ?thesis
      using Suc good_mono[of j _ k] by simp
  qed
qed simp

text \<open>More fuel only replaces the fuel error.\<close>

definition less_fuel :: "dec_error + 'a \<Rightarrow> dec_error + 'a \<Rightarrow> bool" where
  "less_fuel a b \<longleftrightarrow> a = Inl Out_of_fuel \<or> a = b"

named_theorems fuel_intros \<open>monotonicity in the fuel\<close>

lemma less_fuel_refl [fuel_intros]: "less_fuel a a"
  by (simp add: less_fuel_def)

lemma less_fuel_bind [fuel_intros]:
  "less_fuel a b \<Longrightarrow> (\<And>x bs. less_fuel (f x bs) (g x bs)) \<Longrightarrow>
   less_fuel (bind_result a (\<lambda>(x, bs). f x bs)) (bind_result b (\<lambda>(x, bs). g x bs))"
  by (cases b) (fastforce simp: less_fuel_def split: prod.splits)+

lemma less_fuel_bind1 [fuel_intros]:
  "(\<And>x. less_fuel (f x) (g x)) \<Longrightarrow> less_fuel (bind_result a f) (bind_result a g)"
  by (cases a) (auto simp: less_fuel_def)

lemma less_fuel_if [fuel_intros]:
  "(c \<Longrightarrow> less_fuel a a') \<Longrightarrow> (\<not> c \<Longrightarrow> less_fuel b b') \<Longrightarrow> less_fuel (if c then a else b) (if c then a' else b')"
  by simp

lemma less_fuel_rmap [fuel_intros]: "less_fuel a b \<Longrightarrow> less_fuel (rmap f a) (rmap f b)"
  unfolding rmap_def by (intro fuel_intros)

lemma less_fuel_times [fuel_intros]:
  "(\<And>bs. less_fuel (r bs) (r' bs)) \<Longrightarrow> less_fuel (read_times n r bs) (read_times n r' bs)"
  by (induction n arbitrary: bs) (auto intro!: fuel_intros)

lemma less_fuel_step:
  "(\<And>bs. less_fuel (r bs) (r' bs)) \<Longrightarrow> less_fuel (ReadPV_step locate_zone r bs) (ReadPV_step locate_zone r' bs)"
  unfolding ReadPV_step_def by (intro fuel_intros)

lemma less_fuel_Suc: "less_fuel (ReadPV_fuel locate_zone n bs) (ReadPV_fuel locate_zone (Suc n) bs)"
  by (induction n arbitrary: bs) (auto intro!: less_fuel_step simp: less_fuel_def[of "Inl Out_of_fuel"])

lemma less_fuel_mono: "n \<le> m \<Longrightarrow> less_fuel (ReadPV_fuel locate_zone n bs) (ReadPV_fuel locate_zone m bs)"
proof (induction rule: dec_induct)
  case (step m)
  then show ?case
    using less_fuel_Suc[of locate_zone m bs] by (auto simp: less_fuel_def)
qed (rule less_fuel_refl)

lemma ReadPV_fuel_enough:
  assumes "length bs < n"
  shows "ReadPV_fuel locate_zone n bs = ReadExternalPropertyValue locate_zone bs"
proof -
  have "good_res (length bs) (ReadPV_fuel locate_zone (length bs + 1) bs)"
    by (rule good_ReadPV_fuel) simp_all
  then show ?thesis
    using less_fuel_mono[of "length bs + 1" n locate_zone bs] assms
    by (auto simp: ReadExternalPropertyValue_def less_fuel_def good_res_def)
qed

lemma ReadExternalPropertyValue_good:
  "length bs \<le> k \<Longrightarrow> good_res k (ReadExternalPropertyValue locate_zone bs)"
  unfolding ReadExternalPropertyValue_def
  by (rule good_mono[OF good_ReadPV_fuel[OF order_refl]]) auto

text \<open>The recursion equation of the source, without fuel.\<close>

lemma ReadExternalPropertyValue_unfold:
  "ReadExternalPropertyValue locate_zone bs =
   ReadPV_step locate_zone (ReadExternalPropertyValue locate_zone) bs"
proof -
  have "less_fuel (ReadPV_fuel locate_zone n bs') (ReadExternalPropertyValue locate_zone bs')" for n bs'
  proof (cases "length bs' < n")
    case True
    then show ?thesis
      by (simp add: ReadPV_fuel_enough less_fuel_refl)
  next
    case False
    then show ?thesis
      unfolding ReadExternalPropertyValue_def by (intro less_fuel_mono) simp
  qed
  then have "less_fuel (ReadPV_fuel locate_zone (length bs + 1) bs)
      (ReadPV_step locate_zone (ReadExternalPropertyValue locate_zone) bs)"
    by (simp add: less_fuel_step)
  then show ?thesis
    using ReadExternalPropertyValue_good[of bs "length bs" locate_zone]
    by (auto simp: ReadExternalPropertyValue_def less_fuel_def good_res_def)
qed

section \<open>Codecs\<close>

text \<open>The contract between an encoder operation and the decoder operation for it: what
  was written is read back, up to a normalisation, and exactly the written bytes are consumed.\<close>

locale codec_upto =
  fixes enc :: "'a \<Rightarrow> byte list" and dec :: "'b reader" and ok :: "'a \<Rightarrow> bool" and norm :: "'a \<Rightarrow> 'b"
  assumes dec_enc: "ok x \<Longrightarrow> dec (enc x @ rest) = Inr (norm x, rest)"
begin

lemma dec_enc_list:
  "list_all ok xs \<Longrightarrow> read_times (length xs) dec (concat (map enc xs) @ rest) = Inr (map norm xs, rest)"
  by (induction xs) (simp_all add: dec_enc)

lemma dec_enc_only: "ok x \<Longrightarrow> dec (enc x) = Inr (norm x, [])"
  using dec_enc[of x "[]"] by simp

text \<open>Encodings are prefix-free up to the normalisation.\<close>

lemma enc_prefix_free:
  assumes "ok x" and "ok y" and "enc x @ r = enc y @ s"
  shows "norm x = norm y \<and> r = s"
  using dec_enc[OF assms(1), of r] dec_enc[OF assms(2), of s] assms(3) by simp

end

locale codec = codec_upto enc dec ok "\<lambda>x. x" for enc :: "'a \<Rightarrow> byte list" and dec ok
begin

lemma enc_injective: "ok x \<Longrightarrow> ok y \<Longrightarrow> enc x = enc y \<Longrightarrow> x = y"
  using enc_prefix_free[of x y "[]" "[]"] by simp

end

lemma ReadMarker_written [simp]:
  "ReadMarker (WriteMarker m @ rest) = Inr (m, rest)" "PeekMarker (WriteMarker m @ rest) = Inr m"
  by (simp_all add: ReadMarker_def PeekMarker_def WriteMarker_def Read_def)

lemma ExpectMarker_written [simp]:
  "ExpectMarker m' (WriteMarker m @ rest) = (if m = m' then Inr ((), rest) else Inl Nullopt)"
  by (simp add: ExpectMarker_def)

definition size_ok :: "nat \<Rightarrow> bool" where
  "size_ok n \<longleftrightarrow> n < 2 ^ 64"

lemma ReadSize_written [simp]: "size_ok n \<Longrightarrow> ReadSize (WriteSize n @ rest) = Inr (n, rest)"
  by (simp add: ReadSize_def WriteSize_def Read_def size_ok_def unsigned_of_nat take_bit_nat_eq_self)

lemma ReadWord_written [simp]: "ReadWord (HostToLittleEndian 8 (w :: 64 word) @ rest) = Inr (w, rest)"
  by (simp add: ReadWord_def Read_def)

interpretation bool: codec WriteBool ReadBool "\<lambda>_. True"
  by unfold_locales (simp add: ReadBool_def WriteBool_def)

interpretation uint: codec WriteUint ReadUint "\<lambda>_. True"
  by unfold_locales (simp add: ReadUint_def WriteUint_def)

interpretation double: codec WriteDouble ReadDouble "\<lambda>_. True"
  by unfold_locales (simp add: ReadDouble_def WriteDouble_def)

definition string_ok :: "string_t \<Rightarrow> bool" where
  "string_ok s \<longleftrightarrow> size_ok (length s)"

interpretation str: codec WriteString ReadString string_ok
  by unfold_locales (simp add: ReadString_def WriteString_def string_ok_def Read_def)

interpretation enum: codec "\<lambda>(t, v). WriteEnum t v" ReadEnumValue "\<lambda>_. True"
  by unfold_locales (auto simp: ReadEnumValue_def WriteEnum_def)

lemma SridToCrs_CrsToSrid: "SridToCrs (CrsToSrid crs) = Some crs"
  by (cases crs) (simp_all add: SridToCrs_def CrsToSrid_def)

lemma ReadCrs_written:
  "valid crs \<Longrightarrow> ReadCrs valid (WriteUint (ucast (CrsToSrid crs)) @ rest) = Inr (crs, rest)"
  by (simp add: ReadCrs_def uint.dec_enc SridToCrs_CrsToSrid ucast_up_down)

interpretation point2d: codec "\<lambda>(crs, x, y). WritePoint2d crs x y" ReadPoint2dValue "\<lambda>(crs, x, y). valid2d crs"
  by unfold_locales (auto simp: ReadPoint2dValue_def WritePoint2d_def ReadCrs_written double.dec_enc)

interpretation point3d: codec "\<lambda>(crs, x, y, z). WritePoint3d crs x y z" ReadPoint3dValue "\<lambda>(crs, x, y, z). valid3d crs"
  by unfold_locales (auto simp: ReadPoint3dValue_def WritePoint3d_def ReadCrs_written double.dec_enc)

interpretation temporal: codec WriteTemporal ReadTemporalData "\<lambda>_. True"
  by unfold_locales (simp add: ReadTemporalData_def WriteTemporal_def uint.dec_enc ucast_up_down)

fun timezone_ok :: "(string_t \<Rightarrow> string_t option) \<Rightarrow> Timezone \<Rightarrow> bool" where
  "timezone_ok locate_zone (Tz_offset off) \<longleftrightarrow> \<bar>sint off\<bar> \<le> MAX_OFFSET_MINUTES"
| "timezone_ok locate_zone (Tz_name n) \<longleftrightarrow> string_ok n \<and> locate_zone n = Some n"

lemma PeekMarker_written [simp]:
  "PeekMarker (WriteUint w @ rest) = Inr TYPE_INT" "PeekMarker (WriteString s @ rest) = Inr TYPE_STRING"
  "PeekMarker (WriteDouble w @ rest) = Inr TYPE_DOUBLE" "PeekMarker (WriteBool b @ rest) = Inr TYPE_BOOL"
  by (simp_all add: WriteUint_def WriteString_def WriteDouble_def WriteBool_def)

interpretation zoned: codec WriteZoned "ReadZonedTemporalData locate_zone"
  "\<lambda>ztd. timezone_ok locate_zone (ztd_timezone ztd)" for locate_zone
proof unfold_locales
  fix ztd :: ZonedTemporalData and rest
  assume "timezone_ok locate_zone (ztd_timezone ztd)"
  then show "ReadZonedTemporalData locate_zone (WriteZoned ztd @ rest) = Inr (ztd, rest)"
    by (cases ztd; cases "ztd_timezone ztd") (auto simp: ReadZonedTemporalData_def WriteZoned_def
        uint.dec_enc str.dec_enc Timezone_of_name_def Timezone_of_offset_def ucast_up_down)
qed

section \<open>Round trip of property values\<close>

text \<open>Values the encoder accepts: sizes fit 64 bits, maps are sorted as \<open>flat_map\<close> keeps them,
  points carry a system of their dimension, a named zone is the canonical name of a zone of the
  database, and no component of a vector is a signalling NaN.\<close>

fun pv_ok :: "(string_t \<Rightarrow> string_t option) \<Rightarrow> pv \<Rightarrow> bool" where
  "pv_ok locate_zone (PV_String s) = string_ok s"
| "pv_ok locate_zone (PV_List vs) = (size_ok (length vs) \<and> (\<forall>v \<in> set vs. pv_ok locate_zone v))"
| "pv_ok locate_zone (PV_Map kvs) = (size_ok (length kvs) \<and> flat_map_sorted kvs \<and>
    (\<forall>(k, v) \<in> set kvs. string_ok k \<and> pv_ok locate_zone v))"
| "pv_ok locate_zone (PV_Zoned ztd) = timezone_ok locate_zone (ztd_timezone ztd)"
| "pv_ok locate_zone (PV_Point2d crs x y) = valid2d crs"
| "pv_ok locate_zone (PV_Point3d crs x y z) = valid3d crs"
| "pv_ok locate_zone (PV_IntList xs) = size_ok (length xs)"
| "pv_ok locate_zone (PV_DoubleList xs) = size_ok (length xs)"
| "pv_ok locate_zone (PV_NumericList xs) = size_ok (length xs)"
| "pv_ok locate_zone (PV_VectorIndexId ids vec) = (size_ok (length ids) \<and> list_all string_ok ids \<and>
    size_ok (length vec) \<and> list_all (\<lambda>f. \<not> signalling f) vec)"
| "pv_ok locate_zone _ = True"

fun numeric_pv :: "numeric \<Rightarrow> pv" where
  "numeric_pv (Num_int i) = PV_Int (scast i)"
| "numeric_pv (Num_double d) = PV_Double d"

text \<open>What the decoder makes of a value: the list representations are chosen anew.\<close>

fun norm_pv :: "pv \<Rightarrow> pv" where
  "norm_pv (PV_List vs) = the (make_list (map norm_pv vs))"
| "norm_pv (PV_Map kvs) = PV_Map (map (\<lambda>(k, v). (k, norm_pv v)) kvs)"
| "norm_pv (PV_DoubleList ds) = the (make_list (map PV_Double ds))"
| "norm_pv (PV_NumericList ns) = the (make_list (map numeric_pv ns))"
| "norm_pv v = v"

lemma read_times_each:
  assumes "\<And>x rest. x \<in> set xs \<Longrightarrow> r (w x @ rest) = Inr (n x, rest)"
  shows "read_times (length xs) r (concat (map w xs) @ rest) = Inr (map n xs, rest)"
proof -
  have "codec_upto w r (\<lambda>x. x \<in> set xs) n"
    by unfold_locales (rule assms)
  then show ?thesis
    by (rule codec_upto.dec_enc_list) (simp add: list_all_iff)
qed

lemma make_list_ints: "make_list (map (\<lambda>i. PV_Int (scast i)) ints) = Some (PV_IntList ints)"
proof -
  have "IntListTag (map (\<lambda>i. PV_Int (scast i)) ints) = Some ints"
    by (induction ints) (simp_all add: ucast_scast_down)
  then show ?thesis
    by (simp add: make_list_def list_all_iff IsInt_def)
qed

lemma fold_emplace_sorted:
  "flat_map_sorted (acc @ kvs) \<Longrightarrow> fold (\<lambda>(k, v). flat_map_emplace k v) kvs acc = acc @ kvs"
proof (induction kvs arbitrary: acc)
  case (Cons kv kvs)
  obtain k v where "kv = (k, v)"
    by fastforce
  then have "flat_map_emplace k v acc = acc @ [(k, v)]"
    using Cons.prems by (intro flat_map_emplace_last) (simp add: flat_map_sorted_def sorted_wrt_append)
  then show ?case
    using Cons \<open>kv = (k, v)\<close> by simp
qed simp

lemmas read_pv_simps =
  ReadPV_step_def rmap_def bool.dec_enc uint.dec_enc double.dec_enc str.dec_enc temporal.dec_enc zoned.dec_enc

lemma ReadPV_step_list:
  assumes "size_ok (length xs)" and "\<And>x rest. x \<in> set xs \<Longrightarrow> rec (w x @ rest) = Inr (n x, rest)"
  shows "ReadPV_step locate_zone rec (WriteMarker TYPE_PROPERTY_VALUE @ WriteMarker TYPE_LIST @
      WriteSize (length xs) @ concat (map w xs) @ rest) = Inr (the (make_list (map n xs)), rest)"
  using read_times_each[of xs rec w n rest, OF assms(2)] assms(1) make_list_total[of "map n xs"]
  by (auto simp: ReadPV_step_def)

lemma ReadPV_int: "ReadExternalPropertyValue locate_zone (WriteMarker TYPE_PROPERTY_VALUE @ WriteUint i @ rest) = Inr (PV_Int i, rest)"
  by (subst ReadExternalPropertyValue_unfold) (simp add: read_pv_simps)

lemma ReadPV_double: "ReadExternalPropertyValue locate_zone (WriteMarker TYPE_PROPERTY_VALUE @ WriteDouble d @ rest) = Inr (PV_Double d, rest)"
  by (subst ReadExternalPropertyValue_unfold) (simp add: read_pv_simps)

lemma ReadPV_numeric: "ReadExternalPropertyValue locate_zone (WriteMarker TYPE_PROPERTY_VALUE @ WriteNumeric n @ rest) = Inr (numeric_pv n, rest)"
  by (cases n) (simp_all add: ReadPV_int ReadPV_double)

lemma PeekMarker_struct [simp]:
  "PeekMarker (WriteEnum t v @ rest) = Inr TYPE_ENUM" "PeekMarker (WriteTemporal td @ rest) = Inr TYPE_TEMPORAL_DATA"
  "PeekMarker (WriteZoned ztd @ rest) = Inr TYPE_ZONED_TEMPORAL_DATA"
  "PeekMarker (WritePoint2d crs x y @ rest) = Inr TYPE_POINT_2D"
  "PeekMarker (WritePoint3d crs x y z @ rest) = Inr TYPE_POINT_3D"
  by (simp_all add: WriteEnum_def WriteTemporal_def WriteZoned_def WritePoint2d_def WritePoint3d_def)

lemma ReadPV_map:
  assumes "size_ok (length kvs)" and "flat_map_sorted kvs"
    and "\<And>k v rest. (k, v) \<in> set kvs \<Longrightarrow> string_ok k \<and> rec (w v @ rest) = Inr (n v, rest)"
  shows "ReadPV_step locate_zone rec (WriteMarker TYPE_PROPERTY_VALUE @ WriteMarker TYPE_MAP @
      WriteSize (length kvs) @ concat (map (\<lambda>(k, v). WriteString k @ w v) kvs) @ rest) =
    Inr (PV_Map (map (\<lambda>(k, v). (k, n v)) kvs), rest)"
proof -
  have "read_times (length kvs) (\<lambda>bs. bind_result (ReadString bs) (\<lambda>(k, bs). rmap (Pair k) (rec bs)))
      (concat (map (\<lambda>(k, v). WriteString k @ w v) kvs) @ rest) = Inr (map (\<lambda>(k, v). (k, n v)) kvs, rest)"
    by (rule read_times_each) (use assms(3) in \<open>auto simp: str.dec_enc rmap_def\<close>)
  moreover have "flat_map_sorted (map (\<lambda>(k, v). (k, n v)) kvs)"
    using assms(2) by (simp add: flat_map_sorted_def comp_def case_prod_beta)
  ultimately show ?thesis
    using assms(1) fold_emplace_sorted[of "[]" "map (\<lambda>(k, v). (k, n v)) kvs"]
    by (simp add: ReadPV_step_def rmap_def)
qed

lemma ReadPV_vector:
  assumes "pv_ok locate_zone (PV_VectorIndexId ids vec)"
  shows "ReadPV_step locate_zone rec (WriteExternalPropertyValue (PV_VectorIndexId ids vec) @ rest) =
    Inr (PV_VectorIndexId ids vec, rest)"
proof -
  have "read_times (length vec) ReadDouble (concat (map (\<lambda>f. WriteDouble (float_to_double f)) vec) @ rest) =
      Inr (map float_to_double vec, rest)"
    by (rule read_times_each) (simp add: double.dec_enc)
  moreover have "map double_to_float (map float_to_double vec) = vec"
    using assms by (intro nth_equalityI) (auto simp: list_all_length double_to_float_float_to_double)
  ultimately show ?thesis
    using assms str.dec_enc_list by (simp add: ReadPV_step_def rmap_def)
qed

lemma Read_Write_pv:
  "pv_ok locate_zone v \<Longrightarrow>
   ReadExternalPropertyValue locate_zone (WriteExternalPropertyValue v @ rest) = Inr (norm_pv v, rest)"
proof (induction v arbitrary: rest)
  case (PV_List vs)
  then show ?case
    by (subst ReadExternalPropertyValue_unfold) (simp add: ReadPV_step_list)
next
  case (PV_Map kvs)
  then show ?case
    by (subst ReadExternalPropertyValue_unfold) (fastforce intro: ReadPV_map)
next
  case (PV_IntList ints)
  then show ?case
    using ReadPV_step_list[of ints _ "\<lambda>i. WriteMarker TYPE_PROPERTY_VALUE @ WriteUint (scast i)" "\<lambda>i. PV_Int (scast i)"]
    by (subst ReadExternalPropertyValue_unfold) (simp add: ReadPV_int make_list_ints)
next
  case (PV_DoubleList ds)
  then show ?case
    using ReadPV_step_list[of ds _ "\<lambda>d. WriteMarker TYPE_PROPERTY_VALUE @ WriteDouble d" PV_Double]
    by (subst ReadExternalPropertyValue_unfold) (simp add: ReadPV_double)
next
  case (PV_NumericList ns)
  then show ?case
    using ReadPV_step_list[of ns _ "\<lambda>n. WriteMarker TYPE_PROPERTY_VALUE @ WriteNumeric n" numeric_pv]
    by (subst ReadExternalPropertyValue_unfold) (simp add: ReadPV_numeric)
next
  case (PV_VectorIndexId ids vec)
  then show ?case
    by (subst ReadExternalPropertyValue_unfold) (simp add: ReadPV_vector del: pv_ok.simps WriteExternalPropertyValue.simps)
next
  case (PV_Enum t v)
  then show ?case
    using enum.dec_enc[of "(t, v)"] by (subst ReadExternalPropertyValue_unfold) (simp add: read_pv_simps)
next
  case (PV_Point2d crs x y)
  then show ?case
    using point2d.dec_enc[of "(crs, x, y)"] by (subst ReadExternalPropertyValue_unfold) (simp add: read_pv_simps)
next
  case (PV_Point3d crs x y z)
  then show ?case
    using point3d.dec_enc[of "(crs, x, y, z)"] by (subst ReadExternalPropertyValue_unfold) (simp add: read_pv_simps)
qed (subst ReadExternalPropertyValue_unfold; simp add: read_pv_simps)+

text \<open>Values whose lists already have the representation the decoder would choose; the
  conversion of query values makes only such lists.\<close>

fun canonical :: "pv \<Rightarrow> bool" where
  "canonical (PV_List vs) \<longleftrightarrow> \<not> list_all IsNumeric vs \<and> (\<forall>v \<in> set vs. canonical v)"
| "canonical (PV_Map kvs) \<longleftrightarrow> (\<forall>(k, v) \<in> set kvs. canonical v)"
| "canonical (PV_DoubleList ds) \<longleftrightarrow> ds \<noteq> []"
| "canonical (PV_NumericList ns) \<longleftrightarrow> (\<exists>i. Num_int i \<in> set ns) \<and> (\<exists>d. Num_double d \<in> set ns)"
| "canonical _ \<longleftrightarrow> True"

lemma make_list_doubles: "ds \<noteq> [] \<Longrightarrow> make_list (map PV_Double ds) = Some (PV_DoubleList ds)"
proof -
  have "DoubleListTag (map PV_Double ds) = Some ds"
    by (induction ds) simp_all
  then show "ds \<noteq> [] \<Longrightarrow> ?thesis"
    by (cases ds) (simp_all add: make_list_def list_all_iff IsInt_def IsDouble_def)
qed

lemma make_list_numerics:
  assumes "Num_int i \<in> set ns" and "Num_double d \<in> set ns"
  shows "make_list (map numeric_pv ns) = Some (PV_NumericList ns)"
proof -
  have "NumericListTag (map numeric_pv ns) = Some ns"
  proof (induction ns)
    case (Cons n ns)
    then show ?case
      by (cases n) (simp_all add: ucast_scast_down)
  qed simp
  moreover have "IsNumeric (numeric_pv n)" for n
    by (cases n) (simp_all add: IsNumeric_def IsInt_def IsDouble_def)
  moreover have "\<not> list_all IsInt (map numeric_pv ns)" "\<not> list_all IsDouble (map numeric_pv ns)"
    using assms by (force simp: list_all_iff IsInt_def IsDouble_def)+
  ultimately show ?thesis
    by (simp add: make_list_def list_all_iff)
qed

lemma make_list_other:
  assumes "\<not> list_all IsNumeric vs"
  shows "make_list vs = Some (PV_List vs)"
proof -
  have "\<not> list_all IsInt vs" "\<not> list_all IsDouble vs"
    using assms by (auto simp: list_all_iff IsNumeric_def)
  then show ?thesis
    using assms by (simp add: make_list_def)
qed

lemma canonical_norm: "canonical v \<Longrightarrow> norm_pv v = v"
proof (induction v)
  case (PV_List vs)
  then have "map norm_pv vs = vs"
    by (simp add: map_idI)
  then show ?case
    using PV_List.prems by (simp add: make_list_other)
next
  case (PV_Map kvs)
  then have "map (\<lambda>(k, v). (k, norm_pv v)) kvs = kvs"
    by (intro map_idI) fastforce
  then show ?case
    by simp
next
  case (PV_NumericList ns)
  then show ?case
    using make_list_numerics by fastforce
qed (simp_all add: make_list_doubles)

lemma make_list_canonical:
  assumes "make_list vs = Some v" and "\<forall>v \<in> set vs. canonical v"
  shows "canonical v"
proof -
  have num_int: "\<exists>i. Num_int i \<in> set ns" if "NumericListTag vs = Some ns" "u \<in> set vs" "IsInt u" for vs ns u
    using that by (induction vs arbitrary: ns rule: NumericListTag.induct) (auto simp: IsInt_def)
  have num_double: "\<exists>d. Num_double d \<in> set ns" if "NumericListTag vs = Some ns" "u \<in> set vs" "IsDouble u" for vs ns u
    using that by (induction vs arbitrary: ns rule: NumericListTag.induct) (auto simp: IsDouble_def)
  consider "list_all IsInt vs" | "\<not> list_all IsInt vs" "list_all IsDouble vs"
    | "\<not> list_all IsInt vs" "\<not> list_all IsDouble vs" "list_all IsNumeric vs" | "\<not> list_all IsNumeric vs"
    by blast
  then show ?thesis
  proof cases
    case 1
    then show ?thesis
      using assms(1) by (auto simp: make_list_def)
  next
    case 2
    then have "vs \<noteq> []"
      by auto
    then have "ds \<noteq> []" if "DoubleListTag vs = Some ds" for ds
      using that by (induction vs rule: DoubleListTag.induct) auto
    then show ?thesis
      using assms(1) 2 by (auto simp: make_list_def)
  next
    case 3
    obtain ns where ns: "NumericListTag vs = Some ns" "v = PV_NumericList ns"
      using assms(1) 3 by (auto simp: make_list_def)
    obtain u w where "u \<in> set vs" "\<not> IsInt u" "w \<in> set vs" "\<not> IsDouble w"
      using 3(1,2) by (auto simp: list_all_iff)
    then have "IsDouble u" "IsInt w"
      using 3(3) by (auto simp: list_all_iff IsNumeric_def)
    then show ?thesis
      using num_int[OF ns(1) \<open>w \<in> set vs\<close>] num_double[OF ns(1) \<open>u \<in> set vs\<close>] ns(2) by simp
  next
    case 4
    then show ?thesis
      using assms make_list_other[OF 4] by auto
  qed
qed

section \<open>Skipping agrees with reading\<close>

lemma rest_of_bind: "rest_of (bind_result r (\<lambda>(x, bs). f x bs)) = bind_result r (\<lambda>(x, bs). rest_of (f x bs))"
  by (cases r) (auto simp: rest_of_def)

lemma rest_of_peek: "rest_of (bind_result (PeekMarker bs) f) = bind_result (PeekMarker bs) (\<lambda>m. rest_of (f m))"
  by (cases "PeekMarker bs") (auto simp: rest_of_def)

lemma rest_of_rmap [simp]: "rest_of (rmap f r) = rest_of r"
  by (cases r) (auto simp: rest_of_def rmap_def)

lemma SkipString_loop_Read: "SkipString_loop sz bs = rest_of (Read sz bs)"
proof (induction sz bs rule: SkipString_loop.induct)
  case (1 sz bs)
  define to_read where "to_read = (if sz < kBufferSize then sz else kBufferSize)"
  have le: "to_read \<le> sz" and pos: "0 < sz \<Longrightarrow> 0 < to_read"
    by (auto simp: to_read_def)
  show ?case
  proof (cases "0 < sz")
    case True
    have "SkipString_loop sz bs = bind_result (Read to_read bs) (\<lambda>(_, bs). SkipString_loop (sz - to_read) bs)"
      using True by (subst SkipString_loop.simps) (simp add: to_read_def Let_def)
    then show ?thesis
      using 1[OF True to_read_def] le by (auto simp: Read_def rest_of_def)
  next
    case False
    then show ?thesis
      by (subst SkipString_loop.simps) (simp add: Read_def rest_of_def)
  qed
qed

lemma SkipString_Read: "SkipString bs = rest_of (ReadString bs)"
  by (simp add: SkipString_def ReadString_def SkipString_loop_Read rest_of_bind)

lemma skip_times_read_times:
  assumes "\<And>bs. skip bs = rest_of (r bs)"
  shows "skip_times n skip bs = rest_of (read_times n r bs)"
proof (induction n arbitrary: bs)
  case (Suc n)
  show ?case
  proof (cases "r bs")
    case (Inr p)
    obtain x b where "p = (x, b)"
      by fastforce
    then show ?thesis
      using Inr Suc.IH[of b] assms[of bs] rest_of_rmap[of "(#) x" "read_times n r b"]
      by (simp add: rmap_def rest_of_def)
  qed (simp add: assms rest_of_def)
qed (simp add: rest_of_def)

lemma rest_of_if: "rest_of (if c then a else b) = (if c then rest_of a else rest_of b)"
  by simp

lemma rest_of_Inl [simp]: "rest_of (Inl e) = Inl e"
  by (simp add: rest_of_def)

lemma rest_of_list: "bind_result r (\<lambda>(items, bs).
    rest_of (case make_list items of None \<Rightarrow> Inl Exception | Some v \<Rightarrow> Inr (v, bs))) = rest_of r"
proof (cases r)
  case (Inr p)
  then show ?thesis
    using make_list_total[of "fst p"] by (cases p) (auto simp: rest_of_def)
qed simp

lemma bind_rest_of: "bind_result (rest_of r) f = bind_result r (\<lambda>(x, bs). f bs)"
  by (cases r) (auto simp: rest_of_def)

lemma SkipPV_step_ReadPV_step:
  assumes "\<And>bs. skip bs = rest_of (rec bs)"
  shows "SkipPV_step locate_zone skip bs = rest_of (ReadPV_step locate_zone rec bs)"
proof -
  have pair: "bind_result (SkipString bs) skip =
      rest_of (bind_result (ReadString bs) (\<lambda>(k, bs). rmap (Pair k) (rec bs)))" for bs
    by (cases "ReadString bs") (auto simp: SkipString_Read assms rest_of_bind bind_rest_of)
  have times:
    "skip_times n skip bs = rest_of (read_times n rec bs)"
    "skip_times n (\<lambda>bs. bind_result (SkipString bs) skip) bs =
      rest_of (read_times n (\<lambda>bs. bind_result (ReadString bs) (\<lambda>(k, bs). rmap (Pair k) (rec bs))) bs)"
    "skip_times n SkipString bs = rest_of (read_times n ReadString bs)"
    "skip_times n (\<lambda>bs. rest_of (ReadDouble bs)) bs = rest_of (read_times n ReadDouble bs)" for n bs
    by (rule skip_times_read_times, (rule assms | rule pair | rule SkipString_Read | rule refl))+
  show ?thesis
    unfolding SkipPV_step_def ReadPV_step_def times
    by (simp only: rest_of_bind rest_of_peek rest_of_if rest_of_rmap rest_of_Inl SkipString_Read
        bind_rest_of rest_of_list)
qed

lemma SkipPV_fuel_ReadPV_fuel: "SkipPV_fuel locate_zone n bs = rest_of (ReadPV_fuel locate_zone n bs)"
  by (induction n arbitrary: bs) (simp_all add: SkipPV_step_ReadPV_step)

section \<open>Properties\<close>

text \<open>C16: Reading back a written property value yields the same value and consumes exactly the
  bytes written, whatever follows, for every value in the representation the query layer produces.\<close>

theorem property_value_round_trip:
  assumes "pv_ok locate_zone v" and "canonical v"
  shows "ReadExternalPropertyValue locate_zone (WriteExternalPropertyValue v @ rest) = Inr (v, rest)"
  using Read_Write_pv[OF assms(1)] canonical_norm[OF assms(2)] by simp

theorem property_value_round_trip_witness:
  "pv_ok (\<lambda>n. if n = [90] then Some [90] else None)
     (PV_Map [([1], PV_List [PV_Int 5, PV_String [97, 98]]),
              ([2], PV_Zoned \<lparr>ztd_type = 0, ztd_microseconds = 7, ztd_timezone = Tz_name [90]\<rparr>)]) \<and>
   ReadExternalPropertyValue (\<lambda>n. if n = [90] then Some [90] else None)
     (WriteExternalPropertyValue (PV_Map [([1], PV_List [PV_Int 5, PV_String [97, 98]]),
        ([2], PV_Zoned \<lparr>ztd_type = 0, ztd_microseconds = 7, ztd_timezone = Tz_name [90]\<rparr>)]) @ [3]) =
   Inr (PV_Map [([1], PV_List [PV_Int 5, PV_String [97, 98]]),
        ([2], PV_Zoned \<lparr>ztd_type = 0, ztd_microseconds = 7, ztd_timezone = Tz_name [90]\<rparr>)], [3])"
proof -
  let ?tz = "\<lambda>n :: string_t. if n = [90] then Some [90 :: byte] else None"
  let ?v = "PV_Map [([1], PV_List [PV_Int 5, PV_String [97, 98]]),
    ([2], PV_Zoned \<lparr>ztd_type = 0, ztd_microseconds = 7, ztd_timezone = Tz_name [90]\<rparr>)]"
  have "pv_ok ?tz ?v" and "canonical ?v"
    by (simp_all add: size_ok_def string_ok_def flat_map_sorted_def IsNumeric_def IsInt_def IsDouble_def)
  then show ?thesis
    using property_value_round_trip[of ?tz ?v "[3]"] by blast
qed

text \<open>C21: Skipping a value fails exactly when reading it fails, with the same error, and leaves
  the same unread bytes when it succeeds, on every input.\<close>

theorem skip_agrees_with_read:
  "SkipExternalPropertyValue locate_zone bs =
     (case ReadExternalPropertyValue locate_zone bs of Inl e \<Rightarrow> Inl e | Inr (v, rest) \<Rightarrow> Inr rest)"
  using SkipPV_fuel_ReadPV_fuel[of locate_zone "length bs + 1" bs]
  by (simp add: SkipExternalPropertyValue_def ReadExternalPropertyValue_def rest_of_def
      split: sum.splits prod.splits)

text \<open>C27: Reading a property value terminates on every input: the nesting bound is never reached,
  the recursion equation of the source holds, and a successful read consumes at least one byte.\<close>

theorem read_total:
  "ReadExternalPropertyValue locate_zone bs \<noteq> Inl Out_of_fuel \<and>
   ReadExternalPropertyValue locate_zone bs =
     ReadPV_step locate_zone (ReadExternalPropertyValue locate_zone) bs \<and>
   (case ReadExternalPropertyValue locate_zone bs of Inl e \<Rightarrow> True | Inr (v, rest) \<Rightarrow> length rest < length bs)"
proof -
  define r where "r = ReadExternalPropertyValue locate_zone bs"
  have good: "good_res (length bs - 1) r"
    unfolding r_def ReadExternalPropertyValue_unfold[of locate_zone bs]
    by (rule good_ReadPV_step) (auto intro: ReadExternalPropertyValue_good)
  have empty: "r = Inl Nullopt" if "bs = []"
    unfolding r_def using that by (subst ReadExternalPropertyValue_unfold)
      (simp add: ReadPV_step_def ExpectMarker_def ReadMarker_def Read_def)
  have "case r of Inl e \<Rightarrow> True | Inr (v, rest) \<Rightarrow> length rest < length bs"
    using good empty by (cases "bs = []"; cases r) (auto simp: good_res_def less_eq_Suc_le neq_Nil_conv)
  moreover have "r \<noteq> Inl Out_of_fuel"
    using good by (auto simp: good_res_def)
  ultimately show ?thesis
    using ReadExternalPropertyValue_unfold[of locate_zone bs] unfolding r_def by blast
qed

text \<open>C29: A marker byte is accepted by the bitmap test exactly when it is the code of a declared
  marker, and casting it gives that marker back.\<close>

theorem marker_cast_exact:
  "(isValidMarkerValue v \<longleftrightarrow> v \<in> range marker_byte) \<and>
   (CastToMarker v = Some m \<longleftrightarrow> v = marker_byte m) \<and>
   ReadMarker (WriteMarker m @ rest) = Inr (m, rest)"
  by (simp add: isValidMarkerValue_iff CastToMarker_Some)

lemma sint32_range: "- (2 ^ 31) \<le> sint (w :: 32 word) \<and> sint w < 2 ^ 31"
  using sint_greater_eq[of w] sint_less[of w] by simp

text \<open>C35: A list holding one integer is written with all 64 bits and read back as an integer list
  of \<open>int\<close>: the value that comes back has the low 32 bits only, so an integer
  outside the 32-bit range comes back as a different number.\<close>

theorem int_list_loses_high_bits:
  assumes "\<not> (- (2 ^ 31) \<le> sint i \<and> sint i < 2 ^ 31)"
  shows "ReadExternalPropertyValue locate_zone (WriteExternalPropertyValue (PV_List [PV_Int i]) @ rest) =
      Inr (PV_IntList [ucast i], rest) \<and> sint (ucast i :: 32 word) \<noteq> sint i"
proof -
  have "pv_ok locate_zone (PV_List [PV_Int i])"
    by (simp add: size_ok_def)
  moreover have "norm_pv (PV_List [PV_Int i]) = PV_IntList [ucast i]"
    by (simp add: make_list_def IsInt_def)
  ultimately show ?thesis
    using Read_Write_pv[of locate_zone "PV_List [PV_Int i]" rest] assms sint32_range[of "ucast i"] by metis
qed

theorem int_list_loses_high_bits_witness:
  "\<not> (- (2 ^ 31) \<le> sint (4294967301 :: 64 word) \<and> sint (4294967301 :: 64 word) < 2 ^ 31) \<and>
   ReadExternalPropertyValue (\<lambda>_. None) (WriteExternalPropertyValue (PV_List [PV_Int 4294967301]) @ []) =
     Inr (PV_IntList [5], [])"
proof -
  have "\<not> (- (2 ^ 31) \<le> sint (4294967301 :: 64 word) \<and> sint (4294967301 :: 64 word) < 2 ^ 31)"
    by simp
  moreover have "(ucast (4294967301 :: 64 word) :: 32 word) = 5"
    by simp
  ultimately show ?thesis
    using int_list_loses_high_bits[of 4294967301 "\<lambda>_. None" "[]"] by simp
qed

end
