(* ===== verification/SlkStreams.thy ===== *)
theory SlkStreams
  imports WireFormat
begin

text \<open>
  The segmented byte streams of the RPC layer (src/slk/streams.hpp and streams.cpp):
  the builder that cuts the saved data into segments, the reader that
  reassembles it, and the check that tells the network layer whether a message
  has arrived completely.  The builder's buffer is a byte list of the array's
  length that \<open>memcpy\<close> overwrites; the calls of \<open>write_func_\<close> are recorded in order.
\<close>

section \<open>Data\<close>

definition kSegmentMaxDataSize :: nat where
  "kSegmentMaxDataSize = 262144"

definition sizeof_SegmentSize :: nat where
  "sizeof_SegmentSize = 4"

definition kSegmentMaxTotalSize :: nat where
  "kSegmentMaxTotalSize = kSegmentMaxDataSize + sizeof_SegmentSize + sizeof_SegmentSize"

definition kFileSegmentMask :: "32 word" where
  "kFileSegmentMask = -1"

definition kFooter :: "32 word" where
  "kFooter = 0"

datatype slk_error = Builder_assert | Leftover_data | Size_missing | Unexpected_mask
  | Nonempty_final | Empty_segment | Not_enough_data

record builder =
  b_file_data :: bool
  b_pos :: nat
  b_segment :: "byte list"
  b_out :: "(byte list \<times> bool) list"

definition Builder_new :: builder where
  "Builder_new = \<lparr>b_file_data = False, b_pos = 0, b_segment = replicate kSegmentMaxTotalSize 0, b_out = []\<rparr>"

definition memcpy :: "nat \<Rightarrow> byte list \<Rightarrow> byte list \<Rightarrow> byte list" where
  "memcpy offset src dst = take offset dst @ src @ drop (offset + length src) dst"

section \<open>Builder\<close>

definition IsEmpty :: "builder \<Rightarrow> bool" where
  "IsEmpty b \<longleftrightarrow> b_pos b = 0"

definition FlushInternal :: "nat \<Rightarrow> bool \<Rightarrow> builder \<Rightarrow> builder" where
  "FlushInternal sz has_more b =
    b\<lparr>b_out := b_out b @ [(take sz (b_segment b), has_more)], b_pos := 0\<rparr>"

definition SaveFooter :: "nat \<Rightarrow> builder \<Rightarrow> builder" where
  "SaveFooter total_size b =
    b\<lparr>b_segment := memcpy total_size (HostToLittleEndian sizeof_SegmentSize kFooter) (b_segment b)\<rparr>"

definition FlushFileSegment :: "builder \<Rightarrow> slk_error + builder" where
  "FlushFileSegment b =
    (if b_pos b < kSegmentMaxDataSize then Inr b
     else if b_pos b = 0 then Inl Builder_assert
     else Inr (FlushInternal (b_pos b) True b))"

definition FlushSegment :: "bool \<Rightarrow> bool \<Rightarrow> builder \<Rightarrow> slk_error + builder" where
  "FlushSegment final_segment force_flush b =
    (if \<not> force_flush \<and> \<not> final_segment \<and> b_pos b < kSegmentMaxDataSize then Inr b
     else if b_pos b = 0 then Inl Builder_assert
     else
       let total_size = (if b_file_data b then b_pos b else sizeof_SegmentSize + b_pos b);
           b1 = (if b_file_data b then b
                 else b\<lparr>b_segment := memcpy 0 (HostToLittleEndian sizeof_SegmentSize
                          (word_of_nat (b_pos b) :: 32 word)) (b_segment b)\<rparr>);
           b2 = (if final_segment then SaveFooter total_size b1 else b1);
           total_size2 = (if final_segment then total_size + sizeof_SegmentSize else total_size)
       in Inr (FlushInternal total_size2 (\<not> final_segment) b2))"

lemma kSegmentMaxDataSize_pos [simp]: "0 < kSegmentMaxDataSize"
  by (simp add: kSegmentMaxDataSize_def)

lemma FlushSegment_pos: "FlushSegment False False b = Inr b' \<Longrightarrow> b_pos b' < kSegmentMaxDataSize"
  by (auto simp: FlushSegment_def FlushInternal_def Let_def split: if_splits)

lemma FlushFileSegment_pos: "FlushFileSegment b = Inr b' \<Longrightarrow> b_pos b' < kSegmentMaxDataSize"
  by (auto simp: FlushFileSegment_def FlushInternal_def split: if_splits)

text \<open>One pass of the copy loops: as much as fits behind the current position.\<close>

definition copy_chunk :: "byte list \<Rightarrow> builder \<Rightarrow> builder" where
  "copy_chunk chunk b =
    b\<lparr>b_segment := memcpy ((if b_file_data b then 0 else sizeof_SegmentSize) + b_pos b) chunk (b_segment b),
      b_pos := b_pos b + length chunk\<rparr>"

function Save :: "byte list \<Rightarrow> builder \<Rightarrow> slk_error + builder" where
  "Save data b =
    (if data = [] then Inr b
     else bind_result (FlushSegment False False b)
       (\<lambda>b. let to_write = min (length data) (kSegmentMaxDataSize - b_pos b)
            in Save (drop to_write data) (copy_chunk (take to_write data) b)))"
  by pat_completeness auto
termination
  by (relation "measure (\<lambda>(data, b). length data)") (auto dest: FlushSegment_pos)

declare Save.simps [simp del]

definition copy_file_chunk :: "byte list \<Rightarrow> builder \<Rightarrow> builder" where
  "copy_file_chunk chunk b =
    b\<lparr>b_segment := memcpy (b_pos b) chunk (b_segment b), b_pos := b_pos b + length chunk\<rparr>"

function SaveFileBuffer :: "byte list \<Rightarrow> builder \<Rightarrow> slk_error + builder" where
  "SaveFileBuffer data b =
    (if data = [] then Inr b
     else bind_result (FlushFileSegment b)
       (\<lambda>b. let to_write = min (length data) (kSegmentMaxDataSize - b_pos b)
            in SaveFileBuffer (drop to_write data) (copy_file_chunk (take to_write data) b)))"
  by pat_completeness auto
termination
  by (relation "measure (\<lambda>(data, b). length data)") (auto dest: FlushFileSegment_pos)

declare SaveFileBuffer.simps [simp del]

definition PrepareForFileSending :: "builder \<Rightarrow> builder" where
  "PrepareForFileSending b =
    b\<lparr>b_segment := memcpy (b_pos b) (HostToLittleEndian sizeof_SegmentSize kFileSegmentMask) (b_segment b),
      b_pos := b_pos b + sizeof_SegmentSize, b_file_data := True\<rparr>"

definition Builder_Finalize :: "builder \<Rightarrow> slk_error + builder" where
  "Builder_Finalize b = FlushSegment True False b"

section \<open>Reader\<close>

record reader =
  r_data :: "byte list"
  r_pos :: nat
  r_have :: nat

definition Reader_new :: "byte list \<Rightarrow> reader" where
  "Reader_new data = \<lparr>r_data = data, r_pos = 0, r_have = 0\<rparr>"

definition segment_size_at :: "byte list \<Rightarrow> nat \<Rightarrow> 32 word" where
  "segment_size_at data pos = LittleEndianToHost (take sizeof_SegmentSize (drop pos data))"

definition GetSegment :: "bool \<Rightarrow> reader \<Rightarrow> slk_error + reader" where
  "GetSegment should_be_final r =
    (if r_have r \<noteq> 0 then (if should_be_final then Inl Leftover_data else Inr r)
     else if r_pos r + sizeof_SegmentSize > length (r_data r) then Inl Size_missing
     else
       let len = segment_size_at (r_data r) (r_pos r)
       in if len = kFileSegmentMask
          then (if should_be_final
                then Inr (r\<lparr>r_have := 0, r_pos := r_pos r + sizeof_SegmentSize\<rparr>)
                else Inl Unexpected_mask)
          else if should_be_final \<and> len \<noteq> 0 then Inl Nonempty_final
          else if \<not> should_be_final \<and> len = 0 then Inl Empty_segment
          else if r_pos r + sizeof_SegmentSize + unat len > length (r_data r) then Inl Not_enough_data
          else Inr (r\<lparr>r_pos := r_pos r + sizeof_SegmentSize, r_have := unat len\<rparr>))"

lemma GetSegment_have: "GetSegment False r = Inr r' \<Longrightarrow> 0 < r_have r'"
  by (auto simp: GetSegment_def Let_def unat_gt_0 split: if_splits)

function Load :: "nat \<Rightarrow> reader \<Rightarrow> slk_error + byte list \<times> reader" where
  "Load sz r =
    (if sz = 0 then Inr ([], r)
     else bind_result (GetSegment False r)
       (\<lambda>r. let to_read = min sz (r_have r)
            in bind_result
                 (Load (sz - to_read) (r\<lparr>r_pos := r_pos r + to_read, r_have := r_have r - to_read\<rparr>))
                 (\<lambda>(bs, r'). Inr (take to_read (drop (r_pos r) (r_data r)) @ bs, r'))))"
  by pat_completeness auto
termination
  by (relation "measure fst") (auto dest: GetSegment_have)

declare Load.simps [simp del]

definition Reader_Finalize :: "reader \<Rightarrow> slk_error + reader" where
  "Reader_Finalize r = GetSegment True r"

section \<open>Stream status\<close>

datatype StreamStatus = PARTIAL | COMPLETE | INVALID | NEW_FILE | FILE_DATA

record StreamInfo =
  si_status :: StreamStatus
  si_stream_size :: nat
  si_encoded_data_size :: nat
  si_pos :: nat

text \<open>The block at the head of the loop that accounts for the rest of a file: it returns
  (\<open>Inl\<close>) or continues with the number of segments, the data size and the position.\<close>

definition file_part :: "nat option \<Rightarrow> nat \<Rightarrow> nat \<Rightarrow> nat \<Rightarrow> nat \<Rightarrow> StreamInfo + nat \<times> nat \<times> nat" where
  "file_part remaining_file_size sz found_segments data_size pos =
    (case remaining_file_size of
       None \<Rightarrow> Inr (found_segments, data_size, pos)
     | Some rem \<Rightarrow>
         if rem = 0
         then Inl \<lparr>si_status = INVALID, si_stream_size = 0, si_encoded_data_size = 0, si_pos = pos\<rparr>
         else if rem \<ge> sz
         then Inl \<lparr>si_status = FILE_DATA, si_stream_size = sz, si_encoded_data_size = data_size, si_pos = 0\<rparr>
         else Inr (found_segments + 1, data_size + rem, pos + rem))"

text \<open>The answer when the length field is the file mask; \<open>pos\<close> is the byte after it.\<close>

definition mask_part :: "byte list \<Rightarrow> nat option \<Rightarrow> nat \<Rightarrow> nat \<Rightarrow> StreamInfo" where
  "mask_part data remaining_file_size data_size pos =
    (let remaining_after_mask = length data - pos;
         str_len = unat (LittleEndianToHost (take 8 (drop (pos + 1) data)) :: 64 word);
         needed = 9 + str_len + 9
     in if remaining_file_size \<noteq> None \<and> remaining_after_mask < 9
        then \<lparr>si_status = PARTIAL, si_stream_size = pos + kSegmentMaxTotalSize,
              si_encoded_data_size = data_size, si_pos = pos\<rparr>
        else if remaining_file_size \<noteq> None \<and> str_len \<le> kSegmentMaxDataSize \<and> remaining_after_mask < needed
        then \<lparr>si_status = PARTIAL, si_stream_size = pos + needed,
              si_encoded_data_size = data_size, si_pos = pos\<rparr>
        else \<lparr>si_status = NEW_FILE, si_stream_size = length data,
              si_encoded_data_size = data_size, si_pos = pos\<rparr>)"

definition partial_at :: "nat \<Rightarrow> nat \<Rightarrow> StreamInfo" where
  "partial_at data_size pos = \<lparr>si_status = PARTIAL, si_stream_size = pos + kSegmentMaxTotalSize,
     si_encoded_data_size = data_size, si_pos = pos\<rparr>"

definition footer_part :: "nat \<Rightarrow> nat \<Rightarrow> nat \<Rightarrow> nat \<Rightarrow> StreamInfo" where
  "footer_part processed_bytes found_segments data_size pos =
    (if found_segments < 1 \<and> processed_bytes = 0
     then \<lparr>si_status = INVALID, si_stream_size = 0, si_encoded_data_size = 0, si_pos = pos\<rparr>
     else \<lparr>si_status = COMPLETE, si_stream_size = pos, si_encoded_data_size = data_size, si_pos = pos\<rparr>)"

lemma file_part_pos: "file_part rem sz f d p = Inr (f', d', p') \<Longrightarrow> p \<le> p'"
  by (auto simp: file_part_def split: option.splits if_splits)

function CheckStream_loop :: "byte list \<Rightarrow> nat option \<Rightarrow> nat \<Rightarrow> nat \<Rightarrow> nat \<Rightarrow> nat \<Rightarrow> StreamInfo" where
  "CheckStream_loop data remaining_file_size processed_bytes found_segments data_size pos =
    (case file_part remaining_file_size (length data) found_segments data_size pos of
       Inl info \<Rightarrow> info
     | Inr (found, dsize, p) \<Rightarrow>
         if p + sizeof_SegmentSize > length data then partial_at dsize p
         else
           let len = segment_size_at data p; p' = p + sizeof_SegmentSize
           in if len = kFileSegmentMask then mask_part data remaining_file_size dsize p'
              else if len = kFooter then footer_part processed_bytes found dsize p'
              else if p' + unat len > length data then partial_at dsize p'
              else CheckStream_loop data remaining_file_size processed_bytes
                     (found + 1) (dsize + unat len) (p' + unat len))"
  by pat_completeness auto
termination
  by (relation "measure (\<lambda>(data, rem, proc, found, dsize, pos). length data - pos)")
    (auto dest!: file_part_pos simp: sizeof_SegmentSize_def)

declare CheckStream_loop.simps [simp del]

definition CheckStreamStatus :: "byte list \<Rightarrow> nat option \<Rightarrow> nat \<Rightarrow> StreamInfo" where
  "CheckStreamStatus data remaining_file_size processed_bytes =
    CheckStream_loop data remaining_file_size processed_bytes 0 0 0"

section \<open>The wire format of a stream\<close>

definition seg_enc :: "byte list \<Rightarrow> byte list" where
  "seg_enc s = HostToLittleEndian sizeof_SegmentSize (word_of_nat (length s) :: 32 word) @ s"

definition footer :: "byte list" where
  "footer = HostToLittleEndian sizeof_SegmentSize kFooter"

definition segs_ok :: "byte list list \<Rightarrow> bool" where
  "segs_ok segs \<longleftrightarrow> (\<forall>s \<in> set segs. s \<noteq> [] \<and> length s \<le> kSegmentMaxDataSize)"

definition stream_of :: "byte list list \<Rightarrow> byte list" where
  "stream_of segs = concat (map seg_enc segs) @ footer"

lemma length_seg_enc [simp]: "length (seg_enc s) = sizeof_SegmentSize + length s"
  by (simp add: seg_enc_def)

lemma length_footer [simp]: "length footer = sizeof_SegmentSize"
  by (simp add: footer_def)

lemma segment_size_at_enc:
  assumes "drop pos data = HostToLittleEndian sizeof_SegmentSize w @ rest"
  shows "segment_size_at data pos = w"
  using assms by (simp add: segment_size_at_def) (simp add: sizeof_SegmentSize_def)

lemma seg_size_word:
  assumes "s \<noteq> []" and "length s \<le> kSegmentMaxDataSize"
  shows "unat (word_of_nat (length s) :: 32 word) = length s"
    and "(word_of_nat (length s) :: 32 word) \<noteq> kFileSegmentMask"
    and "(word_of_nat (length s) :: 32 word) \<noteq> kFooter"
proof -
  have lt: "length s < 2 ^ 32" "length s < 2 ^ 32 - 1" "0 < length s"
    using assms by (simp_all add: kSegmentMaxDataSize_def)
  show unat: "unat (word_of_nat (length s) :: 32 word) = length s"
    unfolding unsigned_of_nat of_nat_id using lt(1) by (intro take_bit_nat_eq_self) simp
  have mask: "unat kFileSegmentMask = 2 ^ 32 - 1"
    by (simp add: kFileSegmentMask_def unsigned_minus_1_eq_mask mask_eq_exp_minus_1)
  show "(word_of_nat (length s) :: 32 word) \<noteq> kFileSegmentMask"
  proof
    assume "(word_of_nat (length s) :: 32 word) = kFileSegmentMask"
    then have "length s = 2 ^ 32 - 1"
      using unat mask by simp
    then show False
      using lt(2) by simp
  qed
  show "(word_of_nat (length s) :: 32 word) \<noteq> kFooter"
    using unat lt(3) by (auto simp: kFooter_def)
qed

section \<open>Copying into the buffer\<close>

lemma length_memcpy: "off + length src \<le> length dst \<Longrightarrow> length (memcpy off src dst) = length dst"
  by (simp add: memcpy_def)

lemma take_memcpy:
  "off + length src \<le> length dst \<Longrightarrow> take (off + length src) (memcpy off src dst) = take off dst @ src"
  by (simp add: memcpy_def)

lemma take_memcpy_before:
  "n \<le> off \<Longrightarrow> off + length src \<le> length dst \<Longrightarrow> take n (memcpy off src dst) = take n dst"
  by (simp add: memcpy_def)

lemma memcpy_front: "length src \<le> length dst \<Longrightarrow> memcpy 0 src dst = src @ drop (length src) dst"
  by (simp add: memcpy_def)

section \<open>The builder\<close>

text \<open>\<open>bld segs cur b\<close>: outside file mode the builder has written the segments \<open>segs\<close> and holds
  \<open>cur\<close> in its buffer, behind the room for the size.\<close>

definition bld :: "byte list list \<Rightarrow> byte list \<Rightarrow> builder \<Rightarrow> bool" where
  "bld segs cur b \<longleftrightarrow> \<not> b_file_data b \<and> length (b_segment b) = kSegmentMaxTotalSize \<and>
     b_pos b = length cur \<and> length cur \<le> kSegmentMaxDataSize \<and>
     take (length cur) (drop sizeof_SegmentSize (b_segment b)) = cur \<and>
     b_out b = map (\<lambda>s. (seg_enc s, True)) segs \<and> segs_ok segs"

lemma bld_new: "bld [] [] Builder_new"
  by (simp add: bld_def Builder_new_def segs_ok_def)

lemma sizes [simp]:
  "kSegmentMaxTotalSize = kSegmentMaxDataSize + (sizeof_SegmentSize + sizeof_SegmentSize)"
  by (simp add: kSegmentMaxTotalSize_def)

text \<open>The bytes handed to \<open>write_func_\<close> for a regular segment.\<close>

lemma segment_bytes:
  assumes "bld segs cur b"
  shows "take (sizeof_SegmentSize + length cur) (memcpy 0 (HostToLittleEndian sizeof_SegmentSize
      (word_of_nat (b_pos b) :: 32 word)) (b_segment b)) = seg_enc cur"
  using assms by (auto simp: bld_def seg_enc_def memcpy_def)

lemma FlushSegment_bld:
  assumes "bld segs cur b" and "cur \<noteq> []"
  shows "\<exists>b'. FlushSegment False True b = Inr b' \<and> bld (segs @ [cur]) [] b'"
  using assms segment_bytes[OF assms(1)]
  by (auto simp: FlushSegment_def FlushInternal_def bld_def segs_ok_def Let_def length_memcpy)

lemma FlushSegment_full:
  assumes "bld segs cur b"
  shows "\<exists>segs' cur' b'. FlushSegment False False b = Inr b' \<and> bld segs' cur' b' \<and>
    concat segs' @ cur' = concat segs @ cur \<and> length cur' < kSegmentMaxDataSize"
proof (cases "length cur < kSegmentMaxDataSize")
  case True
  then have "FlushSegment False False b = Inr b"
    using assms by (simp add: FlushSegment_def bld_def)
  then show ?thesis
    using assms True by blast
next
  case False
  then have "cur \<noteq> []" and pos: "\<not> b_pos b < kSegmentMaxDataSize"
    using assms kSegmentMaxDataSize_pos by (auto simp: bld_def simp del: kSegmentMaxDataSize_pos)
  then obtain b' where "FlushSegment False True b = Inr b'" "bld (segs @ [cur]) [] b'"
    using FlushSegment_bld[OF assms] by blast
  moreover have "FlushSegment False False b = FlushSegment False True b"
    using pos by (simp add: FlushSegment_def)
  ultimately show ?thesis
    by (intro exI[of _ "segs @ [cur]"] exI[of _ "[]"] exI[of _ b']) simp
qed

lemma copy_chunk_bld:
  assumes "bld segs cur b" and "length cur + length chunk \<le> kSegmentMaxDataSize"
  shows "bld segs (cur @ chunk) (copy_chunk chunk b)"
proof -
  define seg where "seg = b_segment b"
  have len: "length seg = kSegmentMaxTotalSize" and cur: "take (length cur) (drop sizeof_SegmentSize seg) = cur"
    using assms(1) by (auto simp: bld_def seg_def)
  have fits: "(sizeof_SegmentSize + length cur) + length chunk \<le> length seg"
    using assms(2) len by simp
  have "take (length cur + length chunk) (drop sizeof_SegmentSize
      (memcpy (sizeof_SegmentSize + length cur) chunk seg)) =
    drop sizeof_SegmentSize (take ((sizeof_SegmentSize + length cur) + length chunk)
      (memcpy (sizeof_SegmentSize + length cur) chunk seg))"
    by (simp add: take_drop ac_simps)
  also have "\<dots> = drop sizeof_SegmentSize (take (sizeof_SegmentSize + length cur) seg @ chunk)"
    by (simp only: take_memcpy[OF fits])
  also have "\<dots> = cur @ chunk"
    using cur fits by (simp add: drop_take)
  finally show ?thesis
    using assms fits by (auto simp: bld_def copy_chunk_def seg_def length_memcpy)
qed

lemma Save_spec:
  "bld segs cur b \<Longrightarrow> \<exists>segs' cur' b'. Save data b = Inr b' \<and> bld segs' cur' b' \<and>
    concat segs' @ cur' = concat segs @ cur @ data \<and> (cur \<noteq> [] \<or> data \<noteq> [] \<longrightarrow> cur' \<noteq> [])"
proof (induction data b arbitrary: segs cur rule: Save.induct)
  case (1 data b)
  show ?case
  proof (cases "data = []")
    case True
    then show ?thesis
      using 1(2) by (subst Save.simps) auto
  next
    case False
    obtain segs1 cur1 b1 where f: "FlushSegment False False b = Inr b1" "bld segs1 cur1 b1"
      "concat segs1 @ cur1 = concat segs @ cur" "length cur1 < kSegmentMaxDataSize"
      using FlushSegment_full[OF 1(2)] by blast
    define n where "n = min (length data) (kSegmentMaxDataSize - b_pos b1)"
    have pos: "b_pos b1 = length cur1"
      using f(2) by (simp add: bld_def)
    have n: "0 < n" "n \<le> length data"
      using False f(4) pos by (auto simp: n_def)
    define b2 where "b2 = copy_chunk (take n data) b1"
    have b2: "bld segs1 (cur1 @ take n data) b2"
      unfolding b2_def by (rule copy_chunk_bld[OF f(2)]) (use pos f(4) in \<open>auto simp: n_def\<close>)
    have ne: "cur1 @ take n data \<noteq> []"
      using n by auto
    obtain segs' cur' b' where "Save (drop n data) b2 = Inr b'" "bld segs' cur' b'"
      "concat segs' @ cur' = concat segs1 @ (cur1 @ take n data) @ drop n data" "cur' \<noteq> []"
      using 1(1)[OF False f(1) n_def, folded b2_def, OF b2] ne by auto
    moreover have "Save data b = Save (drop n data) b2"
      using False f(1) by (subst Save.simps) (simp add: n_def b2_def Let_def)
    moreover have "concat segs1 @ (cur1 @ take n data) @ drop n data = concat segs @ cur @ data"
      using arg_cong[OF f(3), of "\<lambda>xs. xs @ data"] by simp
    ultimately show ?thesis
      by (intro exI[of _ segs'] exI[of _ cur'] exI[of _ b']) simp
  qed
qed

lemma Finalize_spec:
  assumes "bld segs cur b" and "cur \<noteq> []"
  shows "\<exists>b'. Builder_Finalize b = Inr b' \<and>
    b_out b' = map (\<lambda>s. (seg_enc s, True)) segs @ [(seg_enc cur @ footer, False)]"
proof -
  define w where "w = HostToLittleEndian sizeof_SegmentSize (word_of_nat (b_pos b) :: 32 word)"
  have seg: "take (sizeof_SegmentSize + length cur) (memcpy 0 w (b_segment b)) = seg_enc cur"
    unfolding w_def by (rule segment_bytes[OF assms(1)])
  have len: "length (memcpy 0 w (b_segment b)) = length (b_segment b)"
    using assms(1) by (intro length_memcpy) (simp add: bld_def w_def)
  have "take (sizeof_SegmentSize + length cur + length footer)
      (memcpy (sizeof_SegmentSize + length cur) footer (memcpy 0 w (b_segment b))) = seg_enc cur @ footer"
    using assms(1) seg len by (subst take_memcpy) (auto simp: bld_def)
  then show ?thesis
    using assms by (auto simp: Builder_Finalize_def FlushSegment_def FlushInternal_def SaveFooter_def
        footer_def[symmetric] bld_def w_def Let_def)
qed

section \<open>The reader\<close>

text \<open>\<open>rdr segs cur rest r\<close>: the reader is inside a segment of which \<open>cur\<close> is unread, followed by
  the segments \<open>segs\<close>, the footer and \<open>rest\<close>.\<close>

definition rdr :: "byte list list \<Rightarrow> byte list \<Rightarrow> byte list \<Rightarrow> reader \<Rightarrow> bool" where
  "rdr segs cur rest r \<longleftrightarrow>
     drop (r_pos r) (r_data r) = cur @ stream_of segs @ rest \<and> r_have r = length cur \<and> segs_ok segs"

lemma rdr_new: "segs_ok segs \<Longrightarrow> rdr segs [] rest (Reader_new (stream_of segs @ rest))"
  by (simp add: rdr_def Reader_new_def)

lemma drop_append_length:
  assumes "drop n xs = ys @ zs"
  shows "drop (n + length ys) xs = zs" and "ys \<noteq> [] \<Longrightarrow> n + length ys \<le> length xs"
proof -
  show "drop (n + length ys) xs = zs"
    using arg_cong[OF assms, of "drop (length ys)"] by (simp add: add.commute)
  show "n + length ys \<le> length xs" if "ys \<noteq> []"
    using arg_cong[OF assms, of length] that by (cases "n \<le> length xs") auto
qed

lemma sizeof_pos [simp]: "0 < sizeof_SegmentSize"
  by (simp add: sizeof_SegmentSize_def)

lemma GetSegment_next:
  assumes "rdr (s # segs) [] rest r"
  shows "\<exists>r'. GetSegment False r = Inr r' \<and> rdr segs s rest r'"
proof -
  have ok: "s \<noteq> []" "length s \<le> kSegmentMaxDataSize" "segs_ok segs"
    using assms by (auto simp: rdr_def segs_ok_def)
  define w where "w = (word_of_nat (length s) :: 32 word)"
  have w: "unat w = length s" "w \<noteq> kFileSegmentMask" "w \<noteq> 0"
    using seg_size_word[OF ok(1,2)] by (simp_all add: w_def kFooter_def)
  have d: "drop (r_pos r) (r_data r) = HostToLittleEndian sizeof_SegmentSize w @ s @ stream_of segs @ rest"
    using assms by (simp add: rdr_def stream_of_def seg_enc_def w_def)
  have at: "segment_size_at (r_data r) (r_pos r) = w"
    by (rule segment_size_at_enc[OF d])
  have d1: "drop (r_pos r + sizeof_SegmentSize) (r_data r) = s @ stream_of segs @ rest"
    and le1: "r_pos r + sizeof_SegmentSize \<le> length (r_data r)"
    using drop_append_length[OF d] by (auto simp flip: length_greater_0_conv)
  have le2: "r_pos r + sizeof_SegmentSize + length s \<le> length (r_data r)"
    using drop_append_length(2)[OF d1 ok(1)] .
  have "r_have r = 0"
    using assms by (simp add: rdr_def)
  then have "GetSegment False r = Inr (r\<lparr>r_pos := r_pos r + sizeof_SegmentSize, r_have := length s\<rparr>)"
    using at le1 le2 w by (simp add: GetSegment_def)
  then show ?thesis
    using d1 ok(3) by (auto simp: rdr_def)
qed

lemma Load_spec:
  "rdr segs cur rest r \<Longrightarrow> sz \<le> length (cur @ concat segs) \<Longrightarrow>
   \<exists>segs' cur' r'. Load sz r = Inr (take sz (cur @ concat segs), r') \<and> rdr segs' cur' rest r' \<and>
     cur' @ concat segs' = drop sz (cur @ concat segs)"
proof (induction sz r arbitrary: segs cur rule: Load.induct)
  case (1 sz r)
  show ?case
  proof (cases "sz = 0")
    case True
    then show ?thesis
      using 1(2) by (subst Load.simps) auto
  next
    case False
    obtain segs1 cur1 r1 where g: "GetSegment False r = Inr r1" "rdr segs1 cur1 rest r1" "cur1 \<noteq> []"
      "cur1 @ concat segs1 = cur @ concat segs"
    proof (cases "cur = []")
      case True
      then obtain s ss where "segs = s # ss"
        using 1(3) False by (cases segs) auto
      then obtain r1 where "GetSegment False r = Inr r1" "rdr ss s rest r1"
        using GetSegment_next 1(2) True by blast
      moreover have "s \<noteq> []"
        using 1(2) \<open>segs = s # ss\<close> by (simp add: rdr_def segs_ok_def)
      ultimately show ?thesis
        using that \<open>segs = s # ss\<close> True by simp
    next
      case False
      then show ?thesis
        using that[of r segs cur] 1(2) by (simp add: GetSegment_def rdr_def)
    qed
    define n where "n = min sz (r_have r1)"
    have have1: "r_have r1 = length cur1" and d1: "drop (r_pos r1) (r_data r1) = cur1 @ stream_of segs1 @ rest"
      using g(2) by (simp_all add: rdr_def)
    define r2 where "r2 = r1\<lparr>r_pos := r_pos r1 + n, r_have := r_have r1 - n\<rparr>"
    have n: "n \<le> length cur1" "n \<le> sz"
      using have1 by (auto simp: n_def)
    have "drop (r_pos r1 + n) (r_data r1) = drop n (cur1 @ stream_of segs1 @ rest)"
      using arg_cong[OF d1, of "drop n"] by (simp add: add.commute)
    then have r2: "rdr segs1 (drop n cur1) rest r2"
      using g(2) n by (simp add: rdr_def r2_def)
    have "sz - n \<le> length (drop n cur1 @ concat segs1)"
      using arg_cong[OF g(4), of length] 1(3) n by simp
    then obtain segs' cur' r' where l: "Load (sz - n) r2 = Inr (take (sz - n) (drop n cur1 @ concat segs1), r')"
      "rdr segs' cur' rest r'" "cur' @ concat segs' = drop (sz - n) (drop n cur1 @ concat segs1)"
      using 1(1)[OF False g(1) n_def, folded r2_def, OF r2] by blast
    have all: "drop n cur1 @ concat segs1 = drop n (cur @ concat segs)"
      unfolding g(4)[symmetric] using n(1) by simp
    have chunk: "take n (drop (r_pos r1) (r_data r1)) = take n (cur @ concat segs)"
      unfolding d1 g(4)[symmetric] using n(1) by simp
    have "Load sz r = Inr (take n (drop (r_pos r1) (r_data r1)) @ take (sz - n) (drop n cur1 @ concat segs1), r')"
      using False g(1) l(1) by (subst Load.simps) (simp add: n_def r2_def Let_def)
    moreover have "take n (cur @ concat segs) @ take (sz - n) (drop n (cur @ concat segs)) = take sz (cur @ concat segs)"
      using n(2) by (metis le_add_diff_inverse take_add)
    ultimately have "Load sz r = Inr (take sz (cur @ concat segs), r')"
      unfolding all chunk by (simp only:)
    moreover have "cur' @ concat segs' = drop sz (cur @ concat segs)"
      using l(3) n(2) unfolding all drop_drop by (simp only: le_add_diff_inverse2)
    ultimately show ?thesis
      using l(2) by blast
  qed
qed

lemma Reader_Finalize_spec:
  assumes "rdr [] [] rest r"
  shows "Reader_Finalize r = Inr (r\<lparr>r_pos := r_pos r + sizeof_SegmentSize, r_have := 0\<rparr>)"
proof -
  have d: "drop (r_pos r) (r_data r) = HostToLittleEndian sizeof_SegmentSize kFooter @ rest"
    using assms by (simp add: rdr_def stream_of_def footer_def)
  have "r_pos r + sizeof_SegmentSize \<le> length (r_data r)"
    using drop_append_length(2)[OF d] by (auto simp flip: length_greater_0_conv)
  then show ?thesis
    using segment_size_at_enc[OF d] assms
    by (simp add: Reader_Finalize_def GetSegment_def rdr_def kFooter_def kFileSegmentMask_def)
qed

section \<open>Checking a received stream\<close>

lemma CheckStream_loop_segment:
  assumes "drop pos data = seg_enc s @ tail" and "s \<noteq> []" and "length s \<le> kSegmentMaxDataSize"
  shows "CheckStream_loop data None processed found dsize pos =
      CheckStream_loop data None processed (found + 1) (dsize + length s) (pos + length (seg_enc s))"
    and "drop (pos + length (seg_enc s)) data = tail"
proof -
  define w where "w = (word_of_nat (length s) :: 32 word)"
  have w: "unat w = length s" "w \<noteq> kFileSegmentMask" "w \<noteq> kFooter"
    using seg_size_word[OF assms(2,3)] by (simp_all add: w_def)
  have d: "drop pos data = HostToLittleEndian sizeof_SegmentSize w @ s @ tail"
    using assms(1) by (simp add: seg_enc_def w_def)
  have le: "pos + length (seg_enc s) \<le> length data"
    using drop_append_length(2)[OF assms(1)] assms(2) by (auto simp: seg_enc_def)
  show "CheckStream_loop data None processed found dsize pos =
      CheckStream_loop data None processed (found + 1) (dsize + length s) (pos + length (seg_enc s))"
    using segment_size_at_enc[OF d] w le
    by (subst CheckStream_loop.simps) (simp add: file_part_def Let_def add.assoc)
  show "drop (pos + length (seg_enc s)) data = tail"
    by (rule drop_append_length(1)[OF assms(1)])
qed

lemma CheckStream_loop_complete:
  "drop pos data = stream_of segs @ rest \<Longrightarrow> segs_ok segs \<Longrightarrow>
   CheckStream_loop data None processed found dsize pos =
     footer_part processed (found + length segs) (dsize + length (concat segs)) (pos + length (stream_of segs))"
proof (induction segs arbitrary: pos found dsize)
  case Nil
  then have d: "drop pos data = HostToLittleEndian sizeof_SegmentSize kFooter @ rest"
    by (simp add: stream_of_def footer_def)
  have "pos + sizeof_SegmentSize \<le> length data"
    using drop_append_length(2)[OF d] by (auto simp flip: length_greater_0_conv)
  moreover have "kFooter \<noteq> kFileSegmentMask"
    by (simp add: kFooter_def kFileSegmentMask_def)
  ultimately show ?case
    using segment_size_at_enc[OF d]
    by (subst CheckStream_loop.simps) (simp add: file_part_def Let_def stream_of_def)
next
  case (Cons s segs)
  have ok: "s \<noteq> []" "length s \<le> kSegmentMaxDataSize" "segs_ok segs"
    using Cons.prems(2) by (auto simp: segs_ok_def)
  have d: "drop pos data = seg_enc s @ stream_of segs @ rest"
    using Cons.prems(1) by (simp add: stream_of_def)
  note hop = CheckStream_loop_segment[OF d ok(1,2)]
  show ?case
    using hop(1)[of processed found dsize] Cons.IH[OF hop(2) ok(3), of "found + 1" "dsize + length s"]
    by (simp add: stream_of_def ac_simps)
qed

lemma take_word_prefix:
  assumes "drop pos data = take k (HostToLittleEndian sizeof_SegmentSize w @ rest)" and "sizeof_SegmentSize \<le> k"
  shows "segment_size_at data pos = w"
  by (rule segment_size_at_enc[of pos data w "take (k - sizeof_SegmentSize) rest"]) (simp add: assms)

lemma CheckStream_loop_partial:
  "drop pos data = take k (stream_of segs) \<Longrightarrow> k < length (stream_of segs) \<Longrightarrow> pos + k = length data \<Longrightarrow>
   segs_ok segs \<Longrightarrow> si_status (CheckStream_loop data None processed found dsize pos) = PARTIAL"
proof (induction segs arbitrary: pos found dsize k)
  case Nil
  then have "pos + sizeof_SegmentSize > length data"
    by (simp add: stream_of_def)
  then show ?case
    by (subst CheckStream_loop.simps) (simp add: file_part_def partial_at_def)
next
  case (Cons s segs)
  have ok: "s \<noteq> []" "length s \<le> kSegmentMaxDataSize" "segs_ok segs"
    using Cons.prems(4) by (auto simp: segs_ok_def)
  define w where "w = (word_of_nat (length s) :: 32 word)"
  have w: "unat w = length s" "w \<noteq> kFileSegmentMask" "w \<noteq> kFooter"
    using seg_size_word[OF ok(1,2)] by (simp_all add: w_def)
  have d: "drop pos data = take k (HostToLittleEndian sizeof_SegmentSize w @ s @ stream_of segs)"
    using Cons.prems(1) by (simp add: stream_of_def seg_enc_def w_def)
  consider "k < sizeof_SegmentSize" | "sizeof_SegmentSize \<le> k" "k < sizeof_SegmentSize + length s"
    | "sizeof_SegmentSize + length s \<le> k"
    by linarith
  then show ?case
  proof cases
    case 1
    then show ?thesis
      using Cons.prems(3) by (subst CheckStream_loop.simps) (simp add: file_part_def partial_at_def)
  next
    case 2
    then show ?thesis
      using Cons.prems(3) take_word_prefix[OF d] w
      by (subst CheckStream_loop.simps) (simp add: file_part_def partial_at_def Let_def)
  next
    case 3
    define pos2 where "pos2 = pos + sizeof_SegmentSize + length s"
    define k2 where "k2 = k - (sizeof_SegmentSize + length s)"
    have "drop pos2 data = drop (sizeof_SegmentSize + length s) (drop pos data)"
      by (simp add: pos2_def ac_simps)
    also have "\<dots> = take k2 (stream_of segs)"
      unfolding d k2_def using 3 by (simp add: drop_take)
    finally have d2: "drop pos2 data = take k2 (stream_of segs)" .
    have "CheckStream_loop data None processed found dsize pos =
        CheckStream_loop data None processed (found + 1) (dsize + length s) pos2"
      using take_word_prefix[OF d] w 3 Cons.prems(3)
      by (subst CheckStream_loop.simps) (simp add: file_part_def Let_def pos2_def)
    moreover have "k2 < length (stream_of segs)" "pos2 + k2 = length data"
      using Cons.prems(2,3) 3 by (auto simp: k2_def pos2_def stream_of_def)
    ultimately show ?thesis
      using Cons.IH[OF d2 _ _ ok(3)] by simp
  qed
qed

text \<open>The mask of a file after the segments of the request.\<close>

lemma CheckStream_loop_mask:
  "drop pos data = concat (map seg_enc segs) @ HostToLittleEndian sizeof_SegmentSize kFileSegmentMask @ rest \<Longrightarrow>
   segs_ok segs \<Longrightarrow>
   CheckStream_loop data None processed found dsize pos =
     \<lparr>si_status = NEW_FILE, si_stream_size = length data, si_encoded_data_size = dsize + length (concat segs),
      si_pos = pos + length (concat (map seg_enc segs)) + sizeof_SegmentSize\<rparr>"
proof (induction segs arbitrary: pos found dsize)
  case Nil
  then have d: "drop pos data = HostToLittleEndian sizeof_SegmentSize kFileSegmentMask @ rest"
    by simp
  have "pos + sizeof_SegmentSize \<le> length data"
    using drop_append_length(2)[OF d] by (auto simp flip: length_greater_0_conv)
  then show ?case
    using segment_size_at_enc[OF d]
    by (subst CheckStream_loop.simps) (simp add: file_part_def mask_part_def Let_def)
next
  case (Cons s segs)
  have ok: "s \<noteq> []" "length s \<le> kSegmentMaxDataSize" "segs_ok segs"
    using Cons.prems(2) by (auto simp: segs_ok_def)
  have d: "drop pos data = seg_enc s @ concat (map seg_enc segs) @
      HostToLittleEndian sizeof_SegmentSize kFileSegmentMask @ rest"
    using Cons.prems(1) by simp
  note hop = CheckStream_loop_segment[OF d ok(1,2)]
  show ?case
    using hop(1)[of processed found dsize] Cons.IH[OF hop(2) ok(3), of "found + 1" "dsize + length s"]
    by (simp add: ac_simps)
qed

section \<open>Sending files\<close>

text \<open>\<open>fld bytes b\<close>: in file mode everything handed over so far, written or still buffered, is \<open>bytes\<close>.\<close>

definition fld :: "byte list \<Rightarrow> builder \<Rightarrow> bool" where
  "fld bytes b \<longleftrightarrow> b_file_data b \<and> length (b_segment b) = kSegmentMaxTotalSize \<and>
     b_pos b \<le> kSegmentMaxDataSize + sizeof_SegmentSize \<and>
     concat (map fst (b_out b)) @ take (b_pos b) (b_segment b) = bytes"

lemma fld_flush:
  assumes "fld bytes b" and "\<not> b_pos b < kSegmentMaxDataSize"
  shows "fld bytes (FlushInternal (b_pos b) True b)"
  using assms by (auto simp: fld_def FlushInternal_def)

lemma FlushSegment_fld:
  assumes "fld bytes b"
  shows "\<exists>b'. FlushSegment False False b = Inr b' \<and> fld bytes b' \<and> b_pos b' < kSegmentMaxDataSize"
proof (cases "b_pos b < kSegmentMaxDataSize")
  case True
  then show ?thesis
    using assms by (simp add: FlushSegment_def)
next
  case False
  then have "FlushSegment False False b = Inr (FlushInternal (b_pos b) True b)"
    using assms kSegmentMaxDataSize_pos
    by (auto simp: FlushSegment_def fld_def Let_def simp del: kSegmentMaxDataSize_pos)
  then show ?thesis
    using fld_flush[OF assms False] by (simp add: FlushInternal_def)
qed

lemma FlushFileSegment_fld:
  assumes "fld bytes b"
  shows "\<exists>b'. FlushFileSegment b = Inr b' \<and> fld bytes b' \<and> b_pos b' < kSegmentMaxDataSize"
proof (cases "b_pos b < kSegmentMaxDataSize")
  case True
  then show ?thesis
    using assms by (simp add: FlushFileSegment_def)
next
  case False
  then have "FlushFileSegment b = Inr (FlushInternal (b_pos b) True b)"
    using kSegmentMaxDataSize_pos by (auto simp: FlushFileSegment_def simp del: kSegmentMaxDataSize_pos)
  then show ?thesis
    using fld_flush[OF assms False] by (simp add: FlushInternal_def)
qed

lemma copy_file_chunk_fld:
  assumes "fld bytes b" and "b_pos b + length chunk \<le> kSegmentMaxDataSize"
  shows "fld (bytes @ chunk) (copy_file_chunk chunk b)" and "copy_chunk chunk b = copy_file_chunk chunk b"
proof -
  have fits: "b_pos b + length chunk \<le> length (b_segment b)"
    using assms by (simp add: fld_def)
  show "fld (bytes @ chunk) (copy_file_chunk chunk b)"
    using assms by (auto simp: fld_def copy_file_chunk_def take_memcpy[OF fits] length_memcpy[OF fits])
  show "copy_chunk chunk b = copy_file_chunk chunk b"
    using assms(1) by (simp add: copy_chunk_def copy_file_chunk_def fld_def)
qed

lemma SaveFileBuffer_fld: "fld bytes b \<Longrightarrow> \<exists>b'. SaveFileBuffer data b = Inr b' \<and> fld (bytes @ data) b' \<and>
    (b_pos b \<noteq> 0 \<or> data \<noteq> [] \<longrightarrow> b_pos b' \<noteq> 0)"
proof (induction data b arbitrary: bytes rule: SaveFileBuffer.induct)
  case (1 data b)
  show ?case
  proof (cases "data = []")
    case True
    then show ?thesis
      using 1(2) by (subst SaveFileBuffer.simps) simp
  next
    case False
    obtain b1 where f: "FlushFileSegment b = Inr b1" "fld bytes b1" "b_pos b1 < kSegmentMaxDataSize"
      using FlushFileSegment_fld[OF 1(2)] by blast
    define n where "n = min (length data) (kSegmentMaxDataSize - b_pos b1)"
    have "fld (bytes @ take n data) (copy_file_chunk (take n data) b1)"
      by (rule copy_file_chunk_fld(1)[OF f(2)]) (use f(3) in \<open>auto simp: n_def\<close>)
    moreover have "b_pos (copy_file_chunk (take n data) b1) \<noteq> 0"
      using False f(3) by (simp add: copy_file_chunk_def n_def)
    ultimately obtain b' where "SaveFileBuffer (drop n data) (copy_file_chunk (take n data) b1) = Inr b'"
      "fld ((bytes @ take n data) @ drop n data) b'" "b_pos b' \<noteq> 0"
      using 1(1)[OF False f(1) n_def] by blast
    then show ?thesis
      using False f(1) by (subst SaveFileBuffer.simps) (simp add: n_def Let_def)
  qed
qed

lemma Save_fld: "fld bytes b \<Longrightarrow> \<exists>b'. Save data b = Inr b' \<and> fld (bytes @ data) b' \<and>
    (b_pos b \<noteq> 0 \<or> data \<noteq> [] \<longrightarrow> b_pos b' \<noteq> 0)"
proof (induction data b arbitrary: bytes rule: Save.induct)
  case (1 data b)
  show ?case
  proof (cases "data = []")
    case True
    then show ?thesis
      using 1(2) by (subst Save.simps) simp
  next
    case False
    obtain b1 where f: "FlushSegment False False b = Inr b1" "fld bytes b1" "b_pos b1 < kSegmentMaxDataSize"
      using FlushSegment_fld[OF 1(2)] by blast
    define n where "n = min (length data) (kSegmentMaxDataSize - b_pos b1)"
    have "b_pos b1 + length (take n data) \<le> kSegmentMaxDataSize"
      using f(3) by (auto simp: n_def)
    note copy = copy_file_chunk_fld[OF f(2) this]
    have "b_pos (copy_file_chunk (take n data) b1) \<noteq> 0"
      using False f(3) by (simp add: copy_file_chunk_def n_def)
    then obtain b' where "Save (drop n data) (copy_chunk (take n data) b1) = Inr b'"
      "fld ((bytes @ take n data) @ drop n data) b'" "b_pos b' \<noteq> 0"
      using 1(1)[OF False f(1) n_def, unfolded copy(2), OF copy(1)] unfolding copy(2) by blast
    then show ?thesis
      using False f(1) by (subst Save.simps) (simp add: n_def Let_def)
  qed
qed

lemma PrepareForFileSending_bld:
  assumes "bld segs [] b"
  shows "fld (concat (map seg_enc segs) @ HostToLittleEndian sizeof_SegmentSize kFileSegmentMask)
    (PrepareForFileSending b)"
proof -
  have "concat (map fst (b_out b)) = concat (map seg_enc segs)"
    using assms by (simp add: bld_def comp_def)
  then show ?thesis
    using assms by (simp add: bld_def fld_def PrepareForFileSending_def memcpy_def)
qed

lemma PrepareForFileSending_fld:
  assumes "fld bytes b" and "b_pos b \<le> kSegmentMaxDataSize"
  shows "fld (bytes @ HostToLittleEndian sizeof_SegmentSize kFileSegmentMask) (PrepareForFileSending b)"
proof -
  have fits: "b_pos b + length (HostToLittleEndian sizeof_SegmentSize kFileSegmentMask) \<le> length (b_segment b)"
    using assms by (simp add: fld_def)
  show ?thesis
    using assms take_memcpy[OF fits] length_memcpy[OF fits] by (auto simp: fld_def PrepareForFileSending_def)
qed

lemma Finalize_fld:
  assumes "fld bytes b" and "b_pos b \<noteq> 0"
  shows "\<exists>b'. Builder_Finalize b = Inr b' \<and> concat (map fst (b_out b')) = bytes @ footer"
proof -
  have fits: "b_pos b + length footer \<le> length (b_segment b)"
    using assms(1) by (simp add: fld_def)
  show ?thesis
    using assms take_memcpy[OF fits]
    by (auto simp: Builder_Finalize_def FlushSegment_def FlushInternal_def SaveFooter_def fld_def
        footer_def[symmetric] Let_def)
qed

section \<open>The transport interface\<close>

text \<open>What the serialisation functions rely on: pieces are saved one after the other on the
  sending side and loaded by size on the receiving side, oblivious of segment borders.\<close>

primrec save_all :: "('x \<Rightarrow> 's \<Rightarrow> 'e + 's) \<Rightarrow> 'x list \<Rightarrow> 's \<Rightarrow> 'e + 's" where
  "save_all save [] s = Inr s"
| "save_all save (x # xs) s = bind_result (save x s) (save_all save xs)"

primrec load_all :: "(nat \<Rightarrow> 'r \<Rightarrow> 'e + 'x \<times> 'r) \<Rightarrow> nat list \<Rightarrow> 'r \<Rightarrow> 'e + 'x list \<times> 'r" where
  "load_all load [] r = Inr ([], r)"
| "load_all load (n # ns) r = bind_result (load n r)
    (\<lambda>(x, r). bind_result (load_all load ns r) (\<lambda>(xs, r). Inr (x # xs, r)))"

locale byte_sender =
  fixes sent :: "byte list \<Rightarrow> 's \<Rightarrow> bool" and save :: "byte list \<Rightarrow> 's \<Rightarrow> 'e + 's"
  assumes save_sent: "sent d s \<Longrightarrow> \<exists>s'. save x s = Inr s' \<and> sent (d @ x) s'"
begin

lemma save_all_sent: "sent d s \<Longrightarrow> \<exists>s'. save_all save xs s = Inr s' \<and> sent (d @ concat xs) s'"
proof (induction xs arbitrary: d s)
  case (Cons x xs)
  obtain s1 where "save x s = Inr s1" "sent (d @ x) s1"
    using save_sent[OF Cons.prems] by blast
  then show ?case
    using Cons.IH[of "d @ x" s1] by simp
qed simp

end

locale byte_receiver =
  fixes unread :: "byte list \<Rightarrow> 'r \<Rightarrow> bool" and load :: "nat \<Rightarrow> 'r \<Rightarrow> 'e + byte list \<times> 'r"
  assumes load_unread: "unread d r \<Longrightarrow> n \<le> length d \<Longrightarrow> \<exists>r'. load n r = Inr (take n d, r') \<and> unread (drop n d) r'"
begin

lemma load_all_unread:
  "unread (concat xs @ d) r \<Longrightarrow> \<exists>r'. load_all load (map length xs) r = Inr (xs, r') \<and> unread d r'"
proof (induction xs arbitrary: r)
  case (Cons x xs)
  have "length x \<le> length (concat (x # xs) @ d)"
    by simp
  then obtain r1 where "load (length x) r = Inr (x, r1)" "unread (concat xs @ d) r1"
    using load_unread[OF Cons.prems] by fastforce
  then show ?case
    using Cons.IH[of r1] by auto
qed simp

end

text \<open>\<open>sent\<close> and \<open>unread\<close> for the builder and the reader.\<close>

definition builder_sent :: "byte list \<Rightarrow> builder \<Rightarrow> bool" where
  "builder_sent d b \<longleftrightarrow> (\<exists>segs cur. bld segs cur b \<and> concat segs @ cur = d \<and> (d \<noteq> [] \<longrightarrow> cur \<noteq> []))"

definition reader_unread :: "byte list \<Rightarrow> byte list \<Rightarrow> reader \<Rightarrow> bool" where
  "reader_unread rest d r \<longleftrightarrow> (\<exists>segs cur. rdr segs cur rest r \<and> cur @ concat segs = d)"

interpretation slk_builder: byte_sender builder_sent Save
proof
  fix d b x
  assume "builder_sent d b"
  then obtain segs cur where "bld segs cur b" "concat segs @ cur = d" "d \<noteq> [] \<longrightarrow> cur \<noteq> []"
    by (auto simp: builder_sent_def)
  then show "\<exists>b'. Save x b = Inr b' \<and> builder_sent (d @ x) b'"
    using Save_spec[of segs cur b x] by (fastforce simp: builder_sent_def)
qed

interpretation slk_file_builder: byte_sender fld SaveFileBuffer
  by unfold_locales (use SaveFileBuffer_fld in blast)

interpretation slk_reader: byte_receiver "reader_unread rest" Load for rest
proof
  fix d r n
  assume "reader_unread rest d r" and "n \<le> length d"
  then show "\<exists>r'. Load n r = Inr (take n d, r') \<and> reader_unread rest (drop n d) r'"
    using Load_spec by (fastforce simp: reader_unread_def)
qed

lemma builder_finished:
  assumes "builder_sent d b" and "d \<noteq> []"
  shows "\<exists>b' segs. Builder_Finalize b = Inr b' \<and> concat (map fst (b_out b')) = stream_of segs \<and>
    segs_ok segs \<and> concat segs = d \<and> map snd (b_out b') = replicate (length segs - 1) True @ [False]"
proof -
  obtain segs cur where b: "bld segs cur b" "concat segs @ cur = d" "cur \<noteq> []"
    using assms by (auto simp: builder_sent_def)
  then obtain b' where "Builder_Finalize b = Inr b'"
    "b_out b' = map (\<lambda>s. (seg_enc s, True)) segs @ [(seg_enc cur @ footer, False)]"
    using Finalize_spec[OF b(1,3)] by blast
  moreover have "segs_ok (segs @ [cur])"
    using b by (auto simp: bld_def segs_ok_def)
  ultimately show ?thesis
    using b(2) by (intro exI[of _ b'] exI[of _ "segs @ [cur]"])
      (simp add: stream_of_def comp_def map_replicate_const)
qed

lemma reader_finished:
  assumes "reader_unread rest [] r"
  shows "\<exists>r'. Reader_Finalize r = Inr r' \<and> drop (r_pos r') (r_data r') = rest"
proof -
  obtain segs where "rdr segs [] rest r" "concat segs = []"
    using assms by (auto simp: reader_unread_def)
  moreover have "segs = []"
    using calculation by (cases segs) (auto simp: rdr_def segs_ok_def)
  ultimately have r: "rdr [] [] rest r"
    by simp
  then have "drop (r_pos r) (r_data r) = footer @ rest"
    by (simp add: rdr_def stream_of_def)
  from drop_append_length(1)[OF this] show ?thesis
    using Reader_Finalize_spec[OF r] by simp
qed

lemma builder_sent_new: "builder_sent [] Builder_new"
  using bld_new by (auto simp: builder_sent_def)

section \<open>Properties\<close>

text \<open>C19: Whatever pieces are saved into a fresh builder (at least one byte in total), finalising it
  succeeds, and a reader of the written stream, with any bytes after it, loads the same pieces, accepts the end of
  the message and stops exactly behind it.\<close>

theorem slk_round_trip:
  assumes "concat pieces \<noteq> []"
  shows "\<exists>b stream. bind_result (save_all Save pieces Builder_new) Builder_Finalize = Inr b \<and>
    stream = concat (map fst (b_out b)) \<and>
    (\<exists>r r'. load_all Load (map length pieces) (Reader_new (stream @ rest)) = Inr (pieces, r) \<and>
       Reader_Finalize r = Inr r' \<and> drop (r_pos r') (r_data r') = rest)"
proof -
  obtain b1 where b1: "save_all Save pieces Builder_new = Inr b1" "builder_sent (concat pieces) b1"
    using slk_builder.save_all_sent[OF builder_sent_new] by fastforce
  obtain b segs where b: "Builder_Finalize b1 = Inr b" "concat (map fst (b_out b)) = stream_of segs"
    "segs_ok segs" "concat segs = concat pieces"
    using builder_finished[OF b1(2) assms] by blast
  have "reader_unread rest (concat pieces @ []) (Reader_new (stream_of segs @ rest))"
    using rdr_new[OF b(3), of rest] b(4) unfolding reader_unread_def
    by (intro exI[of _ segs] exI[of _ "[]"]) simp
  from slk_reader.load_all_unread[OF this] obtain r where
    "load_all Load (map length pieces) (Reader_new (stream_of segs @ rest)) = Inr (pieces, r)"
    "reader_unread rest [] r"
    by blast
  then show ?thesis
    using b1(1) b(1,2) reader_finished by auto
qed

theorem slk_round_trip_witness:
  "concat [[1, 2], [], [3 :: byte]] \<noteq> [] \<and>
   (\<exists>b stream. bind_result (save_all Save [[1, 2], [], [3]] Builder_new) Builder_Finalize = Inr b \<and>
      stream = concat (map fst (b_out b)) \<and>
      (\<exists>r r'. load_all Load (map length [[1, 2], [], [3 :: byte]]) (Reader_new (stream @ [9])) =
           Inr ([[1, 2], [], [3]], r) \<and>
         Reader_Finalize r = Inr r' \<and> drop (r_pos r') (r_data r') = [9]))"
  using slk_round_trip[of "[[1, 2], [], [3]]" "[9]"] by simp

text \<open>C22: The receiver's check reports a finished message as complete, with its exact length and data
  size, and every proper prefix of it as partial, however the network splits it.\<close>

theorem slk_stream_status:
  assumes "concat pieces \<noteq> []"
    and "bind_result (save_all Save pieces Builder_new) Builder_Finalize = Inr b"
    and "stream = concat (map fst (b_out b))"
  shows "CheckStreamStatus (stream @ rest) None processed =
      \<lparr>si_status = COMPLETE, si_stream_size = length stream,
       si_encoded_data_size = length (concat pieces), si_pos = length stream\<rparr> \<and>
    (k < length stream \<longrightarrow> si_status (CheckStreamStatus (take k stream) None processed) = PARTIAL)"
proof -
  obtain b1 where b1: "save_all Save pieces Builder_new = Inr b1" "builder_sent (concat pieces) b1"
    using slk_builder.save_all_sent[OF builder_sent_new] by fastforce
  obtain segs where segs: "stream = stream_of segs" "segs_ok segs" "concat segs = concat pieces"
    using builder_finished[OF b1(2) assms(1)] assms(2,3) b1(1) by auto
  have "segs \<noteq> []"
    using assms(1) segs(3) by auto
  then have "CheckStreamStatus (stream @ rest) None processed =
      \<lparr>si_status = COMPLETE, si_stream_size = length stream,
       si_encoded_data_size = length (concat pieces), si_pos = length stream\<rparr>"
    using CheckStream_loop_complete[of 0 "stream @ rest" segs rest processed 0 0] segs
    by (simp add: CheckStreamStatus_def footer_part_def)
  moreover have "si_status (CheckStreamStatus (take k stream) None processed) = PARTIAL" if "k < length stream"
    using CheckStream_loop_partial[of 0 "take k stream" k segs processed 0 0] segs that
    by (simp add: CheckStreamStatus_def)
  ultimately show ?thesis
    by blast
qed

lemma small_stream:
  "\<exists>b. bind_result (save_all Save [[7]] Builder_new) Builder_Finalize = Inr b"
proof -
  obtain b1 where "save_all Save [[7]] Builder_new = Inr b1" "builder_sent [7] b1"
    using slk_builder.save_all_sent[OF builder_sent_new, of "[[7]]"] by auto
  then show ?thesis
    using builder_finished[of "[7]" b1] by auto
qed

theorem slk_stream_status_witness:
  "\<exists>b stream. concat [[7 :: byte]] \<noteq> [] \<and>
     bind_result (save_all Save [[7]] Builder_new) Builder_Finalize = Inr b \<and>
     stream = concat (map fst (b_out b)) \<and>
     si_status (CheckStreamStatus (stream @ [5]) None 0) = COMPLETE \<and>
     si_encoded_data_size (CheckStreamStatus (stream @ [5]) None 0) = 1"
proof -
  obtain b where b: "bind_result (save_all Save [[7]] Builder_new) Builder_Finalize = Inr b"
    using small_stream by blast
  then show ?thesis
    using slk_stream_status[OF _ b refl, of "[5]" 0 0] by (intro exI[of _ b]) simp
qed

text \<open>C23: A file transfer (the request is saved and force-flushed, the file mask is placed, the file
  name, size and contents follow, the message is finalised) puts on the wire the request's segments, the mask,
  the raw file bytes and the footer; the receiver's check finds the start of the file right behind the mask.\<close>

theorem slk_file_transfer:
  assumes "request \<noteq> []"
  shows "\<exists>b segs. bind_result (Save request Builder_new) (\<lambda>b. bind_result (FlushSegment False True b)
      (\<lambda>b. bind_result (Save meta (PrepareForFileSending b)) (\<lambda>b. bind_result (SaveFileBuffer content b)
      Builder_Finalize))) = Inr b \<and>
    concat segs = request \<and> segs_ok segs \<and>
    (let head = concat (map seg_enc segs) @ HostToLittleEndian sizeof_SegmentSize kFileSegmentMask;
         stream = concat (map fst (b_out b))
     in stream = head @ meta @ content @ footer \<and>
        si_status (CheckStreamStatus stream None 0) = NEW_FILE \<and>
        drop (si_pos (CheckStreamStatus stream None 0)) stream = meta @ content @ footer)"
proof -
  obtain segs cur b1 where b1: "Save request Builder_new = Inr b1" "bld segs cur b1" "concat segs @ cur = request" "cur \<noteq> []"
    using Save_spec[OF bld_new, of request] assms by auto
  obtain b2 where b2: "FlushSegment False True b1 = Inr b2" "bld (segs @ [cur]) [] b2"
    using FlushSegment_bld[OF b1(2,4)] by blast
  define head where "head = concat (map seg_enc (segs @ [cur])) @ HostToLittleEndian sizeof_SegmentSize kFileSegmentMask"
  have "fld head (PrepareForFileSending b2)" and "b_pos (PrepareForFileSending b2) \<noteq> 0"
    using PrepareForFileSending_bld[OF b2(2)] by (simp_all add: head_def PrepareForFileSending_def)
  then obtain b3 where b3: "Save meta (PrepareForFileSending b2) = Inr b3" "fld (head @ meta) b3" "b_pos b3 \<noteq> 0"
    using Save_fld by blast
  then obtain b4 where b4: "SaveFileBuffer content b3 = Inr b4" "fld ((head @ meta) @ content) b4" "b_pos b4 \<noteq> 0"
    using SaveFileBuffer_fld by blast
  then obtain b5 where b5: "Builder_Finalize b4 = Inr b5" "concat (map fst (b_out b5)) = head @ meta @ content @ footer"
    using Finalize_fld[OF b4(2,3)] by auto
  have ok: "segs_ok (segs @ [cur])"
    using b2(2) by (simp add: bld_def)
  have status: "CheckStreamStatus (head @ meta @ content @ footer) None 0 =
      \<lparr>si_status = NEW_FILE, si_stream_size = length (head @ meta @ content @ footer),
       si_encoded_data_size = length (concat (segs @ [cur])), si_pos = length head\<rparr>"
    using CheckStream_loop_mask[of 0 "head @ meta @ content @ footer" "segs @ [cur]" "meta @ content @ footer" 0 0 0] ok
    by (simp add: CheckStreamStatus_def head_def)
  show ?thesis
    using b1(1,3) b2(1) b3(1) b4(1) b5 ok status
    by (intro exI[of _ b5] exI[of _ "segs @ [cur]"]) (simp add: Let_def, simp add: head_def)
qed

theorem slk_file_transfer_witness:
  "[1 :: byte] \<noteq> [] \<and>
   (\<exists>b segs. bind_result (Save [1] Builder_new) (\<lambda>b. bind_result (FlushSegment False True b)
      (\<lambda>b. bind_result (Save [2] (PrepareForFileSending b)) (\<lambda>b. bind_result (SaveFileBuffer [3, 4] b)
      Builder_Finalize))) = Inr b \<and> concat segs = [1 :: byte] \<and>
      si_status (CheckStreamStatus (concat (map fst (b_out b))) None 0) = NEW_FILE)"
proof -
  have "[1 :: byte] \<noteq> []"
    by simp
  from slk_file_transfer[OF this, of "[2]" "[3, 4]"] show ?thesis
    unfolding Let_def by (elim exE conjE) (intro conjI exI; assumption?; simp?)
qed

end
