(* ===== verification/PropertyMap.thy ===== *)
theory PropertyMap
  imports PropertyValue
begin

text \<open>
  The property store of a vertex or an edge, at the level its callers see
  (src/storage/v2/property_store.hpp): a finite map from property ids to values without
  nulls, kept in the order of the ids as \<open>std::map\<close> and the encoded buffer keep it.
  The byte encoding inside the store is not part of this theory.  What the undo deltas rely
  on (writing back the old value restores the store) is proved from the contract
  \<open>property_store\<close>.
\<close>

type_synonym property_id = nat
type_synonym property_map = "(property_id \<times> pv) list"

section \<open>Ordered maps\<close>

text \<open>\<open>std::map\<close>: \<open>insert_or_assign\<close>, \<open>erase\<close> and \<open>emplace\<close> on a list in key order.\<close>

fun map_assign :: "nat \<Rightarrow> 'v \<Rightarrow> (nat \<times> 'v) list \<Rightarrow> (nat \<times> 'v) list" where
  "map_assign k v [] = [(k, v)]"
| "map_assign k v ((k', v') # m) =
    (if k < k' then (k, v) # (k', v') # m else if k = k' then (k, v) # m else (k', v') # map_assign k v m)"

fun map_erase :: "nat \<Rightarrow> (nat \<times> 'v) list \<Rightarrow> (nat \<times> 'v) list" where
  "map_erase k [] = []"
| "map_erase k ((k', v') # m) = (if k = k' then m else (k', v') # map_erase k m)"

definition map_emplace :: "nat \<Rightarrow> 'v \<Rightarrow> (nat \<times> 'v) list \<Rightarrow> (nat \<times> 'v) list" where
  "map_emplace k v m = (if k \<in> set (map fst m) then m else map_assign k v m)"

definition ordered_map :: "(nat \<times> 'v) list \<Rightarrow> bool" where
  "ordered_map m \<longleftrightarrow> sorted_wrt (<) (map fst m)"

lemma ordered_map_Nil [simp]: "ordered_map []"
  by (simp add: ordered_map_def)

lemma ordered_map_Cons: "ordered_map ((k, v) # m) \<longleftrightarrow> (\<forall>k' \<in> fst ` set m. k < k') \<and> ordered_map m"
  by (auto simp: ordered_map_def)

lemma ordered_map_distinct: "ordered_map m \<Longrightarrow> distinct (map fst m)"
  using strict_sorted_iff by (auto simp: ordered_map_def)

lemma keys_map_assign [simp]: "fst ` set (map_assign k v m) = insert k (fst ` set m)"
  by (induction k v m rule: map_assign.induct) auto

lemma keys_map_erase: "ordered_map m \<Longrightarrow> fst ` set (map_erase k m) = fst ` set m - {k}"
  by (induction k m rule: map_erase.induct) (auto simp: ordered_map_Cons)

lemma map_of_assign: "ordered_map m \<Longrightarrow> map_of (map_assign k v m) = (map_of m)(k \<mapsto> v)"
  by (induction k v m rule: map_assign.induct) (auto simp: ordered_map_Cons fun_eq_iff)

lemma map_of_erase: "ordered_map m \<Longrightarrow> map_of (map_erase k m) = (map_of m)(k := None)"
proof (induction k m rule: map_erase.induct)
  case (2 k k' v' m)
  have "map_of m k' = None" if "k = k'"
    using 2(2) by (auto simp: ordered_map_Cons map_of_eq_None_iff)
  with 2 show ?case
    by (auto simp: ordered_map_Cons fun_eq_iff)
qed simp

lemma ordered_map_assign [wf_intros]: "ordered_map m \<Longrightarrow> ordered_map (map_assign k v m)"
  by (induction k v m rule: map_assign.induct) (auto simp: ordered_map_Cons)

lemma ordered_map_erase [wf_intros]: "ordered_map m \<Longrightarrow> ordered_map (map_erase k m)"
  by (induction k m rule: map_erase.induct) (auto simp: ordered_map_Cons keys_map_erase)

lemma ordered_map_filter: "ordered_map m \<Longrightarrow> ordered_map (filter P m)"
  by (induction m) (auto simp: ordered_map_Cons)

lemma values_map_assign: "snd ` set (map_assign k v m) \<subseteq> insert v (snd ` set m)"
  by (induction k v m rule: map_assign.induct) auto

lemma set_map_erase: "set (map_erase k m) \<subseteq> set m"
  by (induction k m rule: map_erase.induct) auto

lemma ordered_map_ext:
  assumes "ordered_map m" and "ordered_map m'" and "map_of m = map_of m'"
  shows "m = m'"
proof -
  have "set m = set m'"
    using assms map_of_eq_Some_iff[OF ordered_map_distinct] by (metis prod.exhaust subsetI subset_antisym)
  moreover have "sorted (map fst m)" "sorted (map fst m')"
    using assms by (auto simp: ordered_map_def strict_sorted_iff)
  moreover have "distinct (map fst m)" "distinct (map fst m')"
    using assms ordered_map_distinct by auto
  ultimately show ?thesis
    by (intro map_sorted_distinct_set_unique[of fst]) (auto simp: distinct_map)
qed

section \<open>The store\<close>

definition GetProperty :: "property_id \<Rightarrow> property_map \<Rightarrow> pv" where
  "GetProperty p s = (case map_of s p of Some v \<Rightarrow> v | None \<Rightarrow> PV_Null)"

definition HasProperty :: "property_id \<Rightarrow> property_map \<Rightarrow> bool" where
  "HasProperty p s \<longleftrightarrow> map_of s p \<noteq> None"

text \<open>\<open>SetProperty\<close> returns whether the property was not there before.\<close>

definition SetProperty :: "property_id \<Rightarrow> pv \<Rightarrow> property_map \<Rightarrow> bool \<times> property_map" where
  "SetProperty p v s =
    (\<not> HasProperty p s, if v = PV_Null then map_erase p s else map_assign p v s)"

definition set_prop :: "property_id \<Rightarrow> pv \<Rightarrow> property_map \<Rightarrow> property_map" where
  "set_prop p v s = snd (SetProperty p v s)"

definition InitProperties :: "property_map \<Rightarrow> property_map \<Rightarrow> bool \<times> property_map" where
  "InitProperties properties s =
    (if s \<noteq> [] then (False, s) else (True, filter (\<lambda>(p, v). v \<noteq> PV_Null) properties))"

definition ClearProperties :: "property_map \<Rightarrow> bool \<times> property_map" where
  "ClearProperties s = (s \<noteq> [], [])"

text \<open>The second loop of \<open>UpdateProperties\<close>: the old entries go into the caller's map, and those
  that were overridden are reported.\<close>

fun update_old :: "property_map \<Rightarrow> property_map \<Rightarrow> (property_id \<times> pv \<times> pv) list
    \<Rightarrow> property_map \<times> (property_id \<times> pv \<times> pv) list" where
  "update_old [] properties ch = (properties, ch)"
| "update_old ((k, old) # olds) properties ch =
    (case map_of properties k of
       None \<Rightarrow> update_old olds (map_emplace k old properties) ch
     | Some new \<Rightarrow> update_old olds properties (ch @ [(k, old, new)]))"

definition UpdateProperties ::
    "property_map \<Rightarrow> property_map \<Rightarrow> (property_id \<times> pv \<times> pv) list \<times> property_map" where
  "UpdateProperties properties s =
    (let added = [(p, PV_Null, v). (p, v) \<leftarrow> properties, map_of s p = None];
         (merged, ch) = update_old s properties added
     in (ch, snd (InitProperties merged (snd (ClearProperties s)))))"

definition ExtractPropertyValuesMissingAsNull :: "property_id list \<Rightarrow> property_map \<Rightarrow> pv list" where
  "ExtractPropertyValuesMissingAsNull ps s = map (\<lambda>p. GetProperty p s) ps"

definition props_ok :: "property_map \<Rightarrow> bool" where
  "props_ok s \<longleftrightarrow> ordered_map s \<and> PV_Null \<notin> snd ` set s"

section \<open>The contract of a property store\<close>

locale property_store =
  fixes get :: "'k \<Rightarrow> 's \<Rightarrow> 'v"
    and put :: "'k \<Rightarrow> 'v \<Rightarrow> 's \<Rightarrow> 's"
    and ok :: "'s \<Rightarrow> bool"
  assumes get_put: "ok s \<Longrightarrow> get q (put p v s) = (if q = p then v else get q s)"
    and put_ok: "ok s \<Longrightarrow> ok (put p v s)"
    and ext: "\<lbrakk>ok s; ok t; \<And>p. get p s = get p t\<rbrakk> \<Longrightarrow> s = t"
begin

lemma put_undo: "ok s \<Longrightarrow> put p (get p s) (put p v s) = s"
  by (rule ext) (auto simp: get_put put_ok)

lemma put_same: "ok s \<Longrightarrow> put p (get p s) s = s"
  by (rule ext) (auto simp: get_put put_ok)

lemma put_put: "ok s \<Longrightarrow> put p v (put p w s) = put p v s"
  by (rule ext) (auto simp: get_put put_ok)

lemma put_commute: "ok s \<Longrightarrow> p \<noteq> q \<Longrightarrow> put p v (put q w s) = put q w (put p v s)"
  by (rule ext) (auto simp: get_put put_ok)

end

lemma props_ok_set_prop [wf_intros]: "props_ok s \<Longrightarrow> props_ok (set_prop p v s)"
  using values_map_assign[of p v s] set_map_erase[of p s]
  by (auto simp: props_ok_def set_prop_def SetProperty_def intro: wf_intros)

lemma props_ok_map_of: "props_ok s \<Longrightarrow> map_of s p \<noteq> Some PV_Null"
  unfolding props_ok_def using map_of_SomeD by force

lemma GetProperty_inject:
  assumes "props_ok s" "props_ok t" "\<And>p. GetProperty p s = GetProperty p t"
  shows "s = t"
proof (rule ordered_map_ext)
  show "map_of s = map_of t"
  proof
    fix p
    show "map_of s p = map_of t p"
      using assms(3)[of p] props_ok_map_of[OF assms(1), of p] props_ok_map_of[OF assms(2), of p]
      by (auto simp: GetProperty_def split: option.splits)
  qed
qed (use assms in \<open>auto simp: props_ok_def\<close>)

interpretation ps: property_store GetProperty set_prop props_ok
proof unfold_locales
  show "props_ok s \<Longrightarrow> GetProperty q (set_prop p v s) = (if q = p then v else GetProperty q s)" for s q p v
    by (auto simp: props_ok_def GetProperty_def set_prop_def SetProperty_def map_of_assign map_of_erase)
qed (auto intro: wf_intros GetProperty_inject)

lemma props_ok_Nil [simp]: "props_ok []"
  by (simp add: props_ok_def)

section \<open>Updating several properties\<close>

lemma update_old_spec:
  assumes "update_old olds ps ch = (merged, ch')" and "ordered_map ps" and "distinct (map fst olds)"
    and "\<forall>(k, old) \<in> set olds. map_of ps0 k = map_of ps k"
  shows "ordered_map merged \<and>
    map_of merged = (\<lambda>q. case map_of ps q of Some v \<Rightarrow> Some v | None \<Rightarrow> map_of olds q) \<and>
    set ch' = set ch \<union> {(k, old, new). (k, old) \<in> set olds \<and> map_of ps0 k = Some new}"
  using assms
proof (induction olds arbitrary: ps ch)
  case Nil
  then show ?case
    by (auto simp: fun_eq_iff split: option.splits)
next
  case (Cons ko olds)
  obtain k old where ko: "ko = (k, old)"
    by (cases ko)
  show ?case
  proof (cases "map_of ps k")
    case None
    then have k: "k \<notin> set (map fst ps)"
      by (simp add: map_of_eq_None_iff)
    have "ordered_map (map_emplace k old ps)" "map_of (map_emplace k old ps) = (map_of ps)(k \<mapsto> old)"
      using k Cons.prems(2) by (simp_all add: map_emplace_def map_of_assign ordered_map_assign)
    moreover have "update_old olds (map_emplace k old ps) ch = (merged, ch')"
      using Cons.prems(1) ko None by simp
    moreover have "\<forall>(j, old') \<in> set olds. map_of ps0 j = ((map_of ps)(k \<mapsto> old)) j"
      using Cons.prems(3,4) ko by force
    ultimately have "ordered_map merged \<and>
      map_of merged = (\<lambda>q. case ((map_of ps)(k \<mapsto> old)) q of Some v \<Rightarrow> Some v | None \<Rightarrow> map_of olds q) \<and>
      set ch' = set ch \<union> {(k, old, new). (k, old) \<in> set olds \<and> map_of ps0 k = Some new}"
      using Cons.IH[of "map_emplace k old ps" ch] Cons.prems(3) ko by simp
    moreover have "map_of ps0 k = None"
      using Cons.prems(4) ko None by auto
    ultimately show ?thesis
      using ko None by (auto simp: fun_eq_iff split: option.splits)
  next
    case (Some new)
    then have "update_old olds ps (ch @ [(k, old, new)]) = (merged, ch')"
      using Cons.prems(1) ko by simp
    then have "ordered_map merged \<and>
      map_of merged = (\<lambda>q. case map_of ps q of Some v \<Rightarrow> Some v | None \<Rightarrow> map_of olds q) \<and>
      set ch' = set (ch @ [(k, old, new)]) \<union> {(k, old, new). (k, old) \<in> set olds \<and> map_of ps0 k = Some new}"
      using Cons.IH[of ps "ch @ [(k, old, new)]"] Cons.prems ko by auto
    moreover have "map_of ps0 k = Some new"
      using Cons.prems(4) ko Some by auto
    ultimately show ?thesis
      using ko Some by (auto simp: fun_eq_iff split: option.splits)
  qed
qed

lemma map_of_filter_nonnull: "ordered_map m \<Longrightarrow> map_of (filter (\<lambda>(p, v). v \<noteq> PV_Null) m) q = (case map_of m q of Some v \<Rightarrow> if v = PV_Null then None else Some v | None \<Rightarrow> None)"
proof (induction m)
  case (Cons kv m)
  obtain k v where "kv = (k, v)"
    by (cases kv)
  moreover have "map_of m k = None" if "ordered_map ((k, v) # m)"
    using that by (auto simp: ordered_map_Cons map_of_eq_None_iff)
  ultimately show ?case
    using Cons by (auto simp: ordered_map_Cons)
qed simp

lemma props_ok_filter_nonnull: "ordered_map m \<Longrightarrow> props_ok (filter (\<lambda>(p, v). v \<noteq> PV_Null) m)"
  by (auto simp: props_ok_def ordered_map_filter)

lemma GetProperty_filter_nonnull:
  "ordered_map m \<Longrightarrow> GetProperty q (filter (\<lambda>(p, v). v \<noteq> PV_Null) m) = GetProperty q m"
  by (simp add: GetProperty_def map_of_filter_nonnull split: option.splits)

text \<open>\<open>UpdateProperties\<close> reports the old and the new value of everything it changes.\<close>

lemma UpdateProperties_spec:
  assumes u: "UpdateProperties ps s = (ch, s')" and ps: "ordered_map ps" and s: "props_ok s"
  shows "props_ok s'"
    and "(p, old, new) \<in> set ch \<Longrightarrow> old = GetProperty p s \<and> new = GetProperty p s'"
    and "p \<notin> fst ` set ch \<Longrightarrow> GetProperty p s' = GetProperty p s"
proof -
  let ?added = "[(p, PV_Null, v). (p, v) \<leftarrow> ps, map_of s p = None]"
  obtain merged where m: "update_old s ps ?added = (merged, ch)" and s': "s' = filter (\<lambda>(p, v). v \<noteq> PV_Null) merged"
    using u by (auto simp: UpdateProperties_def Let_def InitProperties_def ClearProperties_def split: prod.splits)
  have so: "ordered_map s"
    using s by (simp add: props_ok_def)
  have spec: "ordered_map merged" "map_of merged = (\<lambda>q. case map_of ps q of Some v \<Rightarrow> Some v | None \<Rightarrow> map_of s q)"
    "set ch = set ?added \<union> {(k, old, new). (k, old) \<in> set s \<and> map_of ps k = Some new}"
    using update_old_spec[OF m ps ordered_map_distinct[OF so], of ps] by auto
  show "props_ok s'"
    unfolding s' by (rule props_ok_filter_nonnull[OF spec(1)])
  have get: "GetProperty q s' = (case map_of ps q of Some v \<Rightarrow> v | None \<Rightarrow> GetProperty q s)" for q
    unfolding s' GetProperty_filter_nonnull[OF spec(1)] by (simp add: GetProperty_def spec(2) split: option.splits)
  have mem: "map_of ps k = Some v" if "(k, v) \<in> set ps" for k v
    using that ordered_map_distinct[OF ps] by simp
  have mem': "map_of s k = Some v" if "(k, v) \<in> set s" for k v
    using that ordered_map_distinct[OF so] by simp
  show "old = GetProperty p s \<and> new = GetProperty p s'" if "(p, old, new) \<in> set ch"
    using that unfolding spec(3) get by (auto simp: GetProperty_def dest: mem mem' split: if_splits)
  show "GetProperty p s' = GetProperty p s" if "p \<notin> fst ` set ch"
  proof (cases "map_of ps p")
    case None
    then show ?thesis
      by (simp add: get)
  next
    case (Some v)
    then have "(p, v) \<in> set ps"
      by (rule map_of_SomeD)
    then have "\<exists>old new. (p, old, new) \<in> set ch"
      using Some unfolding spec(3) by (cases "map_of s p") (auto dest: map_of_SomeD intro!: bexI)
    then show ?thesis
      using that by force
  qed
qed

end
