(* ===== verification/DeltaModel.thy ===== *)
theory DeltaModel
  imports PropertyMap
begin

text \<open>
  Undo deltas (src/storage/v2/delta.hpp, delta_action.hpp): the two tagged pointers,
  the delta record, and the objects that own delta chains
  (src/storage/v2/vertex.hpp, edge.hpp).  A delta chain (the \<open>next\<close> pointers) is a list
  with the newest delta first; a \<open>CommitInfo\<close> is named by the id of the transaction
  that allocated it; pointers to vertices and edges are their gids; the address of a delta
  is its \<open>d_uid\<close>.
\<close>

section \<open>Tagged pointers\<close>

text \<open>\<open>PreviousPtr\<close>: the two low bits of the word say what it points to.\<close>

definition kDelta :: "64 word" where "kDelta = 0b01"
definition kVertex :: "64 word" where "kVertex = 0b10"
definition kEdge :: "64 word" where "kEdge = 0b11"
definition kMask :: "64 word" where "kMask = 0b11"

datatype prev_ptr = NULL_PTR | PTR_DELTA "64 word" | PTR_VERTEX "64 word" | PTR_EDGE "64 word"

datatype ptr_error = Invalid_pointer | Invalid_pointer_type

definition PreviousPtr_Get :: "64 word \<Rightarrow> ptr_error + prev_ptr" where
  "PreviousPtr_Get storage =
    (if storage = 0 then Inr NULL_PTR
     else
       let t = storage AND kMask
       in if t = kDelta then Inr (PTR_DELTA (storage AND NOT kMask))
          else if t = kVertex then Inr (PTR_VERTEX (storage AND NOT kMask))
          else if t = kEdge then Inr (PTR_EDGE (storage AND NOT kMask))
          else Inl Invalid_pointer_type)"

definition set_tagged :: "64 word \<Rightarrow> 64 word \<Rightarrow> ptr_error + 64 word" where
  "set_tagged tag value = (if value AND kMask = 0 then Inr (value OR tag) else Inl Invalid_pointer)"

fun PreviousPtr_Set :: "prev_ptr \<Rightarrow> ptr_error + 64 word" where
  "PreviousPtr_Set NULL_PTR = Inr 0"
| "PreviousPtr_Set (PTR_DELTA d) = set_tagged kDelta d"
| "PreviousPtr_Set (PTR_VERTEX v) = set_tagged kVertex v"
| "PreviousPtr_Set (PTR_EDGE e) = set_tagged kEdge e"

text \<open>\<open>TaggedVertexPtr\<close>: the state of an edge delta in the low bits of its vertex pointer.\<close>

datatype DeltaChainState = SEQUENTIAL | NON_SEQUENTIAL | FORCED_SEQUENTIAL

definition state_bits :: "DeltaChainState \<Rightarrow> 64 word" where
  "state_bits s = (case s of SEQUENTIAL \<Rightarrow> 0 | NON_SEQUENTIAL \<Rightarrow> 1 | FORCED_SEQUENTIAL \<Rightarrow> 2)"

definition Tagged_Get :: "64 word \<Rightarrow> 64 word" where
  "Tagged_Get p = p AND NOT 3"

definition Tagged_GetState :: "64 word \<Rightarrow> DeltaChainState option" where
  "Tagged_GetState p =
    (let flags = p AND 3
     in if flags = 0 then Some SEQUENTIAL else if flags = 1 then Some NON_SEQUENTIAL
        else if flags = 2 then Some FORCED_SEQUENTIAL else None)"

definition Tagged_Set :: "64 word \<Rightarrow> DeltaChainState \<Rightarrow> 64 word" where
  "Tagged_Set vertex s = vertex OR state_bits s"

definition Tagged_SetState :: "64 word \<Rightarrow> DeltaChainState \<Rightarrow> 64 word" where
  "Tagged_SetState p s = (p AND NOT 3) OR state_bits s"

lemma low_bits:
  fixes v t m :: "64 word"
  assumes "v AND m = 0" and "t AND NOT m = 0"
  shows "(v OR t) AND m = t" and "(v OR t) AND NOT m = v"
proof -
  have v: "\<not> bit m n" if "bit v n" for n
    using arg_cong[OF assms(1), of "\<lambda>w. bit w n"] that by (simp add: bit_and_iff)
  have t: "bit m n" if "bit t n" for n
    using arg_cong[OF assms(2), of "\<lambda>w. bit w n"] that bit_imp_le_length[OF that]
    by (simp add: bit_and_iff bit_not_iff)
  show "(v OR t) AND m = t" and "(v OR t) AND NOT m = v"
    by (rule bit_word_eqI; auto simp: bit_and_iff bit_or_iff bit_not_iff dest: v t)+
qed

lemma kMask_3: "kMask = 3"
  by (simp add: kMask_def)

lemma tag_bits: "kDelta AND NOT 3 = 0" "kVertex AND NOT 3 = 0" "kEdge AND NOT 3 = 0" "state_bits s AND NOT 3 = 0"
  by (simp_all add: kDelta_def kVertex_def kEdge_def state_bits_def split: DeltaChainState.splits)

section \<open>Deltas\<close>

type_synonym gid = nat
type_synonym label_id = nat
type_synonym edge_type_id = nat
type_synonym edge_ref = gid

text \<open>The payload of a delta.  The action names say what undoing does.\<close>

datatype delta_op =
    DELETE_DESERIALIZED_OBJECT
  | DELETE_OBJECT
  | RECREATE_OBJECT
  | SET_PROPERTY property_id pv "gid option"
  | ADD_LABEL label_id
  | REMOVE_LABEL label_id
  | ADD_IN_EDGE edge_type_id gid edge_ref DeltaChainState
  | ADD_OUT_EDGE edge_type_id gid edge_ref DeltaChainState
  | REMOVE_IN_EDGE edge_type_id gid edge_ref DeltaChainState
  | REMOVE_OUT_EDGE edge_type_id gid edge_ref DeltaChainState

record delta =
  d_uid :: nat
  d_commit_info :: nat
  d_command_id :: nat
  d_op :: delta_op

datatype NonSeqPropagationState = PROP_NONE | PROP_PENDING | PROP_HANDLED

record commit_info =
  ci_timestamp :: nat
  ci_non_seq_propagation :: NonSeqPropagationState

definition CanBeNonSequential :: "delta_op \<Rightarrow> bool" where
  "CanBeNonSequential a = (case a of REMOVE_IN_EDGE _ _ _ _ \<Rightarrow> True | REMOVE_OUT_EDGE _ _ _ _ \<Rightarrow> True | _ \<Rightarrow> False)"

text \<open>\<open>vertex_edge.vertex.GetState()\<close> and \<open>SetState\<close>.\<close>

definition op_state :: "delta_op \<Rightarrow> DeltaChainState option" where
  "op_state a = (case a of REMOVE_IN_EDGE _ _ _ s \<Rightarrow> Some s | REMOVE_OUT_EDGE _ _ _ s \<Rightarrow> Some s
     | ADD_IN_EDGE _ _ _ s \<Rightarrow> Some s | ADD_OUT_EDGE _ _ _ s \<Rightarrow> Some s | _ \<Rightarrow> None)"

definition set_op_state :: "DeltaChainState \<Rightarrow> delta_op \<Rightarrow> delta_op" where
  "set_op_state s a = (case a of REMOVE_IN_EDGE t v e _ \<Rightarrow> REMOVE_IN_EDGE t v e s
     | REMOVE_OUT_EDGE t v e _ \<Rightarrow> REMOVE_OUT_EDGE t v e s
     | ADD_IN_EDGE t v e _ \<Rightarrow> ADD_IN_EDGE t v e s | ADD_OUT_EDGE t v e _ \<Rightarrow> ADD_OUT_EDGE t v e s | _ \<Rightarrow> a)"

definition IsDeltaNonSequential :: "delta \<Rightarrow> bool" where
  "IsDeltaNonSequential d \<longleftrightarrow> CanBeNonSequential (d_op d) \<and> op_state (d_op d) = Some NON_SEQUENTIAL"

section \<open>Objects\<close>

text \<open>An entry of \<open>in_edges\<close> or \<open>out_edges\<close>: edge type, the vertex at the other end, the edge.\<close>

type_synonym edge_entry = "edge_type_id \<times> gid \<times> edge_ref"

record vertex =
  v_gid :: gid
  v_labels :: "label_id list"
  v_properties :: property_map
  v_in_edges :: "edge_entry list"
  v_out_edges :: "edge_entry list"
  v_deleted :: bool
  v_has_uncommitted_non_sequential_deltas :: bool
  v_deltas :: "delta list"

record edge =
  e_gid :: gid
  e_properties :: property_map
  e_deleted :: bool
  e_deltas :: "delta list"

section \<open>Properties\<close>

text \<open>C30: The tagged predecessor pointer of a delta gives back what was stored in it for every aligned
  pointer, and refuses a misaligned one; the three kinds and the null pointer are kept apart.\<close>

theorem PreviousPtr_round_trip:
  "case PreviousPtr_Set p of Inr w \<Rightarrow> PreviousPtr_Get w = Inr p
   | Inl e \<Rightarrow> (case p of NULL_PTR \<Rightarrow> False | PTR_DELTA a \<Rightarrow> a AND 3 \<noteq> 0 | PTR_VERTEX a \<Rightarrow> a AND 3 \<noteq> 0 | PTR_EDGE a \<Rightarrow> a AND 3 \<noteq> 0)"
proof -
  have nz: "v OR t \<noteq> 0" if "v AND 3 = 0" "t AND NOT 3 = 0" "t \<noteq> 0" for v t :: "64 word"
    using low_bits(1)[OF that(1,2)] that(3) by auto
  have tags: "kDelta \<noteq> 0" "kVertex \<noteq> 0" "kEdge \<noteq> 0" "kDelta \<noteq> kVertex" "kDelta \<noteq> kEdge" "kVertex \<noteq> kEdge"
    by (simp_all add: kDelta_def kVertex_def kEdge_def)
  show ?thesis
    using tags nz low_bits[where m = 3] tag_bits
    by (cases p) (auto simp: PreviousPtr_Get_def set_tagged_def kMask_3 Let_def)
qed

text \<open>C31: The state kept in the low bits of a vertex pointer and the pointer itself do not disturb each
  other: both are read back after \<open>Set\<close> and after \<open>SetState\<close>.\<close>

theorem TaggedVertexPtr_round_trip:
  assumes "vertex AND 3 = 0"
  shows "Tagged_Get (Tagged_Set vertex s) = vertex \<and> Tagged_GetState (Tagged_Set vertex s) = Some s \<and>
    Tagged_SetState (Tagged_Set vertex s) s' = Tagged_Set vertex s'"
proof -
  have bits: "(vertex OR state_bits s) AND 3 = state_bits s" "(vertex OR state_bits s) AND NOT 3 = vertex" for s
    using low_bits[OF assms tag_bits(4)] by simp_all
  show ?thesis
    unfolding Tagged_Get_def Tagged_GetState_def Tagged_Set_def Tagged_SetState_def bits
    by (cases s) (simp_all add: state_bits_def)
qed

theorem TaggedVertexPtr_round_trip_witness:
  "(0x1000 :: 64 word) AND 3 = 0 \<and> Tagged_GetState (Tagged_Set 0x1000 FORCED_SEQUENTIAL) = Some FORCED_SEQUENTIAL"
  using TaggedVertexPtr_round_trip[of 4096 FORCED_SEQUENTIAL] by simp

end
