(* ===== verification/TypeConstraints.thy ===== *)
theory TypeConstraints
  imports DeltaModel "HOL-Library.AList"
begin

text \<open>
  Type constraints (src/storage/v2/constraints/type_constraints.cpp, type_constraints_kind.hpp,
  type_constraints_validator.cpp): the container of registered and published constraints with
  the operations that change it, and the two validation paths.  One path checks a single
  property value, the other walks the stored properties of a vertex and compares storage
  types; the theorems relate them.
\<close>

section \<open>Kinds and storage types\<close>

datatype TypeConstraintKind =
    TC_STRING | TC_BOOLEAN | TC_INTEGER | TC_FLOAT | TC_LIST | TC_MAP | TC_DURATION | TC_DATE
  | TC_LOCALTIME | TC_LOCALDATETIME | TC_ZONEDDATETIME | TC_ENUM | TC_POINT

datatype PropertyStoreType =
    PS_EMPTY | PS_NONE | PS_BOOL | PS_INT | PS_DOUBLE | PS_STRING | PS_LIST | PS_MAP | PS_TEMPORAL_DATA
  | PS_ZONED_TEMPORAL_DATA | PS_OFFSET_ZONED_TEMPORAL_DATA | PS_ENUM | PS_POINT | PS_VECTOR

definition TypeConstraintsKindToPropertyStoreType :: "TypeConstraintKind \<Rightarrow> PropertyStoreType" where
  "TypeConstraintsKindToPropertyStoreType k = (case k of
     TC_STRING \<Rightarrow> PS_STRING | TC_BOOLEAN \<Rightarrow> PS_BOOL | TC_INTEGER \<Rightarrow> PS_INT | TC_FLOAT \<Rightarrow> PS_DOUBLE
   | TC_LIST \<Rightarrow> PS_LIST | TC_MAP \<Rightarrow> PS_MAP
   | TC_DURATION \<Rightarrow> PS_TEMPORAL_DATA | TC_DATE \<Rightarrow> PS_TEMPORAL_DATA
   | TC_LOCALTIME \<Rightarrow> PS_TEMPORAL_DATA | TC_LOCALDATETIME \<Rightarrow> PS_TEMPORAL_DATA
   | TC_ZONEDDATETIME \<Rightarrow> PS_ZONED_TEMPORAL_DATA | TC_ENUM \<Rightarrow> PS_ENUM | TC_POINT \<Rightarrow> PS_POINT)"

text \<open>The underlying values of \<open>TemporalType\<close> are Date 0, LocalTime 1, LocalDateTime 2, Duration 3.\<close>

definition temporal_kind :: "byte \<Rightarrow> TypeConstraintKind option" where
  "temporal_kind t = (if t = 0 then Some TC_DATE else if t = 1 then Some TC_LOCALTIME
     else if t = 2 then Some TC_LOCALDATETIME else if t = 3 then Some TC_DURATION else None)"

definition TemporalMatch :: "byte \<Rightarrow> TypeConstraintKind \<Rightarrow> bool" where
  "TemporalMatch t expected_type \<longleftrightarrow> temporal_kind t = Some expected_type"

text \<open>\<^term>\<open>None\<close> stands for the failed assertions on a null and on a vector-index value.\<close>

definition PropertyValueToTypeConstraintKind :: "pv \<Rightarrow> TypeConstraintKind option" where
  "PropertyValueToTypeConstraintKind v = (case v of
     PV_String _ \<Rightarrow> Some TC_STRING
   | PV_Bool _ \<Rightarrow> Some TC_BOOLEAN
   | PV_Int _ \<Rightarrow> Some TC_INTEGER
   | PV_Double _ \<Rightarrow> Some TC_FLOAT
   | PV_List _ \<Rightarrow> Some TC_LIST
   | PV_IntList _ \<Rightarrow> Some TC_LIST
   | PV_DoubleList _ \<Rightarrow> Some TC_LIST
   | PV_NumericList _ \<Rightarrow> Some TC_LIST
   | PV_Map _ \<Rightarrow> Some TC_MAP
   | PV_Temporal t \<Rightarrow> temporal_kind (td_type t)
   | PV_Zoned _ \<Rightarrow> Some TC_ZONEDDATETIME
   | PV_Enum _ _ \<Rightarrow> Some TC_ENUM
   | PV_Point2d _ _ _ \<Rightarrow> Some TC_POINT
   | PV_Point3d _ _ _ _ \<Rightarrow> Some TC_POINT
   | PV_VectorIndexId _ _ \<Rightarrow> None
   | PV_Null \<Rightarrow> None)"

definition PropertyValueMatchesTypeConstraint :: "pv \<Rightarrow> TypeConstraintKind \<Rightarrow> bool option" where
  "PropertyValueMatchesTypeConstraint v constraint_type =
    (if v = PV_Null then Some True
     else case v of
       PV_Temporal t \<Rightarrow> Some (TemporalMatch (td_type t) constraint_type)
     | _ \<Rightarrow> map_option (\<lambda>k. k = constraint_type) (PropertyValueToTypeConstraintKind v))"

text \<open>The type under which the property store encodes a value (first component of what
  \<open>EncodePropertyValue\<close> returns), and what \<open>NextPropertyAndType\<close> reads back.\<close>

definition encoded_type :: "pv \<Rightarrow> PropertyStoreType" where
  "encoded_type v = (case v of
     PV_Null \<Rightarrow> PS_NONE | PV_Bool _ \<Rightarrow> PS_BOOL | PV_Int _ \<Rightarrow> PS_INT | PV_Double _ \<Rightarrow> PS_DOUBLE
   | PV_String _ \<Rightarrow> PS_STRING
   | PV_List _ \<Rightarrow> PS_LIST | PV_NumericList _ \<Rightarrow> PS_LIST | PV_IntList _ \<Rightarrow> PS_LIST | PV_DoubleList _ \<Rightarrow> PS_LIST
   | PV_Map _ \<Rightarrow> PS_MAP
   | PV_Temporal _ \<Rightarrow> PS_TEMPORAL_DATA
   | PV_Zoned z \<Rightarrow> (case ztd_timezone z of Tz_name _ \<Rightarrow> PS_ZONED_TEMPORAL_DATA | Tz_offset _ \<Rightarrow> PS_OFFSET_ZONED_TEMPORAL_DATA)
   | PV_Enum _ _ \<Rightarrow> PS_ENUM
   | PV_Point2d _ _ _ \<Rightarrow> PS_POINT | PV_Point3d _ _ _ _ \<Rightarrow> PS_POINT
   | PV_VectorIndexId _ _ \<Rightarrow> PS_VECTOR)"

record member_info =
  mi_prop_id :: property_id
  mi_type :: PropertyStoreType
  mi_temporal_type :: "byte option"

definition NextPropertyAndType :: "property_id \<times> pv \<Rightarrow> member_info" where
  "NextPropertyAndType pr = \<lparr>mi_prop_id = fst pr, mi_type = encoded_type (snd pr),
     mi_temporal_type = (case snd pr of PV_Temporal t \<Rightarrow> Some (td_type t) | _ \<Rightarrow> None)\<rparr>"

section \<open>The validator\<close>

type_synonym kind_map = "(property_id \<times> TypeConstraintKind) list"

record violation =
  vi_property :: property_id
  vi_label :: label_id
  vi_kind :: TypeConstraintKind

fun validate :: "(label_id \<times> kind_map) list \<Rightarrow> member_info \<Rightarrow> violation option" where
  "validate [] m = None"
| "validate ((label, constraint_map) # cs) m =
    (case map_of constraint_map (mi_prop_id m) of
       None \<Rightarrow> validate cs m
     | Some k \<Rightarrow>
         (if (case mi_temporal_type m of
                Some t \<Rightarrow> TemporalMatch t k
              | None \<Rightarrow> TypeConstraintsKindToPropertyStoreType k = mi_type m)
          then validate cs m
          else Some \<lparr>vi_property = mi_prop_id m, vi_label = label, vi_kind = k\<rparr>))"

fun match_loop :: "(label_id \<times> kind_map) list \<Rightarrow> property_map \<Rightarrow> violation option" where
  "match_loop cs [] = None"
| "match_loop cs (pr # prs) =
    (case validate cs (NextPropertyAndType pr) of Some v \<Rightarrow> Some v | None \<Rightarrow> match_loop cs prs)"

definition PropertiesMatchTypes :: "(label_id \<times> kind_map) list \<Rightarrow> property_map \<Rightarrow> violation option" where
  "PropertiesMatchTypes cs properties = (if cs = [] then None else match_loop cs properties)"

section \<open>The container\<close>

text \<open>An \<open>IndividualConstraint\<close> is shared by the containers that hold it; its status is the commit
  timestamp, with \<open>kPopulating\<close> before it is published.  The heap maps its address to kind and status.\<close>

definition kPopulating :: nat where "kPopulating = 2 ^ 63"

record individual_constraint =
  ic_type :: TypeConstraintKind
  ic_commit_timestamp :: nat

record tc_container =
  tc_constraints :: "((label_id \<times> property_id) \<times> nat) list"
  tc_l2p :: "(label_id \<times> kind_map) list"

record type_constraints =
  tcs_container :: tc_container
  tcs_heap :: "nat \<Rightarrow> individual_constraint"
  tcs_next :: nat

definition empty_container :: tc_container where
  "empty_container = \<lparr>tc_constraints = [], tc_l2p = []\<rparr>"

definition ConstraintRegistered :: "tc_container \<Rightarrow> label_id \<Rightarrow> property_id \<Rightarrow> bool" where
  "ConstraintRegistered c label property \<longleftrightarrow> map_of (tc_constraints c) (label, property) \<noteq> None"

definition ic_IsVisible :: "individual_constraint \<Rightarrow> nat \<Rightarrow> bool" where
  "ic_IsVisible ic timestamp \<longleftrightarrow> ic_commit_timestamp ic \<le> timestamp"

text \<open>The entry of \<open>l2p_constraints_\<close> for a label: \<open>emplace\<close> keeps an existing kind.\<close>

definition l2p_emplace :: "label_id \<Rightarrow> property_id \<Rightarrow> TypeConstraintKind \<Rightarrow> (label_id \<times> kind_map) list
    \<Rightarrow> (label_id \<times> kind_map) list" where
  "l2p_emplace label property k l2p =
    (case map_of l2p label of
       None \<Rightarrow> (label, [(property, k)]) # l2p
     | Some m \<Rightarrow> AList.update label (case map_of m property of None \<Rightarrow> (property, k) # m | Some _ \<Rightarrow> m) l2p)"

definition InstallConstraint :: "label_id \<Rightarrow> property_id \<Rightarrow> nat \<Rightarrow> bool \<Rightarrow> type_constraints
    \<Rightarrow> bool \<times> type_constraints" where
  "InstallConstraint label property ptr restore_l2p s =
    (let c = tcs_container s
     in if ConstraintRegistered c label property then (False, s)
        else (True, s\<lparr>tcs_container :=
          \<lparr>tc_constraints = ((label, property), ptr) # tc_constraints c,
           tc_l2p = (if restore_l2p then l2p_emplace label property (ic_type (tcs_heap s ptr)) (tc_l2p c)
                     else tc_l2p c)\<rparr>\<rparr>))"

definition RegisterConstraint :: "label_id \<Rightarrow> property_id \<Rightarrow> TypeConstraintKind \<Rightarrow> type_constraints
    \<Rightarrow> bool \<times> type_constraints" where
  "RegisterConstraint label property k s =
    (let ptr = tcs_next s;
         s' = s\<lparr>tcs_heap := (tcs_heap s)(ptr := \<lparr>ic_type = k, ic_commit_timestamp = kPopulating\<rparr>), tcs_next := Suc ptr\<rparr>
     in InstallConstraint label property ptr False s')"

text \<open>\<open>PublishConstraint\<close> of a constraint that is not there is a failed debug assertion and a return.\<close>

definition PublishConstraint :: "label_id \<Rightarrow> property_id \<Rightarrow> TypeConstraintKind \<Rightarrow> nat \<Rightarrow> type_constraints
    \<Rightarrow> type_constraints" where
  "PublishConstraint label property k commit_timestamp s =
    (let c = tcs_container s
     in case map_of (tc_constraints c) (label, property) of
          None \<Rightarrow> s
        | Some ptr \<Rightarrow> s\<lparr>tcs_container := c\<lparr>tc_l2p := l2p_emplace label property k (tc_l2p c)\<rparr>,
            tcs_heap := (tcs_heap s)(ptr := (tcs_heap s ptr)\<lparr>ic_commit_timestamp := commit_timestamp\<rparr>)\<rparr>)"

definition l2p_erase :: "label_id \<Rightarrow> property_id \<Rightarrow> (label_id \<times> kind_map) list \<Rightarrow> (label_id \<times> kind_map) list" where
  "l2p_erase label property l2p =
    (case map_of l2p label of
       None \<Rightarrow> l2p
     | Some m \<Rightarrow> let m' = AList.delete property m
                in if m' = [] then AList.delete label l2p else AList.update label m' l2p)"

definition DropConstraint :: "label_id \<Rightarrow> property_id \<Rightarrow> TypeConstraintKind \<Rightarrow> type_constraints
    \<Rightarrow> nat option \<times> type_constraints" where
  "DropConstraint label property k s =
    (let c = tcs_container s
     in case map_of (tc_constraints c) (label, property) of
          None \<Rightarrow> (None, s)
        | Some ptr \<Rightarrow>
            if ic_type (tcs_heap s ptr) \<noteq> k then (None, s)
            else (Some ptr, s\<lparr>tcs_container :=
              \<lparr>tc_constraints = AList.delete (label, property) (tc_constraints c),
               tc_l2p = l2p_erase label property (tc_l2p c)\<rparr>\<rparr>))"

definition RestoreConstraint :: "label_id \<Rightarrow> property_id \<Rightarrow> nat option \<Rightarrow> type_constraints \<Rightarrow> type_constraints" where
  "RestoreConstraint label property evicted s =
    (case evicted of None \<Rightarrow> s | Some ptr \<Rightarrow> snd (InstallConstraint label property ptr True s))"

definition DropGraphClearConstraints :: "type_constraints \<Rightarrow> type_constraints" where
  "DropGraphClearConstraints s = s\<lparr>tcs_container := empty_container\<rparr>"

definition GetTypeConstraintsForLabel :: "label_id \<Rightarrow> tc_container \<Rightarrow> kind_map" where
  "GetTypeConstraintsForLabel label c = (case map_of (tc_l2p c) label of None \<Rightarrow> [] | Some m \<Rightarrow> m)"

definition ListConstraints :: "type_constraints \<Rightarrow> tc_container \<Rightarrow> nat \<Rightarrow> (label_id \<times> property_id \<times> TypeConstraintKind) list" where
  "ListConstraints s c start_timestamp =
    sort_key fst (sort_key (fst \<circ> snd)
      [(label, property, ic_type (tcs_heap s ptr)).
        ((label, property), ptr) \<leftarrow> tc_constraints c, ic_IsVisible (tcs_heap s ptr) start_timestamp])"

section \<open>Validation\<close>

datatype tc_result = TC_valid | TC_violation violation | TC_assertion

definition Validate_label :: "tc_container \<Rightarrow> vertex \<Rightarrow> label_id \<Rightarrow> tc_result" where
  "Validate_label c vertex label =
    (case map_of (tc_l2p c) label of
       None \<Rightarrow> TC_valid
     | Some m \<Rightarrow> (case PropertiesMatchTypes [(label, m)] (v_properties vertex) of
         None \<Rightarrow> TC_valid
       | Some vi \<Rightarrow> TC_violation \<lparr>vi_property = vi_property vi, vi_label = label, vi_kind = vi_kind vi\<rparr>))"

fun validate_property_labels :: "type_constraints \<Rightarrow> tc_container \<Rightarrow> property_id \<Rightarrow> pv \<Rightarrow> label_id list \<Rightarrow> tc_result" where
  "validate_property_labels s c property value [] = TC_valid"
| "validate_property_labels s c property value (label # labels) =
    (case map_of (tc_constraints c) (label, property) of
       None \<Rightarrow> validate_property_labels s c property value labels
     | Some ptr \<Rightarrow>
         let k = ic_type (tcs_heap s ptr)
         in case PropertyValueMatchesTypeConstraint value k of
              None \<Rightarrow> TC_assertion
            | Some True \<Rightarrow> validate_property_labels s c property value labels
            | Some False \<Rightarrow> TC_violation \<lparr>vi_property = property, vi_label = label, vi_kind = k\<rparr>)"

definition Validate_property :: "type_constraints \<Rightarrow> tc_container \<Rightarrow> vertex \<Rightarrow> property_id \<Rightarrow> pv \<Rightarrow> tc_result" where
  "Validate_property s c vertex property value =
    (if value = PV_Null then TC_valid else validate_property_labels s c property value (v_labels vertex))"

definition ValidateVertex :: "tc_container \<Rightarrow> vertex \<Rightarrow> tc_result" where
  "ValidateVertex c vertex =
    (if tc_constraints c = [] then TC_valid
     else
       let cs = List.map_filter (\<lambda>label. map_option (\<lambda>m. (label, m)) (map_of (tc_l2p c) label)) (v_labels vertex)
       in if cs = [] then TC_valid
          else case PropertiesMatchTypes cs (v_properties vertex) of None \<Rightarrow> TC_valid | Some vi \<Rightarrow> TC_violation vi)"

fun ValidateAllVertices_loop :: "tc_container \<Rightarrow> vertex list \<Rightarrow> tc_result" where
  "ValidateAllVertices_loop c [] = TC_valid"
| "ValidateAllVertices_loop c (v # vs) =
    (case ValidateVertex c v of TC_valid \<Rightarrow> ValidateAllVertices_loop c vs | r \<Rightarrow> r)"

definition ValidateAllVertices :: "tc_container \<Rightarrow> vertex list \<Rightarrow> tc_result" where
  "ValidateAllVertices c vertices =
    (if tc_constraints c = [] then TC_valid else ValidateAllVertices_loop c vertices)"

fun ValidateVerticesOnConstraint :: "vertex list \<Rightarrow> label_id \<Rightarrow> property_id \<Rightarrow> TypeConstraintKind \<Rightarrow> tc_result" where
  "ValidateVerticesOnConstraint [] label property k = TC_valid"
| "ValidateVerticesOnConstraint (v # vs) label property k =
    (if v_deleted v \<or> label \<notin> set (v_labels v) then ValidateVerticesOnConstraint vs label property k
     else case PropertiesMatchTypes [(label, [(property, k)])] (v_properties v) of
            None \<Rightarrow> ValidateVerticesOnConstraint vs label property k
          | Some _ \<Rightarrow> TC_violation \<lparr>vi_property = property, vi_label = label, vi_kind = k\<rparr>)"

section \<open>Invariant of the container\<close>

definition tc_inv :: "type_constraints \<Rightarrow> bool" where
  "tc_inv s \<longleftrightarrow>
    (\<forall>label property ptr. map_of (tc_constraints (tcs_container s)) (label, property) = Some ptr \<longrightarrow> ptr < tcs_next s) \<and>
    (\<forall>label m property k.
       map_of (tc_l2p (tcs_container s)) label = Some m \<longrightarrow> map_of m property = Some k \<longrightarrow>
       (\<exists>ptr. map_of (tc_constraints (tcs_container s)) (label, property) = Some ptr \<and> ic_type (tcs_heap s ptr) = k))"

text \<open>The kind that \<open>l2p_constraints_\<close> holds for a label and a property.\<close>

definition published :: "tc_container \<Rightarrow> label_id \<Rightarrow> property_id \<Rightarrow> TypeConstraintKind option" where
  "published c label property = map_of (GetTypeConstraintsForLabel label c) property"

definition registered :: "type_constraints \<Rightarrow> label_id \<Rightarrow> property_id \<Rightarrow> TypeConstraintKind option" where
  "registered s label property =
    map_option (\<lambda>ptr. ic_type (tcs_heap s ptr)) (map_of (tc_constraints (tcs_container s)) (label, property))"

lemma tc_inv_published:
  "tc_inv s \<longleftrightarrow>
    (\<forall>label property ptr. map_of (tc_constraints (tcs_container s)) (label, property) = Some ptr \<longrightarrow> ptr < tcs_next s) \<and>
    (\<forall>label property k. published (tcs_container s) label property = Some k \<longrightarrow> registered s label property = Some k)"
  unfolding tc_inv_def published_def registered_def GetTypeConstraintsForLabel_def
  by (intro conj_cong refl) (fastforce split: option.splits)

lemma map_of_l2p_emplace:
  "published \<lparr>tc_constraints = cs, tc_l2p = l2p_emplace label property k l2p\<rparr> label' property' =
    (if label' = label \<and> property' = property \<and> published \<lparr>tc_constraints = cs, tc_l2p = l2p\<rparr> label property = None
     then Some k else published \<lparr>tc_constraints = cs, tc_l2p = l2p\<rparr> label' property')"
  by (auto simp: published_def GetTypeConstraintsForLabel_def l2p_emplace_def update_conv' split: option.splits)

lemma map_of_l2p_erase:
  "published \<lparr>tc_constraints = cs, tc_l2p = l2p_erase label property l2p\<rparr> label' property' =
    (if label' = label \<and> property' = property then None else published \<lparr>tc_constraints = cs, tc_l2p = l2p\<rparr> label' property')"
proof (cases "map_of l2p label")
  case (Some m)
  have "map_of m property' = None" if "AList.delete property m = []" "property' \<noteq> property"
    using that delete_conv'[of property m] by (metis fun_upd_other map_of.simps(1))
  then show ?thesis
    using Some
    by (auto simp: published_def GetTypeConstraintsForLabel_def l2p_erase_def update_conv' delete_conv' Let_def)
qed (auto simp: published_def GetTypeConstraintsForLabel_def l2p_erase_def)

lemma published_eta: "published \<lparr>tc_constraints = cs, tc_l2p = tc_l2p c\<rparr> = published c"
  by (simp add: published_def GetTypeConstraintsForLabel_def fun_eq_iff)

section \<open>What the validation paths accept\<close>

definition stored_under_kind :: "pv \<Rightarrow> bool" where
  "stored_under_kind v \<longleftrightarrow> (case v of
     PV_Null \<Rightarrow> False | PV_VectorIndexId _ _ \<Rightarrow> False
   | PV_Zoned z \<Rightarrow> (case ztd_timezone z of Tz_name _ \<Rightarrow> True | Tz_offset _ \<Rightarrow> False)
   | _ \<Rightarrow> True)"

definition member_matches :: "member_info \<Rightarrow> TypeConstraintKind \<Rightarrow> bool" where
  "member_matches m k = (case mi_temporal_type m of
     Some t \<Rightarrow> TemporalMatch t k | None \<Rightarrow> TypeConstraintsKindToPropertyStoreType k = mi_type m)"

lemma member_matches_value:
  assumes "stored_under_kind w"
  shows "PropertyValueMatchesTypeConstraint w k = Some (member_matches (NextPropertyAndType (p, w)) k)"
  using assms
  by (cases w; cases k)
     (simp_all add: stored_under_kind_def PropertyValueMatchesTypeConstraint_def PropertyValueToTypeConstraintKind_def
       member_matches_def NextPropertyAndType_def encoded_type_def TypeConstraintsKindToPropertyStoreType_def
       split: Timezone.splits)

lemma validate_None_iff:
  "validate cs m = None \<longleftrightarrow>
    (\<forall>(l, km) \<in> set cs. \<forall>k. map_of km (mi_prop_id m) = Some k \<longrightarrow> member_matches m k)"
  by (induction cs m rule: validate.induct) (auto simp: member_matches_def split: option.splits)

lemma match_loop_None_iff:
  "match_loop cs prs = None \<longleftrightarrow> (\<forall>pr \<in> set prs. validate cs (NextPropertyAndType pr) = None)"
  by (induction cs prs rule: match_loop.induct) (auto split: option.splits)

lemma PropertiesMatchTypes_None_iff:
  "PropertiesMatchTypes cs prs = None \<longleftrightarrow>
    (\<forall>(p, w) \<in> set prs. \<forall>(l, km) \<in> set cs. \<forall>k. map_of km p = Some k \<longrightarrow> member_matches (NextPropertyAndType (p, w)) k)"
proof (cases "cs = []")
  case False
  then show ?thesis
    unfolding PropertiesMatchTypes_def if_not_P[OF False] match_loop_None_iff validate_None_iff
    by (simp add: NextPropertyAndType_def split_def)
qed (simp add: PropertiesMatchTypes_def)

lemma validate_property_labels_valid_iff:
  assumes "stored_under_kind w"
  shows "validate_property_labels s (tcs_container s) p w ls = TC_valid \<longleftrightarrow>
    (\<forall>l \<in> set ls. \<forall>k. registered s l p = Some k \<longrightarrow> member_matches (NextPropertyAndType (p, w)) k)"
  by (induction ls)
     (auto simp: registered_def Let_def member_matches_value[OF assms, of _ p] split: option.splits bool.splits)

lemma ValidateVertex_valid_iff:
  assumes "tc_constraints c \<noteq> []"
  shows "ValidateVertex c v = TC_valid \<longleftrightarrow>
    (\<forall>(p, w) \<in> set (v_properties v). \<forall>l \<in> set (v_labels v). \<forall>k. published c l p = Some k \<longrightarrow>
       member_matches (NextPropertyAndType (p, w)) k)"
proof -
  let ?cs = "List.map_filter (\<lambda>label. map_option (\<lambda>m. (label, m)) (map_of (tc_l2p c) label)) (v_labels v)"
  have set_cs: "set ?cs = {(l, m). l \<in> set (v_labels v) \<and> map_of (tc_l2p c) l = Some m}"
    by (force simp: List.map_filter_def image_iff)
  have "ValidateVertex c v = TC_valid \<longleftrightarrow> PropertiesMatchTypes ?cs (v_properties v) = None"
    using assms by (auto simp: ValidateVertex_def Let_def PropertiesMatchTypes_def split: option.splits)
  also have "\<dots> \<longleftrightarrow> (\<forall>(p, w) \<in> set (v_properties v). \<forall>l \<in> set (v_labels v). \<forall>m. map_of (tc_l2p c) l = Some m \<longrightarrow>
      (\<forall>k. map_of m p = Some k \<longrightarrow> member_matches (NextPropertyAndType (p, w)) k))"
    unfolding PropertiesMatchTypes_None_iff set_cs by blast
  also have "\<dots> \<longleftrightarrow> (\<forall>(p, w) \<in> set (v_properties v). \<forall>l \<in> set (v_labels v). \<forall>k. published c l p = Some k \<longrightarrow>
       member_matches (NextPropertyAndType (p, w)) k)"
    by (fastforce simp: published_def GetTypeConstraintsForLabel_def split: option.splits)
  finally show ?thesis .
qed

lemma registered_InstallConstraint:
  "registered (snd (InstallConstraint l p ptr b s)) l' p' =
    (if l' = l \<and> p' = p \<and> registered s l p = None then Some (ic_type (tcs_heap s ptr)) else registered s l' p')"
  by (auto simp: InstallConstraint_def ConstraintRegistered_def registered_def Let_def)

lemma published_InstallConstraint:
  "published (tcs_container (snd (InstallConstraint l p ptr b s))) l' p' =
    (if l' = l \<and> p' = p \<and> registered s l p = None \<and> b \<and> published (tcs_container s) l p = None
     then Some (ic_type (tcs_heap s ptr)) else published (tcs_container s) l' p')"
  by (auto simp: InstallConstraint_def ConstraintRegistered_def registered_def Let_def map_of_l2p_emplace published_eta)

lemma tc_inv_InstallConstraint:
  assumes "tc_inv s" "ptr < tcs_next s"
  shows "tc_inv (snd (InstallConstraint l p ptr b s))"
proof -
  have "map_of (tc_constraints (tcs_container (snd (InstallConstraint l p ptr b s)))) (l', p') = Some q \<Longrightarrow>
      q < tcs_next (snd (InstallConstraint l p ptr b s))" for l' p' q
    using assms by (auto simp: tc_inv_def InstallConstraint_def Let_def split: if_splits)
  then show ?thesis
    using assms unfolding tc_inv_published registered_InstallConstraint published_InstallConstraint
    by (auto split: if_splits)
qed

lemma tc_inv_fresh: "tc_inv s \<Longrightarrow> map_of (tc_constraints (tcs_container s)) (l, p) \<noteq> Some (tcs_next s)"
  by (auto simp: tc_inv_def)

lemma tc_inv_Register:
  assumes "tc_inv s"
  shows "tc_inv (snd (RegisterConstraint l p k s))"
proof -
  let ?s = "s\<lparr>tcs_heap := (tcs_heap s)(tcs_next s := \<lparr>ic_type = k, ic_commit_timestamp = kPopulating\<rparr>), tcs_next := Suc (tcs_next s)\<rparr>"
  have "registered ?s l' p' = registered s l' p'" for l' p'
    using tc_inv_fresh[OF assms] by (auto simp: registered_def option.map_comp intro!: map_option_cong)
  then have "tc_inv ?s"
    using assms unfolding tc_inv_published by (auto simp: less_Suc_eq)
  then show ?thesis
    by (simp add: RegisterConstraint_def Let_def tc_inv_InstallConstraint)
qed

lemma registered_Drop:
  "registered (snd (DropConstraint l p k s)) l' p' =
    (if l' = l \<and> p' = p \<and> registered s l p = Some k then None else registered s l' p')"
  by (auto simp: DropConstraint_def registered_def Let_def delete_conv' split: option.splits)

lemma published_Drop:
  "published (tcs_container (snd (DropConstraint l p k s))) l' p' =
    (if l' = l \<and> p' = p \<and> registered s l p = Some k then None else published (tcs_container s) l' p')"
  by (auto simp: DropConstraint_def registered_def Let_def map_of_l2p_erase published_eta split: option.splits)

lemma tc_inv_Drop:
  assumes "tc_inv s"
  shows "tc_inv (snd (DropConstraint l p k s))"
proof -
  have "map_of (tc_constraints (tcs_container (snd (DropConstraint l p k s)))) (l', p') = Some q \<Longrightarrow>
      q < tcs_next (snd (DropConstraint l p k s))" for l' p' q
    using assms by (auto simp: tc_inv_def DropConstraint_def Let_def delete_conv' split: if_splits option.splits)
  then show ?thesis
    using assms unfolding tc_inv_published registered_Drop published_Drop by (auto split: if_splits)
qed

lemma tc_inv_Publish:
  assumes "tc_inv s" "registered s l p = Some k"
  shows "tc_inv (PublishConstraint l p k t s)"
proof -
  have r: "registered (PublishConstraint l p k t s) l' p' = registered s l' p'" for l' p'
    by (auto simp: registered_def PublishConstraint_def Let_def split: option.splits intro!: map_option_cong)
  have "published (tcs_container (PublishConstraint l p k t s)) l' p' =
      (if l' = l \<and> p' = p \<and> published (tcs_container s) l p = None then Some k else published (tcs_container s) l' p')" for l' p'
    using assms(2) map_of_l2p_emplace[of "tc_constraints (tcs_container s)" l p k "tc_l2p (tcs_container s)" l' p']
    by (auto simp: PublishConstraint_def registered_def Let_def published_def GetTypeConstraintsForLabel_def)
  moreover have "tc_constraints (tcs_container (PublishConstraint l p k t s)) = tc_constraints (tcs_container s)"
      "tcs_next (PublishConstraint l p k t s) = tcs_next s"
    by (auto simp: PublishConstraint_def Let_def split: option.splits)
  ultimately show ?thesis
    using assms unfolding tc_inv_published r by auto
qed

section \<open>Properties\<close>


definition tc_example :: type_constraints where
  "tc_example = snd (RegisterConstraint 1 2 TC_ZONEDDATETIME
     \<lparr>tcs_container = empty_container, tcs_heap = (\<lambda>_. \<lparr>ic_type = TC_INTEGER, ic_commit_timestamp = 0\<rparr>), tcs_next = 0\<rparr>)"

definition tc_example_published :: type_constraints where
  "tc_example_published = PublishConstraint 1 2 TC_ZONEDDATETIME 7 tc_example"

lemma tc_example_facts:
  "tc_inv tc_example" "registered tc_example 1 2 = Some TC_ZONEDDATETIME" "0 < tcs_next tc_example"
proof -
  let ?e = "\<lparr>tcs_container = empty_container, tcs_heap = (\<lambda>_. \<lparr>ic_type = TC_INTEGER, ic_commit_timestamp = 0\<rparr>), tcs_next = 0\<rparr>"
  have "tc_inv ?e"
    by (auto simp: tc_inv_def empty_container_def)
  then show "tc_inv tc_example"
    unfolding tc_example_def by (rule tc_inv_Register)
qed (simp_all add: tc_example_def RegisterConstraint_def InstallConstraint_def ConstraintRegistered_def
       registered_def empty_container_def Let_def)

lemma tc_example_published_eq:
  "tc_example_published =
    \<lparr>tcs_container = \<lparr>tc_constraints = [((1, 2), 0)], tc_l2p = [(1, [(2, TC_ZONEDDATETIME)])]\<rparr>,
     tcs_heap = (\<lambda>_. \<lparr>ic_type = TC_INTEGER, ic_commit_timestamp = 0\<rparr>)
       (0 := \<lparr>ic_type = TC_ZONEDDATETIME, ic_commit_timestamp = 7\<rparr>),
     tcs_next = 1\<rparr>"
  by (simp add: tc_example_published_def tc_example_def RegisterConstraint_def InstallConstraint_def
       ConstraintRegistered_def PublishConstraint_def empty_container_def l2p_emplace_def Let_def)

lemma tc_example_published_inv: "tc_inv tc_example_published"
  unfolding tc_example_published_def by (rule tc_inv_Publish[OF tc_example_facts(1,2)])

lemma registered_example:
  "registered tc_example_published l p = (if l = 1 \<and> p = 2 then Some TC_ZONEDDATETIME else None)"
  by (simp add: tc_example_published_eq registered_def)

lemma published_example:
  "published (tcs_container tc_example_published) l p = (if l = 1 \<and> p = 2 then Some TC_ZONEDDATETIME else None)"
  by (simp add: tc_example_published_eq published_def GetTypeConstraintsForLabel_def)


text \<open>C26: Dropping a published type constraint removes it from both tables, and restoring the evicted
  constraint (the rollback of the drop) brings back exactly the previous contents of both.\<close>

theorem drop_restore_round_trip:
  assumes "tc_inv s" and "published (tcs_container s) l p = Some k"
  shows "let (evicted, s1) = DropConstraint l p k s; s2 = RestoreConstraint l p evicted s1
    in evicted \<noteq> None \<and> registered s1 l p = None \<and> published (tcs_container s1) l p = None \<and>
       registered s2 = registered s \<and> published (tcs_container s2) = published (tcs_container s)"
proof -
  have reg: "registered s l p = Some k"
    using assms by (simp add: tc_inv_published)
  then obtain ptr s1 where drop: "DropConstraint l p k s = (Some ptr, s1)" and k: "ic_type (tcs_heap s1 ptr) = k"
    by (auto simp: DropConstraint_def registered_def Let_def)
  have r1: "registered s1 l' p' = (if l' = l \<and> p' = p then None else registered s l' p')"
    and p1: "published (tcs_container s1) l' p' = (if l' = l \<and> p' = p then None else published (tcs_container s) l' p')" for l' p'
    using registered_Drop[of l p k s l' p'] published_Drop[of l p k s l' p'] drop reg by auto
  have "registered (snd (InstallConstraint l p ptr True s1)) = registered s"
    and "published (tcs_container (snd (InstallConstraint l p ptr True s1))) = published (tcs_container s)"
    using reg assms(2) k by (auto simp: fun_eq_iff registered_InstallConstraint published_InstallConstraint r1 p1)
  then show ?thesis
    unfolding drop by (simp add: RestoreConstraint_def r1 p1)
qed

theorem drop_restore_round_trip_witness:
  "published (tcs_container tc_example_published) 1 2 = Some TC_ZONEDDATETIME \<and>
   registered (snd (DropConstraint 1 2 TC_ZONEDDATETIME tc_example_published)) 1 2 = None"
proof -
  have p: "published (tcs_container tc_example_published) 1 2 = Some TC_ZONEDDATETIME"
    by (simp add: published_example)
  show ?thesis
    using drop_restore_round_trip[OF tc_example_published_inv p] p by (simp add: split_def Let_def)
qed


definition zoned_vertex :: "Timezone \<Rightarrow> vertex" where
  "zoned_vertex tz = \<lparr>v_gid = 0, v_labels = [1],
     v_properties = [(2, PV_Zoned \<lparr>ztd_type = 0, ztd_microseconds = 0, ztd_timezone = tz\<rparr>)],
     v_in_edges = [], v_out_edges = [], v_deleted = False,
     v_has_uncommitted_non_sequential_deltas = False, v_deltas = []\<rparr>"



end
