(* ===== verification/VertexInfoCache.thy ===== *)
theory VertexInfoCache
  imports DeltaModel
begin

text \<open>
  The per-transaction cache of reconstructed vertex state
  (src/storage/v2/vertex_info_cache.hpp, vertex_info_cache.cpp): ten hash maps for each of
  the two views.  \<open>FetchHelper\<close> and \<open>Store\<close> take the member of \<open>Caches\<close> they work on, as the
  code does with \<open>std::mem_fn\<close>; what a fetch returns after a store or an invalidation follows
  from the contract \<open>cache_member\<close>, which every member satisfies.
\<close>

datatype View = OLD | NEW

datatype EdgeDirection = IN_DIR | OUT_DIR

text \<open>\<open>EdgeKey\<close>: source vertex, destination or null, edge types in canonical order.\<close>

type_synonym edge_key = "gid \<times> gid option \<times> edge_type_id list"

definition EdgeKey :: "gid \<Rightarrow> gid option \<Rightarrow> edge_type_id list \<Rightarrow> edge_key" where
  "EdgeKey src dst edge_types = (src, dst, sort edge_types)"

record Caches =
  existsCache :: "gid \<rightharpoonup> bool"
  deletedCache :: "gid \<rightharpoonup> bool"
  hasLabelCache :: "gid \<times> label_id \<rightharpoonup> bool"
  propertyValueCache :: "gid \<times> property_id \<rightharpoonup> pv"
  labelCache :: "gid \<rightharpoonup> label_id list"
  propertiesCache :: "gid \<rightharpoonup> property_map"
  inEdgesCache :: "edge_key \<rightharpoonup> edge_entry list"
  outEdgesCache :: "edge_key \<rightharpoonup> edge_entry list"
  inDegreeCache :: "gid \<rightharpoonup> 64 word"
  outDegreeCache :: "gid \<rightharpoonup> 64 word"

record VertexInfoCache =
  old_caches :: Caches
  new_caches :: Caches

definition Caches_Clear :: "Caches \<Rightarrow> Caches" where
  "Caches_Clear c = \<lparr>existsCache = Map.empty, deletedCache = Map.empty, hasLabelCache = Map.empty,
     propertyValueCache = Map.empty, labelCache = Map.empty, propertiesCache = Map.empty,
     inEdgesCache = Map.empty, outEdgesCache = Map.empty, inDegreeCache = Map.empty, outDegreeCache = Map.empty\<rparr>"

definition Cache_Clear :: "VertexInfoCache \<Rightarrow> VertexInfoCache" where
  "Cache_Clear c = \<lparr>old_caches = Caches_Clear (old_caches c), new_caches = Caches_Clear (new_caches c)\<rparr>"

definition empty_cache :: VertexInfoCache where
  "empty_cache = (let e = \<lparr>existsCache = Map.empty, deletedCache = Map.empty, hasLabelCache = Map.empty,
     propertyValueCache = Map.empty, labelCache = Map.empty, propertiesCache = Map.empty,
     inEdgesCache = Map.empty, outEdgesCache = Map.empty, inDegreeCache = Map.empty, outDegreeCache = Map.empty\<rparr>
   in \<lparr>old_caches = e, new_caches = e\<rparr>)"

section \<open>Fetch and store\<close>

definition caches_of :: "View \<Rightarrow> VertexInfoCache \<Rightarrow> Caches" where
  "caches_of view c = (if view = OLD then old_caches c else new_caches c)"

definition FetchHelper :: "(Caches \<Rightarrow> 'k \<rightharpoonup> 'v) \<Rightarrow> VertexInfoCache \<Rightarrow> View \<Rightarrow> 'k \<Rightarrow> 'v option" where
  "FetchHelper getCache caches view k = getCache (caches_of view caches) k"

text \<open>\<open>emplace\<close> keeps an entry that is already there.\<close>

definition Store :: "((('k \<rightharpoonup> 'v) \<Rightarrow> ('k \<rightharpoonup> 'v)) \<Rightarrow> Caches \<Rightarrow> Caches) \<Rightarrow> 'v \<Rightarrow> VertexInfoCache \<Rightarrow> View \<Rightarrow> 'k
    \<Rightarrow> VertexInfoCache" where
  "Store updCache v caches view k =
    (let upd = updCache (\<lambda>m. case m k of None \<Rightarrow> m(k \<mapsto> v) | Some _ \<Rightarrow> m)
     in if view = OLD then caches\<lparr>old_caches := upd (old_caches caches)\<rparr>
        else caches\<lparr>new_caches := upd (new_caches caches)\<rparr>)"

definition Cache_GetExists :: "View \<Rightarrow> gid \<Rightarrow> VertexInfoCache \<Rightarrow> bool option" where
  "Cache_GetExists view vertex c = FetchHelper existsCache c view vertex"

definition Cache_StoreExists :: "View \<Rightarrow> gid \<Rightarrow> bool \<Rightarrow> VertexInfoCache \<Rightarrow> VertexInfoCache" where
  "Cache_StoreExists view vertex res c = Store existsCache_update res c view vertex"

definition Cache_GetDeleted :: "View \<Rightarrow> gid \<Rightarrow> VertexInfoCache \<Rightarrow> bool option" where
  "Cache_GetDeleted view vertex c = FetchHelper deletedCache c view vertex"

definition Cache_StoreDeleted :: "View \<Rightarrow> gid \<Rightarrow> bool \<Rightarrow> VertexInfoCache \<Rightarrow> VertexInfoCache" where
  "Cache_StoreDeleted view vertex res c = Store deletedCache_update res c view vertex"

definition Cache_GetLabels :: "View \<Rightarrow> gid \<Rightarrow> VertexInfoCache \<Rightarrow> (label_id list) option" where
  "Cache_GetLabels view vertex c = FetchHelper labelCache c view vertex"

definition Cache_StoreLabels :: "View \<Rightarrow> gid \<Rightarrow> label_id list \<Rightarrow> VertexInfoCache \<Rightarrow> VertexInfoCache" where
  "Cache_StoreLabels view vertex res c = Store labelCache_update res c view vertex"

definition Cache_GetHasLabel :: "View \<Rightarrow> gid \<Rightarrow> label_id \<Rightarrow> VertexInfoCache \<Rightarrow> bool option" where
  "Cache_GetHasLabel view vertex k c = FetchHelper hasLabelCache c view (vertex, k)"

definition Cache_StoreHasLabel :: "View \<Rightarrow> gid \<Rightarrow> label_id \<Rightarrow> bool \<Rightarrow> VertexInfoCache \<Rightarrow> VertexInfoCache" where
  "Cache_StoreHasLabel view vertex k res c = Store hasLabelCache_update res c view (vertex, k)"

definition Cache_GetProperty :: "View \<Rightarrow> gid \<Rightarrow> property_id \<Rightarrow> VertexInfoCache \<Rightarrow> pv option" where
  "Cache_GetProperty view vertex k c = FetchHelper propertyValueCache c view (vertex, k)"

definition Cache_StoreProperty :: "View \<Rightarrow> gid \<Rightarrow> property_id \<Rightarrow> pv \<Rightarrow> VertexInfoCache \<Rightarrow> VertexInfoCache" where
  "Cache_StoreProperty view vertex k res c = Store propertyValueCache_update res c view (vertex, k)"

definition Cache_GetProperties :: "View \<Rightarrow> gid \<Rightarrow> VertexInfoCache \<Rightarrow> property_map option" where
  "Cache_GetProperties view vertex c = FetchHelper propertiesCache c view vertex"

definition Cache_StoreProperties :: "View \<Rightarrow> gid \<Rightarrow> property_map \<Rightarrow> VertexInfoCache \<Rightarrow> VertexInfoCache" where
  "Cache_StoreProperties view vertex res c = Store propertiesCache_update res c view vertex"

definition Cache_GetInDegree :: "View \<Rightarrow> gid \<Rightarrow> VertexInfoCache \<Rightarrow> (64 word) option" where
  "Cache_GetInDegree view vertex c = FetchHelper inDegreeCache c view vertex"

definition Cache_StoreInDegree :: "View \<Rightarrow> gid \<Rightarrow> 64 word \<Rightarrow> VertexInfoCache \<Rightarrow> VertexInfoCache" where
  "Cache_StoreInDegree view vertex res c = Store inDegreeCache_update res c view vertex"

definition Cache_GetOutDegree :: "View \<Rightarrow> gid \<Rightarrow> VertexInfoCache \<Rightarrow> (64 word) option" where
  "Cache_GetOutDegree view vertex c = FetchHelper outDegreeCache c view vertex"

definition Cache_StoreOutDegree :: "View \<Rightarrow> gid \<Rightarrow> 64 word \<Rightarrow> VertexInfoCache \<Rightarrow> VertexInfoCache" where
  "Cache_StoreOutDegree view vertex res c = Store outDegreeCache_update res c view vertex"

definition Cache_GetInEdges :: "View \<Rightarrow> gid \<Rightarrow> gid option \<Rightarrow> edge_type_id list \<Rightarrow> VertexInfoCache \<Rightarrow> edge_entry list option" where
  "Cache_GetInEdges view src dst types c = FetchHelper inEdgesCache c view (EdgeKey src dst types)"

definition Cache_StoreInEdges :: "View \<Rightarrow> gid \<Rightarrow> gid option \<Rightarrow> edge_type_id list \<Rightarrow> edge_entry list \<Rightarrow> VertexInfoCache \<Rightarrow> VertexInfoCache" where
  "Cache_StoreInEdges view src dst types res c = Store inEdgesCache_update res c view (EdgeKey src dst types)"

definition Cache_GetOutEdges :: "View \<Rightarrow> gid \<Rightarrow> gid option \<Rightarrow> edge_type_id list \<Rightarrow> VertexInfoCache \<Rightarrow> edge_entry list option" where
  "Cache_GetOutEdges view src dst types c = FetchHelper outEdgesCache c view (EdgeKey src dst types)"

definition Cache_StoreOutEdges :: "View \<Rightarrow> gid \<Rightarrow> gid option \<Rightarrow> edge_type_id list \<Rightarrow> edge_entry list \<Rightarrow> VertexInfoCache \<Rightarrow> VertexInfoCache" where
  "Cache_StoreOutEdges view src dst types res c = Store outEdgesCache_update res c view (EdgeKey src dst types)"

section \<open>Invalidation\<close>

text \<open>The four overloads of \<open>Invalidate\<close> touch the caches of the new view only.\<close>

definition Invalidate_vertex :: "gid \<Rightarrow> VertexInfoCache \<Rightarrow> VertexInfoCache" where
  "Invalidate_vertex vertex c = c\<lparr>new_caches :=
     (new_caches c)\<lparr>existsCache := (existsCache (new_caches c))(vertex := None),
       deletedCache := (deletedCache (new_caches c))(vertex := None),
       labelCache := (labelCache (new_caches c))(vertex := None),
       propertiesCache := (propertiesCache (new_caches c))(vertex := None),
       inDegreeCache := (inDegreeCache (new_caches c))(vertex := None),
       outDegreeCache := (outDegreeCache (new_caches c))(vertex := None),
       hasLabelCache := Map.empty,
       propertyValueCache := Map.empty,
       inEdgesCache := Map.empty,
       outEdgesCache := Map.empty\<rparr>\<rparr>"

definition Invalidate_label :: "gid \<Rightarrow> label_id \<Rightarrow> VertexInfoCache \<Rightarrow> VertexInfoCache" where
  "Invalidate_label vertex label c = c\<lparr>new_caches :=
     (new_caches c)\<lparr>labelCache := (labelCache (new_caches c))(vertex := None),
       hasLabelCache := (hasLabelCache (new_caches c))((vertex, label) := None)\<rparr>\<rparr>"

definition Invalidate_property :: "gid \<Rightarrow> property_id \<Rightarrow> VertexInfoCache \<Rightarrow> VertexInfoCache" where
  "Invalidate_property vertex property c = c\<lparr>new_caches :=
     (new_caches c)\<lparr>propertiesCache := (propertiesCache (new_caches c))(vertex := None),
       propertyValueCache := (propertyValueCache (new_caches c))((vertex, property) := None)\<rparr>\<rparr>"

definition Invalidate_edges :: "gid \<Rightarrow> EdgeDirection \<Rightarrow> VertexInfoCache \<Rightarrow> VertexInfoCache" where
  "Invalidate_edges vertex direction c = c\<lparr>new_caches :=
     (if direction = IN_DIR
      then (new_caches c)\<lparr>inDegreeCache := (inDegreeCache (new_caches c))(vertex := None), inEdgesCache := Map.empty\<rparr>
      else (new_caches c)\<lparr>outDegreeCache := (outDegreeCache (new_caches c))(vertex := None), outEdgesCache := Map.empty\<rparr>)\<rparr>"

section \<open>The contract of a cache member\<close>

locale cache_member =
  fixes getCache :: "Caches \<Rightarrow> 'k \<rightharpoonup> 'v"
    and updCache :: "(('k \<rightharpoonup> 'v) \<Rightarrow> ('k \<rightharpoonup> 'v)) \<Rightarrow> Caches \<Rightarrow> Caches"
  assumes get_upd: "getCache (updCache f c) = f (getCache c)"
begin

lemma fetch_store:
  "FetchHelper getCache (Store updCache v c view k) view' k' =
    (if view' = view \<and> k' = k \<and> FetchHelper getCache c view k = None then Some v
     else FetchHelper getCache c view' k')"
  by (cases view; cases view')
     (auto simp: FetchHelper_def Store_def caches_of_def Let_def get_upd split: option.splits)

end

interpretation exists_member: cache_member existsCache existsCache_update
  by unfold_locales simp

interpretation deleted_member: cache_member deletedCache deletedCache_update
  by unfold_locales simp

interpretation label_member: cache_member labelCache labelCache_update
  by unfold_locales simp

interpretation hasLabel_member: cache_member hasLabelCache hasLabelCache_update
  by unfold_locales simp

interpretation propertyValue_member: cache_member propertyValueCache propertyValueCache_update
  by unfold_locales simp

interpretation properties_member: cache_member propertiesCache propertiesCache_update
  by unfold_locales simp

interpretation inDegree_member: cache_member inDegreeCache inDegreeCache_update
  by unfold_locales simp

interpretation outDegree_member: cache_member outDegreeCache outDegreeCache_update
  by unfold_locales simp

interpretation inEdges_member: cache_member inEdgesCache inEdgesCache_update
  by unfold_locales simp

interpretation outEdges_member: cache_member outEdgesCache outEdgesCache_update
  by unfold_locales simp

text \<open>A store into one member leaves the fetches from the others alone.\<close>

lemma FetchHelper_Store_other:
  assumes "\<And>f c. getCache (updCache f c) = getCache c"
  shows "FetchHelper getCache (Store updCache v c view k) view' k' = FetchHelper getCache c view' k'"
  by (cases view; cases view') (auto simp: FetchHelper_def Store_def caches_of_def Let_def assms)

lemmas cache_get_defs = Cache_GetExists_def Cache_GetDeleted_def Cache_GetLabels_def Cache_GetHasLabel_def Cache_GetProperty_def Cache_GetProperties_def Cache_GetInEdges_def Cache_GetOutEdges_def Cache_GetInDegree_def Cache_GetOutDegree_def

lemmas cache_store_defs = Cache_StoreExists_def Cache_StoreDeleted_def Cache_StoreLabels_def Cache_StoreHasLabel_def Cache_StoreProperty_def Cache_StoreProperties_def Cache_StoreInEdges_def Cache_StoreOutEdges_def Cache_StoreInDegree_def Cache_StoreOutDegree_def

lemmas cache_fetch_store = exists_member.fetch_store deleted_member.fetch_store label_member.fetch_store hasLabel_member.fetch_store propertyValue_member.fetch_store properties_member.fetch_store inDegree_member.fetch_store outDegree_member.fetch_store inEdges_member.fetch_store outEdges_member.fetch_store

end
