(* ===== verification/Mvcc.thy ===== *)
theory Mvcc
  imports VertexInfoCache TypeConstraints
begin

text \<open>
  Multi-version concurrency control (src/storage/v2/mvcc.hpp, transaction.hpp): the transaction
  record, the walk over the undo deltas of an object that reconstructs the version a
  transaction sees, the write-conflict checks, and the creation of deltas.  The chain of an
  object is passed as the list of its deltas, newest first; the commit infos live in a heap
  addressed by the id of the transaction that allocated them.
\<close>

section \<open>Transactions\<close>

datatype IsolationLevel = SNAPSHOT_ISOLATION | READ_COMMITTED | READ_UNCOMMITTED

datatype StorageMode = IN_MEMORY_ANALYTICAL | IN_MEMORY_TRANSACTIONAL | ON_DISK_TRANSACTIONAL

definition kTimestampInitialId :: nat where "kTimestampInitialId = 0"

definition kTransactionInitialId :: nat where "kTransactionInitialId = 2 ^ 63"

text \<open>The object a delta belongs to, kept with the address of the delta in \<open>Transaction::deltas\<close>; the
  source finds it by following the \<open>prev\<close> pointers.\<close>

datatype delta_owner = Owner_vertex gid | Owner_edge gid

record transaction =
  tx_id :: nat
  tx_start :: nat
  tx_commit_info :: "nat option"
  tx_command_id :: nat
  tx_deltas :: "(delta_owner \<times> nat) list"
  tx_has_serialization_error :: bool
  tx_has_non_sequential_deltas :: bool
  tx_isolation_level :: IsolationLevel
  tx_storage_mode :: StorageMode
  tx_edge_import_mode_active :: bool
  tx_parallel_execution :: bool
  tx_cache :: VertexInfoCache
  tx_constraint_verification_info :: bool
  tx_edge_set_property_info :: "gid \<rightharpoonup> gid \<times> edge_type_id"
  tx_type_constraints :: tc_container

definition Transaction_new :: "nat \<Rightarrow> nat \<Rightarrow> IsolationLevel \<Rightarrow> StorageMode \<Rightarrow> bool \<Rightarrow> bool \<Rightarrow> tc_container \<Rightarrow> transaction" where
  "Transaction_new transaction_id start_timestamp isolation_level storage_mode edge_import_mode_active has_active_constraints type_constraints =
    \<lparr>tx_id = transaction_id, tx_start = start_timestamp, tx_commit_info = None, tx_command_id = 0, tx_deltas = [],
     tx_has_serialization_error = False, tx_has_non_sequential_deltas = False,
     tx_isolation_level = isolation_level, tx_storage_mode = storage_mode,
     tx_edge_import_mode_active = edge_import_mode_active, tx_parallel_execution = False,
     tx_cache = empty_cache, tx_constraint_verification_info = has_active_constraints, tx_edge_set_property_info = Map.empty,
     tx_type_constraints = type_constraints\<rparr>"

definition UseCache :: "transaction \<Rightarrow> bool" where
  "UseCache tx \<longleftrightarrow> tx_isolation_level tx = SNAPSHOT_ISOLATION \<and> \<not> tx_parallel_execution tx"

definition IsDiskStorage :: "transaction \<Rightarrow> bool" where
  "IsDiskStorage tx \<longleftrightarrow> tx_storage_mode tx = ON_DISK_TRANSACTIONAL"

text \<open>The heap of the deltas: the commit infos and the next free delta address.\<close>

record delta_heap =
  h_commit_infos :: "nat \<Rightarrow> commit_info"
  h_next_delta :: nat

definition EnsureCommitInfoExists :: "transaction \<Rightarrow> delta_heap \<Rightarrow> transaction \<times> delta_heap" where
  "EnsureCommitInfoExists tx h =
    (case tx_commit_info tx of
       Some _ \<Rightarrow> (tx, h)
     | None \<Rightarrow> (tx\<lparr>tx_commit_info := Some (tx_id tx)\<rparr>,
         h\<lparr>h_commit_infos := (h_commit_infos h)(tx_id tx :=
            \<lparr>ci_timestamp = tx_id tx, ci_non_seq_propagation = PROP_NONE\<rparr>)\<rparr>))"

text \<open>\<open>delta->commit_info->timestamp.load()\<close>.\<close>

definition ts :: "delta_heap \<Rightarrow> delta \<Rightarrow> nat" where
  "ts h d = ci_timestamp (h_commit_infos h (d_commit_info d))"

section \<open>Reading\<close>

text \<open>The timestamp that marks the deltas of the reading transaction itself.\<close>

definition own_timestamp :: "delta_heap \<Rightarrow> transaction \<Rightarrow> nat" where
  "own_timestamp h tx = (case tx_commit_info tx of Some ci \<Rightarrow> ci_timestamp (h_commit_infos h ci) | None \<Rightarrow> tx_id tx)"

text \<open>The three conditions under which a delta is not undone.\<close>

definition delta_visible :: "delta_heap \<Rightarrow> transaction \<Rightarrow> View \<Rightarrow> delta \<Rightarrow> bool" where
  "delta_visible h tx view d \<longleftrightarrow>
    (tx_isolation_level tx = SNAPSHOT_ISOLATION \<and> ts h d < tx_start tx \<or>
     tx_isolation_level tx = READ_COMMITTED \<and> ts h d < kTransactionInitialId) \<or>
    (view = NEW \<and> ts h d = own_timestamp h tx \<and> d_command_id d \<le> tx_command_id tx) \<or>
    (view = OLD \<and> ts h d = own_timestamp h tx \<and>
     (d_command_id d < tx_command_id tx \<or>
      d_command_id d = tx_command_id tx \<and> d_op d = DELETE_DESERIALIZED_OBJECT))"

fun ApplyDeltas_loop :: "delta_heap \<Rightarrow> transaction \<Rightarrow> View \<Rightarrow> (delta \<Rightarrow> 's \<Rightarrow> 'e + 's) \<Rightarrow> delta list \<Rightarrow> nat \<Rightarrow> 's
    \<Rightarrow> 'e + nat \<times> 's" where
  "ApplyDeltas_loop h tx view callback [] n_processed s = Inr (n_processed, s)"
| "ApplyDeltas_loop h tx view callback (d # ds) n_processed s =
    (if delta_visible h tx view d
     then if IsDeltaNonSequential d then ApplyDeltas_loop h tx view callback ds n_processed s
          else Inr (n_processed, s)
     else bind_result (callback d s) (ApplyDeltas_loop h tx view callback ds (n_processed + 1)))"

definition ApplyDeltasForRead :: "delta_heap \<Rightarrow> transaction \<Rightarrow> delta list \<Rightarrow> View \<Rightarrow> (delta \<Rightarrow> 's \<Rightarrow> 'e + 's) \<Rightarrow> 's
    \<Rightarrow> 'e + nat \<times> 's" where
  "ApplyDeltasForRead h tx ds view callback s =
    (if ds = [] \<or> tx_isolation_level tx = READ_UNCOMMITTED then Inr (0, s)
     else ApplyDeltas_loop h tx view callback ds 0 s)"

section \<open>Preparing a write\<close>

text \<open>\<open>PrepareForWrite\<close> on a chain; the flag is that of a vertex, and \<^term>\<open>False\<close> for an edge, which has none.\<close>

definition PrepareForWrite :: "delta_heap \<Rightarrow> transaction \<Rightarrow> delta list \<Rightarrow> bool \<Rightarrow> bool \<times> transaction" where
  "PrepareForWrite h tx ds has_uncommitted_non_sequential_deltas =
    (case ds of
       [] \<Rightarrow> (True, tx)
     | d # _ \<Rightarrow>
         if ts h d = tx_id tx
         then if IsDeltaNonSequential d then (False, tx\<lparr>tx_has_serialization_error := True\<rparr>) else (True, tx)
         else if ts h d < tx_start tx
         then if has_uncommitted_non_sequential_deltas
              then (False, tx\<lparr>tx_has_serialization_error := True\<rparr>) else (True, tx)
         else (False, tx\<lparr>tx_has_serialization_error := True\<rparr>))"

datatype WriteResult = WR_SUCCESS | WR_NON_SEQUENTIAL | WR_SERIALIZATION_ERROR

text \<open>The loop over the chain: \<^term>\<open>True\<close> when a blocking delta of another transaction is met.\<close>

fun blocking_delta_ahead :: "delta_heap \<Rightarrow> transaction \<Rightarrow> delta list \<Rightarrow> bool" where
  "blocking_delta_ahead h tx [] \<longleftrightarrow> False"
| "blocking_delta_ahead h tx (d # ds) \<longleftrightarrow>
    (if ts h d = tx_id tx then blocking_delta_ahead h tx ds
     else if ts h d < tx_start tx then False
     else if IsDeltaNonSequential d then False
     else if \<not> CanBeNonSequential (d_op d) then True
     else blocking_delta_ahead h tx ds)"

text \<open>The result, the transaction, and the new value of the vertex flag.\<close>

definition PrepareForNonSequentialWrite ::
    "delta_heap \<Rightarrow> transaction \<Rightarrow> delta list \<Rightarrow> bool \<Rightarrow> WriteResult \<times> transaction \<times> bool" where
  "PrepareForNonSequentialWrite h tx ds flag =
    (case ds of
       [] \<Rightarrow> (WR_SUCCESS, tx, flag)
     | d # _ \<Rightarrow>
         if ts h d \<noteq> tx_id tx
         then if ts h d < tx_start tx
              then if flag then (WR_NON_SEQUENTIAL, tx\<lparr>tx_has_non_sequential_deltas := True\<rparr>, flag)
                   else (WR_SUCCESS, tx, flag)
              else if IsDeltaNonSequential d
              then (WR_NON_SEQUENTIAL, tx\<lparr>tx_has_non_sequential_deltas := True\<rparr>, True)
              else if CanBeNonSequential (d_op d) \<and> op_state (d_op d) = Some FORCED_SEQUENTIAL
              then (WR_SERIALIZATION_ERROR, tx\<lparr>tx_has_serialization_error := True\<rparr>, flag)
              else if blocking_delta_ahead h tx ds
              then (WR_SERIALIZATION_ERROR, tx\<lparr>tx_has_serialization_error := True\<rparr>, flag)
              else (WR_NON_SEQUENTIAL, tx\<lparr>tx_has_non_sequential_deltas := True\<rparr>, True)
         else if IsDeltaNonSequential d
         then (WR_NON_SEQUENTIAL, tx\<lparr>tx_has_non_sequential_deltas := True\<rparr>, True)
         else (WR_SUCCESS, tx, flag))"

definition ShouldSetNonSequentialBlockerUpstreamFlag :: "delta_heap \<Rightarrow> transaction \<Rightarrow> delta list \<Rightarrow> bool" where
  "ShouldSetNonSequentialBlockerUpstreamFlag h tx ds =
    (case ds of
       [] \<Rightarrow> False
     | d # _ \<Rightarrow>
         if ts h d \<noteq> tx_id tx then False
         else if CanBeNonSequential (d_op d) then op_state (d_op d) = Some FORCED_SEQUENTIAL
         else True)"

section \<open>Creating deltas\<close>

definition new_delta :: "transaction \<Rightarrow> delta_heap \<Rightarrow> delta_op \<Rightarrow> delta" where
  "new_delta tx h op = \<lparr>d_uid = h_next_delta h, d_commit_info = the (tx_commit_info tx),
     d_command_id = tx_command_id tx, d_op = op\<rparr>"

definition CreateDeleteObjectDelta :: "delta_owner \<Rightarrow> transaction \<Rightarrow> delta_heap \<Rightarrow> delta list \<times> transaction \<times> delta_heap" where
  "CreateDeleteObjectDelta owner tx h =
    (if tx_storage_mode tx = IN_MEMORY_ANALYTICAL then ([], tx, h)
     else
       let (tx1, h1) = EnsureCommitInfoExists tx h
       in ([new_delta tx1 h1 DELETE_OBJECT],
           tx1\<lparr>tx_deltas := tx_deltas tx1 @ [(owner, h_next_delta h1)]\<rparr>,
           h1\<lparr>h_next_delta := h_next_delta h1 + 1\<rparr>))"

text \<open>The upgrade of the previous head when the new delta is non-sequential.\<close>

definition upgrade_head :: "delta \<Rightarrow> delta list \<Rightarrow> delta_heap \<Rightarrow> delta list \<times> delta_heap" where
  "upgrade_head new ds h =
    (case ds of
       [] \<Rightarrow> ([], h)
     | d # ds' \<Rightarrow>
         if IsDeltaNonSequential new \<and> CanBeNonSequential (d_op d) \<and> op_state (d_op d) = Some SEQUENTIAL
         then (d\<lparr>d_op := set_op_state NON_SEQUENTIAL (d_op d)\<rparr> # ds',
               h\<lparr>h_commit_infos := (h_commit_infos h)(d_commit_info d :=
                 (let ci = h_commit_infos h (d_commit_info d)
                  in if ci_non_seq_propagation ci = PROP_NONE then ci\<lparr>ci_non_seq_propagation := PROP_PENDING\<rparr> else ci))\<rparr>)
         else (ds, h))"

definition CreateAndLinkDelta :: "delta_owner \<Rightarrow> delta_op \<Rightarrow> transaction \<Rightarrow> delta_heap \<Rightarrow> delta list
    \<Rightarrow> transaction \<times> delta_heap \<times> delta list" where
  "CreateAndLinkDelta owner op tx h ds =
    (if tx_storage_mode tx = IN_MEMORY_ANALYTICAL then (tx, h, ds)
     else
       let (tx1, h1) = EnsureCommitInfoExists tx h;
           d = new_delta tx1 h1 op;
           tx2 = tx1\<lparr>tx_deltas := tx_deltas tx1 @ [(owner, d_uid d)]\<rparr>;
           h2 = h1\<lparr>h_next_delta := h_next_delta h1 + 1\<rparr>;
           (ds', h3) = upgrade_head d ds h2
       in (tx2, h3, d # ds'))"

section \<open>What a read applies\<close>

text \<open>The deltas handed to the callback.\<close>

fun selected :: "(delta \<Rightarrow> bool) \<Rightarrow> delta list \<Rightarrow> delta list" where
  "selected V [] = []"
| "selected V (d # ds) =
    (if V d then if IsDeltaNonSequential d then selected V ds else [] else d # selected V ds)"

fun apply_all :: "('d \<Rightarrow> 's \<Rightarrow> 'e + 's) \<Rightarrow> 'd list \<Rightarrow> 's \<Rightarrow> 'e + 's" where
  "apply_all cb [] s = Inr s"
| "apply_all cb (d # ds) s = bind_result (cb d s) (apply_all cb ds)"

lemma ApplyDeltas_loop_eq:
  "ApplyDeltas_loop h tx view cb ds n s =
    bind_result (apply_all cb (selected (delta_visible h tx view) ds) s)
      (\<lambda>s'. Inr (n + length (selected (delta_visible h tx view) ds), s'))"
proof (induction ds arbitrary: n s)
  case (Cons d ds)
  then show ?case
    by (cases "cb d s") simp_all
qed simp

lemma ApplyDeltasForRead_eq:
  assumes "tx_isolation_level tx \<noteq> READ_UNCOMMITTED"
  shows "ApplyDeltasForRead h tx ds view cb s =
    bind_result (apply_all cb (selected (delta_visible h tx view) ds) s)
      (\<lambda>s'. Inr (length (selected (delta_visible h tx view) ds), s'))"
  using assms by (auto simp: ApplyDeltasForRead_def ApplyDeltas_loop_eq)

text \<open>A chain is closed for a visibility predicate when everything below a visible sequential delta is visible.\<close>

fun chain_closed :: "(delta \<Rightarrow> bool) \<Rightarrow> delta list \<Rightarrow> bool" where
  "chain_closed V [] \<longleftrightarrow> True"
| "chain_closed V (d # ds) \<longleftrightarrow>
    (V d \<and> \<not> IsDeltaNonSequential d \<longrightarrow> (\<forall>e \<in> set ds. V e)) \<and> chain_closed V ds"

lemma selected_filter: "chain_closed V ds \<Longrightarrow> selected V ds = filter (\<lambda>d. \<not> V d) ds"
  by (induction ds) (auto simp: filter_empty_conv)

lemma selected_subseq: "set (selected V ds) \<subseteq> {d \<in> set ds. \<not> V d}"
  by (induction ds) auto

lemma selected_append_visible: "\<forall>d \<in> set xs. \<not> V d \<Longrightarrow> selected V (xs @ ys) = xs @ selected V ys"
  by (induction xs) auto

lemma chain_closed_all: "(\<And>d. d \<in> set ds \<Longrightarrow> V d) \<Longrightarrow> chain_closed V ds"
  by (induction ds) auto

end
