(* ===== verification/Versions.thy ===== *)
theory Versions
  imports Mvcc
begin

text \<open>
  The specification side of multi-versioning: a vertex version as sets and functions, what
  undoing a delta does to it, and the version of a vertex that a transaction sees.  The order
  of the label and edge vectors, which the swap-and-pop removals change, is forgotten here.
\<close>

record aversion =
  a_exists :: bool
  a_deleted :: bool
  a_labels :: "label_id set"
  a_props :: "property_id \<Rightarrow> pv"
  a_in :: "edge_entry set"
  a_out :: "edge_entry set"

definition abs_vertex :: "vertex \<Rightarrow> aversion" where
  "abs_vertex v = \<lparr>a_exists = True, a_deleted = v_deleted v, a_labels = set (v_labels v),
     a_props = (\<lambda>p. GetProperty p (v_properties v)), a_in = set (v_in_edges v), a_out = set (v_out_edges v)\<rparr>"

text \<open>Undoing one delta, and when the state is one in which the delta can be undone.\<close>

definition aundo :: "delta_op \<Rightarrow> aversion \<Rightarrow> aversion" where
  "aundo op a = (case op of
     DELETE_DESERIALIZED_OBJECT \<Rightarrow> a\<lparr>a_exists := False\<rparr>
   | DELETE_OBJECT \<Rightarrow> a\<lparr>a_exists := False\<rparr>
   | RECREATE_OBJECT \<Rightarrow> a\<lparr>a_deleted := False\<rparr>
   | SET_PROPERTY p w _ \<Rightarrow> a\<lparr>a_props := (a_props a)(p := w)\<rparr>
   | ADD_LABEL l \<Rightarrow> a\<lparr>a_labels := insert l (a_labels a)\<rparr>
   | REMOVE_LABEL l \<Rightarrow> a\<lparr>a_labels := a_labels a - {l}\<rparr>
   | ADD_IN_EDGE t v e _ \<Rightarrow> a\<lparr>a_in := insert (t, v, e) (a_in a)\<rparr>
   | ADD_OUT_EDGE t v e _ \<Rightarrow> a\<lparr>a_out := insert (t, v, e) (a_out a)\<rparr>
   | REMOVE_IN_EDGE t v e _ \<Rightarrow> a\<lparr>a_in := a_in a - {(t, v, e)}\<rparr>
   | REMOVE_OUT_EDGE t v e _ \<Rightarrow> a\<lparr>a_out := a_out a - {(t, v, e)}\<rparr>)"

definition undoable :: "delta_op \<Rightarrow> aversion \<Rightarrow> bool" where
  "undoable op a \<longleftrightarrow> (case op of
     ADD_LABEL l \<Rightarrow> l \<notin> a_labels a
   | REMOVE_LABEL l \<Rightarrow> l \<in> a_labels a
   | ADD_IN_EDGE t v e _ \<Rightarrow> (t, v, e) \<notin> a_in a
   | ADD_OUT_EDGE t v e _ \<Rightarrow> (t, v, e) \<notin> a_out a
   | REMOVE_IN_EDGE t v e _ \<Rightarrow> (t, v, e) \<in> a_in a
   | REMOVE_OUT_EDGE t v e _ \<Rightarrow> (t, v, e) \<in> a_out a
   | _ \<Rightarrow> True)"

definition undo_all :: "delta list \<Rightarrow> aversion \<Rightarrow> aversion" where
  "undo_all ds a = fold (\<lambda>d. aundo (d_op d)) ds a"

fun undoable_all :: "delta list \<Rightarrow> aversion \<Rightarrow> bool" where
  "undoable_all [] a \<longleftrightarrow> True"
| "undoable_all (d # ds) a \<longleftrightarrow> undoable (d_op d) a \<and> undoable_all ds (aundo (d_op d) a)"

lemma undo_all_simps [simp]:
  "undo_all [] a = a" "undo_all (d # ds) a = undo_all ds (aundo (d_op d) a)"
  "undo_all (ds @ es) a = undo_all es (undo_all ds a)"
  by (simp_all add: undo_all_def)

lemma undoable_all_append: "undoable_all (ds @ es) a \<longleftrightarrow> undoable_all ds a \<and> undoable_all es (undo_all ds a)"
  by (induction ds arbitrary: a) auto

text \<open>The version of a vertex in the eyes of a transaction: what \<open>ApplyDeltasForRead\<close> reconstructs.\<close>

definition deltas_for :: "delta_heap \<Rightarrow> transaction \<Rightarrow> View \<Rightarrow> delta list \<Rightarrow> delta list" where
  "deltas_for h tx view ds =
    (if tx_isolation_level tx = READ_UNCOMMITTED then [] else selected (delta_visible h tx view) ds)"

definition version_of :: "delta_heap \<Rightarrow> transaction \<Rightarrow> View \<Rightarrow> vertex \<Rightarrow> aversion" where
  "version_of h tx view v = undo_all (deltas_for h tx view (v_deltas v)) (abs_vertex v)"

text \<open>The vectors of a vertex have no duplicates, and its property store is well-formed.\<close>

definition vertex_wf :: "vertex \<Rightarrow> bool" where
  "vertex_wf v \<longleftrightarrow> distinct (v_labels v) \<and> props_ok (v_properties v) \<and> distinct (v_in_edges v) \<and> distinct (v_out_edges v)"

lemma ApplyDeltasForRead_deltas_for:
  "ApplyDeltasForRead h tx ds view cb s =
    bind_result (apply_all cb (deltas_for h tx view ds) s) (\<lambda>s'. Inr (length (deltas_for h tx view ds), s'))"
proof (cases "tx_isolation_level tx = READ_UNCOMMITTED")
  case True
  then show ?thesis
    by (simp add: deltas_for_def ApplyDeltasForRead_def)
next
  case False
  then show ?thesis
    unfolding ApplyDeltasForRead_eq[OF False] by (simp add: deltas_for_def)
qed

text \<open>Edge creations commute at this level.\<close>

lemma diff_swap: "A - {x} - {y} = A - {y} - {x}"
  by blast

lemma aundo_commute:
  assumes "CanBeNonSequential op" and "CanBeNonSequential op'"
  shows "aundo op (aundo op' a) = aundo op' (aundo op a)"
  using assms by (cases op; cases op') (auto simp: aundo_def CanBeNonSequential_def diff_swap[of _ x for x :: edge_entry])

lemma aundo_set_op_state [simp]: "aundo (set_op_state st op) = aundo op"
  by (cases op) (auto simp: aundo_def set_op_state_def fun_eq_iff)

lemma undo_all_commute:
  assumes "CanBeNonSequential op" and "\<forall>d \<in> set ds. CanBeNonSequential (d_op d)"
  shows "undo_all ds (aundo op a) = aundo op (undo_all ds a)"
  using assms(2)
proof (induction ds arbitrary: a)
  case (Cons d ds)
  then show ?case
    using aundo_commute[OF _ assms(1), of "d_op d" a] by simp
qed simp

end
