(* ===== verification/GraphDb.thy ===== *)
theory GraphDb
  imports Mvcc CommitLog
begin

text \<open>
  The state of an in-memory storage that the vertex and edge accessors and the storage
  accessor share (src/storage/v2/storage.hpp, inmemory/storage.hpp): the two object stores, the
  heap of deltas, the id and timestamp counters, the commit log and the counters.  Calls into
  the components that are not modelled (indices, unique constraints, schema information,
  constraint verification) are recorded in order in \<open>db_calls\<close>.
\<close>

section \<open>Errors and configuration\<close>

text \<open>The values of \<open>Error\<close>, the exceptions the accessors throw, failed assertions, and a pointer to an
  object that is no longer in the store.\<close>

datatype storage_error =
    SERIALIZATION_ERROR | NONEXISTENT_OBJECT | DELETED_OBJECT | VERTEX_HAS_EDGES | PROPERTIES_DISABLED
  | Ex_edge_import_mode | Ex_type_constraint violation | Assertion_failed | Dangling_pointer

text \<open>\<open>cfg_value_eq\<close> is the comparison of property values, and \<open>cfg_vector_convert\<close> and \<open>cfg_vector_edge_convert\<close> the
  conversions of a list to a vector-index value; their code lies outside this development and they are parameters.\<close>

record config =
  cfg_properties_on_edges :: bool
  cfg_delta_on_identical_property_update :: bool
  cfg_enable_edges_metadata :: bool
  cfg_enable_schema_metadata :: bool
  cfg_enable_schema_info :: bool
  cfg_track_label_counts :: bool
  cfg_delta_chain_cache_threshold :: nat
  cfg_value_eq :: "pv \<Rightarrow> pv \<Rightarrow> bool"
  cfg_snapshot_with_wal :: bool
  cfg_vector_convert :: "gid \<Rightarrow> property_id \<Rightarrow> pv \<Rightarrow> pv option"
  cfg_vector_edge_convert :: "edge_type_id \<Rightarrow> property_id \<Rightarrow> pv \<Rightarrow> pv option"

datatype (plugins only:) side_call =
    Index_UpdateOnAddLabel label_id gid
  | Index_UpdateOnRemoveLabel label_id gid
  | Index_UpdateOnSetProperty property_id pv pv gid
  | Index_UpdateOnSetEdgeProperty edge_type_id property_id pv gid gid edge_ref
  | Index_UpdateOnEdgeCreation gid gid edge_ref edge_type_id
  | Unique_UpdateOnAddLabel label_id gid nat
  | Unique_UpdateOnRemoveLabel label_id gid nat
  | Verification_AddedLabel gid
  | Verification_AddedProperty gid
  | Verification_RemovedProperty gid
  | Schema_store_label label_id
  | Schema_store_edge_type edge_type_id
  | Schema_CreateVertex gid
  | Schema_DeleteVertex gid
  | Schema_CreateEdge gid gid edge_type_id
  | Schema_DeleteEdge gid gid edge_type_id edge_ref
  | Schema_AddLabel gid label_id
  | Schema_RemoveLabel gid label_id
  | Schema_SetProperty gid property_id pv pv
  | Schema_SetEdgeProperty edge_ref edge_type_id gid gid property_id pv pv
  | Async_TrackLabel label_id
  | Async_TrackEdgeType edge_type_id
  | Point_UpdateOnChangeLabel label_id gid
  | Point_UpdateOnSetProperty property_id pv pv gid
  | Point_UpdateOnVertexDelete gid
  | Collect_garbage_full_scan_vertices
  | Collect_garbage_full_scan_edges
  | Text_RemoveNode gid
  | Text_RemoveEdge edge_ref gid gid edge_type_id
  | Point_AdvanceCommand
  | Schema_queue_update nat
  | Schema_ProcessPendingUpdates nat
  | Wal_UpdateCommitStatus
  | Wal_Finalize
  | Wal_AppendTransaction nat bool
  | Commit_ts_info_update nat
  | Point_InstallNewPointIndex
  | Commit_callbacks_RunAll nat
  | Abort_callbacks_RunAll
  | Async_DispatchRequests
  | Text_ApplyTrackedChanges
  | Unique_AbortEntries nat
  | Index_CollectOnEdgePropertyChange property_id pv edge_ref
  | Index_CollectOnLabelRemoval label_id gid
  | Index_CollectOnLabelAddition label_id gid
  | Index_CollectOnPropertyChange property_id pv gid
  | Index_CollectOnEdgeRemoval edge_type_id gid gid edge_ref
  | Index_AbortProcess nat
  | Index_RemoveObsoleteVertexEntries nat
  | Index_RemoveObsoleteEdgeEntries nat
  | Unique_RemoveObsoleteEntries nat
  | Vector_RemoveVertices "gid list"
  | Vector_RemoveEdges "gid list"
  | Vector_RemoveDeletedVertices
  | Vector_RemoveDeletedEdges

text \<open>What is handed to the garbage collector: buffers of deltas and the gids of deleted objects.\<close>

record gc_deltas =
  gd_mark_timestamp :: nat
  gd_deltas :: "(delta_owner \<times> nat) list"
  gd_commit_info :: "nat option"
  gd_unlinkable_timestamp :: nat
  gd_transaction_id :: nat

definition GCDeltas_new :: "delta_heap \<Rightarrow> nat \<Rightarrow> (delta_owner \<times> nat) list \<Rightarrow> nat option \<Rightarrow> nat \<Rightarrow> gc_deltas" where
  "GCDeltas_new h mark_timestamp deltas commit_info transaction_id =
    \<lparr>gd_mark_timestamp = mark_timestamp, gd_deltas = deltas, gd_commit_info = commit_info,
     gd_unlinkable_timestamp = (case commit_info of None \<Rightarrow> 0 | Some ci \<Rightarrow> ci_timestamp (h_commit_infos h ci)),
     gd_transaction_id = transaction_id\<rparr>"

record gc_state =
  gc_committed_transactions :: "gc_deltas list"
  gc_waiting_deltas :: "gc_deltas list"
  gc_garbage_undo_buffers :: "gc_deltas list"
  gc_deleted_vertices :: "gid list"
  gc_deleted_edges :: "gid list"

record db =
  db_config :: config
  db_vertices :: "gid \<rightharpoonup> vertex"
  db_edges :: "gid \<rightharpoonup> edge"
  db_edges_metadata :: "gid \<rightharpoonup> gid"
  db_heap :: delta_heap
  db_vertex_id :: nat
  db_edge_id :: nat
  db_edge_count :: int
  db_label_counts :: "label_id \<Rightarrow> int"
  db_timestamp :: nat
  db_transaction_id :: nat
  db_commit_log :: commit_log
  db_type_constraints :: type_constraints
  db_gc :: gc_state
  db_calls :: "side_call list"

definition calls :: "side_call list \<Rightarrow> db \<Rightarrow> db" where
  "calls cs db = db\<lparr>db_calls := db_calls db @ cs\<rparr>"

abbreviation call :: "side_call \<Rightarrow> db \<Rightarrow> db" where
  "call c \<equiv> calls [c]"

definition UpdateLabelCount :: "label_id \<Rightarrow> int \<Rightarrow> db \<Rightarrow> db" where
  "UpdateLabelCount label change db =
    (if cfg_track_label_counts (db_config db)
     then db\<lparr>db_label_counts := (db_label_counts db)(label := db_label_counts db label + change)\<rparr>
     else db)"

definition put_vertex :: "vertex \<Rightarrow> db \<Rightarrow> db" where
  "put_vertex v db = db\<lparr>db_vertices := (db_vertices db)(v_gid v \<mapsto> v)\<rparr>"

definition put_edge :: "edge \<Rightarrow> db \<Rightarrow> db" where
  "put_edge e db = db\<lparr>db_edges := (db_edges db)(e_gid e \<mapsto> e)\<rparr>"

text \<open>A storage as constructed, without recovery.\<close>

definition new_storage :: "config \<Rightarrow> db" where
  "new_storage cfg =
    \<lparr>db_config = cfg, db_vertices = Map.empty, db_edges = Map.empty, db_edges_metadata = Map.empty,
     db_heap = \<lparr>h_commit_infos = (\<lambda>_. \<lparr>ci_timestamp = 0, ci_non_seq_propagation = PROP_NONE\<rparr>), h_next_delta = 0\<rparr>,
     db_vertex_id = 0, db_edge_id = 0, db_edge_count = 0, db_label_counts = (\<lambda>_. 0),
     db_timestamp = kTimestampInitialId, db_transaction_id = kTransactionInitialId, db_commit_log = CommitLog_new,
     db_type_constraints = \<lparr>tcs_container = empty_container,
       tcs_heap = (\<lambda>_. \<lparr>ic_type = TC_INTEGER, ic_commit_timestamp = 0\<rparr>), tcs_next = 0\<rparr>,
     db_gc = \<lparr>gc_committed_transactions = [], gc_waiting_deltas = [], gc_garbage_undo_buffers = [],
       gc_deleted_vertices = [], gc_deleted_edges = []\<rparr>,
     db_calls = []\<rparr>"

text \<open>The configuration the examples use: the defaults, with syntactic equality of values and no vector index.\<close>

definition example_config :: config where
  "example_config = \<lparr>cfg_properties_on_edges = True, cfg_delta_on_identical_property_update = True,
     cfg_enable_edges_metadata = False, cfg_enable_schema_metadata = False, cfg_enable_schema_info = False, cfg_track_label_counts = False,
     cfg_delta_chain_cache_threshold = 128, cfg_value_eq = (=), cfg_snapshot_with_wal = False,
     cfg_vector_convert = (\<lambda>_ _ _. None), cfg_vector_edge_convert = (\<lambda>_ _ _. None)\<rparr>"

text \<open>\<open>CreateAndLinkDelta\<close> on a vertex and on an edge of the store.\<close>

definition link_vertex_delta :: "vertex \<Rightarrow> delta_op \<Rightarrow> transaction \<Rightarrow> db \<Rightarrow> vertex \<times> transaction \<times> db" where
  "link_vertex_delta v op tx db =
    (let (tx', h', ds') = CreateAndLinkDelta (Owner_vertex (v_gid v)) op tx (db_heap db) (v_deltas v);
         v' = v\<lparr>v_deltas := ds'\<rparr>
     in (v', tx', put_vertex v' (db\<lparr>db_heap := h'\<rparr>)))"

definition link_edge_delta :: "edge \<Rightarrow> delta_op \<Rightarrow> transaction \<Rightarrow> db \<Rightarrow> edge \<times> transaction \<times> db" where
  "link_edge_delta e op tx db =
    (let (tx', h', ds') = CreateAndLinkDelta (Owner_edge (e_gid e)) op tx (db_heap db) (e_deltas e);
         e' = e\<lparr>e_deltas := ds'\<rparr>
     in (e', tx', put_edge e' (db\<lparr>db_heap := h'\<rparr>)))"

text \<open>\<open>Transaction::UpdateOnChangeLabel\<close>, \<open>UpdateOnSetProperty\<close> and \<open>UpdateOnVertexDelete\<close>.\<close>

definition UpdateOnChangeLabel :: "label_id \<Rightarrow> gid \<Rightarrow> transaction \<Rightarrow> db \<Rightarrow> transaction \<times> db" where
  "UpdateOnChangeLabel label vertex tx db =
    (tx\<lparr>tx_cache := Invalidate_label vertex label (tx_cache tx)\<rparr>, call (Point_UpdateOnChangeLabel label vertex) db)"

definition UpdateOnSetProperty :: "property_id \<Rightarrow> pv \<Rightarrow> pv \<Rightarrow> gid \<Rightarrow> transaction \<Rightarrow> db \<Rightarrow> transaction \<times> db" where
  "UpdateOnSetProperty property old_value new_value vertex tx db =
    (tx\<lparr>tx_cache := Invalidate_property vertex property (tx_cache tx)\<rparr>,
     call (Point_UpdateOnSetProperty property old_value new_value vertex) db)"

definition UpdateOnVertexDelete :: "gid \<Rightarrow> transaction \<Rightarrow> db \<Rightarrow> transaction \<times> db" where
  "UpdateOnVertexDelete vertex tx db =
    (tx\<lparr>tx_cache := Invalidate_vertex vertex (tx_cache tx)\<rparr>, call (Point_UpdateOnVertexDelete vertex) db)"

lemma calls_simps [simp]:
  "db_config (calls cs db) = db_config db" "db_vertices (calls cs db) = db_vertices db"
  "db_edges (calls cs db) = db_edges db" "db_edges_metadata (calls cs db) = db_edges_metadata db"
  "db_heap (calls cs db) = db_heap db" "db_vertex_id (calls cs db) = db_vertex_id db"
  "db_edge_id (calls cs db) = db_edge_id db" "db_edge_count (calls cs db) = db_edge_count db"
  "db_label_counts (calls cs db) = db_label_counts db" "db_timestamp (calls cs db) = db_timestamp db"
  "db_transaction_id (calls cs db) = db_transaction_id db" "db_commit_log (calls cs db) = db_commit_log db"
  "db_type_constraints (calls cs db) = db_type_constraints db" "db_gc (calls cs db) = db_gc db"
  by (simp_all add: calls_def)

lemma UpdateLabelCount_simps [simp]:
  "db_config (UpdateLabelCount l i db) = db_config db" "db_vertices (UpdateLabelCount l i db) = db_vertices db"
  "db_edges (UpdateLabelCount l i db) = db_edges db" "db_edges_metadata (UpdateLabelCount l i db) = db_edges_metadata db"
  "db_heap (UpdateLabelCount l i db) = db_heap db" "db_vertex_id (UpdateLabelCount l i db) = db_vertex_id db"
  "db_edge_id (UpdateLabelCount l i db) = db_edge_id db" "db_edge_count (UpdateLabelCount l i db) = db_edge_count db"
  "db_timestamp (UpdateLabelCount l i db) = db_timestamp db"
  "db_transaction_id (UpdateLabelCount l i db) = db_transaction_id db"
  "db_commit_log (UpdateLabelCount l i db) = db_commit_log db"
  "db_type_constraints (UpdateLabelCount l i db) = db_type_constraints db" "db_gc (UpdateLabelCount l i db) = db_gc db"
  by (simp_all add: UpdateLabelCount_def)

lemma put_vertex_simps [simp]:
  "db_config (put_vertex v db) = db_config db" "db_edges (put_vertex v db) = db_edges db"
  "db_vertices (put_vertex v db) = (db_vertices db)(v_gid v \<mapsto> v)"
  "db_edges_metadata (put_vertex v db) = db_edges_metadata db"
  "db_heap (put_vertex v db) = db_heap db" "db_vertex_id (put_vertex v db) = db_vertex_id db"
  "db_edge_id (put_vertex v db) = db_edge_id db" "db_edge_count (put_vertex v db) = db_edge_count db"
  "db_timestamp (put_vertex v db) = db_timestamp db"
  "db_transaction_id (put_vertex v db) = db_transaction_id db"
  "db_commit_log (put_vertex v db) = db_commit_log db"
  "db_type_constraints (put_vertex v db) = db_type_constraints db" "db_gc (put_vertex v db) = db_gc db"
  by (simp_all add: put_vertex_def)

lemma put_edge_simps [simp]:
  "db_config (put_edge e db) = db_config db" "db_vertices (put_edge e db) = db_vertices db"
  "db_edges (put_edge e db) = (db_edges db)(e_gid e \<mapsto> e)"
  "db_edges_metadata (put_edge e db) = db_edges_metadata db"
  "db_heap (put_edge e db) = db_heap db" "db_vertex_id (put_edge e db) = db_vertex_id db"
  "db_edge_id (put_edge e db) = db_edge_id db" "db_edge_count (put_edge e db) = db_edge_count db"
  "db_timestamp (put_edge e db) = db_timestamp db"
  "db_transaction_id (put_edge e db) = db_transaction_id db"
  "db_commit_log (put_edge e db) = db_commit_log db"
  "db_type_constraints (put_edge e db) = db_type_constraints db" "db_gc (put_edge e db) = db_gc db"
  by (simp_all add: put_edge_def)

section \<open>Actions\<close>

text \<open>An operation of the storage accessor: it keeps the changes made before an error.\<close>

type_synonym 'a action = "transaction \<Rightarrow> db \<Rightarrow> (storage_error + 'a) \<times> transaction \<times> db"

definition ret :: "'a \<Rightarrow> 'a action" where
  "ret x tx db = (Inr x, tx, db)"

definition fail :: "storage_error \<Rightarrow> 'a action" where
  "fail e tx db = (Inl e, tx, db)"

definition bind_act :: "'a action \<Rightarrow> ('a \<Rightarrow> 'b action) \<Rightarrow> 'b action" where
  "bind_act m f tx db = (case m tx db of (Inl e, tx', db') \<Rightarrow> (Inl e, tx', db') | (Inr x, tx', db') \<Rightarrow> f x tx' db')"

definition get_db :: "db action" where
  "get_db tx db = (Inr db, tx, db)"

definition get_tx :: "transaction action" where
  "get_tx tx db = (Inr tx, tx, db)"

definition modify_db :: "(db \<Rightarrow> db) \<Rightarrow> unit action" where
  "modify_db f tx db = (Inr (), tx, f db)"

definition modify_tx :: "(transaction \<Rightarrow> transaction) \<Rightarrow> unit action" where
  "modify_tx f tx db = (Inr (), f tx, db)"

text \<open>A check that may raise an error.\<close>

definition ensure :: "bool \<Rightarrow> storage_error \<Rightarrow> unit action" where
  "ensure b e = (if b then ret () else fail e)"

fun for_each :: "('x \<Rightarrow> 's \<Rightarrow> 's action) \<Rightarrow> 'x list \<Rightarrow> 's \<Rightarrow> 's action" where
  "for_each f [] s = ret s"
| "for_each f (x # xs) s = bind_act (f x s) (for_each f xs)"

lemmas action_defs = ret_def fail_def bind_act_def get_db_def get_tx_def modify_db_def modify_tx_def ensure_def

end
