(* ===== verification/VertexReads.thy ===== *)
theory VertexReads
  imports GraphDb Versions
begin

text \<open>
  The read side of the vertex accessor (src/storage/v2/vertex_accessor.cpp and the action
  methods of vertex_info_helpers.hpp), for the in-memory storage modes.  The abstract version of
  a vertex that a transaction sees is a record of sets and functions (\<open>aversion\<close>); the contract
  \<open>projection\<close> says what an action method must do for the read to return a projection of that
  version, and it is interpreted for every read of the accessor.  A read goes through the cache
  of the transaction, and the theorems include that the cache stays coherent.
\<close>

section \<open>Action methods\<close>

text \<open>The callbacks that undo one delta on the part of the state a read is about.\<close>

definition Exists_ActionMethod :: "delta \<Rightarrow> bool \<Rightarrow> bool" where
  "Exists_ActionMethod d ex = (case d_op d of DELETE_DESERIALIZED_OBJECT \<Rightarrow> False | DELETE_OBJECT \<Rightarrow> False | _ \<Rightarrow> ex)"

definition Deleted_ActionMethod :: "delta \<Rightarrow> bool \<Rightarrow> bool" where
  "Deleted_ActionMethod d deleted = (case d_op d of RECREATE_OBJECT \<Rightarrow> False | _ \<Rightarrow> deleted)"

definition HasLabel_ActionMethod :: "label_id \<Rightarrow> delta \<Rightarrow> bool \<Rightarrow> storage_error + bool" where
  "HasLabel_ActionMethod label d has_label = (case d_op d of
     REMOVE_LABEL l \<Rightarrow> if l = label then if has_label then Inr False else Inl Assertion_failed else Inr has_label
   | ADD_LABEL l \<Rightarrow> if l = label then if \<not> has_label then Inr True else Inl Assertion_failed else Inr has_label
   | _ \<Rightarrow> Inr has_label)"

definition Labels_ActionMethod :: "delta \<Rightarrow> label_id list \<Rightarrow> storage_error + label_id list" where
  "Labels_ActionMethod d labels = (case d_op d of
     REMOVE_LABEL l \<Rightarrow> (case swap_remove l labels of None \<Rightarrow> Inl Assertion_failed | Some ls \<Rightarrow> Inr ls)
   | ADD_LABEL l \<Rightarrow> if l \<in> set labels then Inl Assertion_failed else Inr (labels @ [l])
   | _ \<Rightarrow> Inr labels)"

definition PropertyValue_ActionMethod :: "property_id \<Rightarrow> delta \<Rightarrow> pv \<Rightarrow> storage_error + pv" where
  "PropertyValue_ActionMethod property d v = (case d_op d of
     SET_PROPERTY key w _ \<Rightarrow> Inr (if key = property then w else v)
   | _ \<Rightarrow> Inr v)"

definition Properties_ActionMethod :: "delta \<Rightarrow> property_map \<Rightarrow> storage_error + property_map" where
  "Properties_ActionMethod d properties = (case d_op d of
     SET_PROPERTY key w _ \<Rightarrow>
       (if map_of properties key \<noteq> None
        then if w = PV_Null then Inr (map_erase key properties) else Inr (map_assign key w properties)
        else if w \<noteq> PV_Null then Inr (map_emplace key w properties) else Inr properties)
   | _ \<Rightarrow> Inr properties)"

text \<open>The link of an edge delta in the given direction: whether it is added back or removed, and the entry.\<close>

definition edge_link :: "EdgeDirection \<Rightarrow> delta_op \<Rightarrow> (bool \<times> edge_entry) option" where
  "edge_link dir op = (case op of
     ADD_IN_EDGE t v e _ \<Rightarrow> if dir = IN_DIR then Some (True, (t, v, e)) else None
   | REMOVE_IN_EDGE t v e _ \<Rightarrow> if dir = IN_DIR then Some (False, (t, v, e)) else None
   | ADD_OUT_EDGE t v e _ \<Rightarrow> if dir = OUT_DIR then Some (True, (t, v, e)) else None
   | REMOVE_OUT_EDGE t v e _ \<Rightarrow> if dir = OUT_DIR then Some (False, (t, v, e)) else None
   | _ \<Rightarrow> None)"

definition edge_predicate :: "edge_type_id list \<Rightarrow> gid option \<Rightarrow> edge_entry \<Rightarrow> bool" where
  "edge_predicate edge_types destination entry = (case entry of (t, v, e) \<Rightarrow>
     (case destination of None \<Rightarrow> True | Some w \<Rightarrow> v = w) \<and> (edge_types = [] \<or> t \<in> set edge_types))"

definition Edges_ActionMethod :: "EdgeDirection \<Rightarrow> edge_type_id list \<Rightarrow> gid option \<Rightarrow> delta \<Rightarrow> edge_entry list
    \<Rightarrow> storage_error + edge_entry list" where
  "Edges_ActionMethod dir edge_types destination d edges =
    (case edge_link dir (d_op d) of
       None \<Rightarrow> Inr edges
     | Some (add, link) \<Rightarrow>
         if \<not> edge_predicate edge_types destination link then Inr edges
         else if add then if link \<in> set edges then Inr edges else Inr (edges @ [link])
         else (case swap_remove link edges of None \<Rightarrow> Inl Assertion_failed | Some es \<Rightarrow> Inr es))"

definition Degree_ActionMethod :: "EdgeDirection \<Rightarrow> delta \<Rightarrow> 64 word \<Rightarrow> storage_error + 64 word" where
  "Degree_ActionMethod dir d degree =
    (case edge_link dir (d_op d) of None \<Rightarrow> Inr degree | Some (add, _) \<Rightarrow> Inr (if add then degree + 1 else degree - 1))"

text \<open>\<open>DeltaDispatch\<close> over the chained methods for deleted, exists and the projection.\<close>

definition chained :: "(delta \<Rightarrow> 'a \<Rightarrow> storage_error + 'a) \<Rightarrow> delta \<Rightarrow> bool \<times> bool \<times> 'a \<Rightarrow> storage_error + bool \<times> bool \<times> 'a" where
  "chained action d s = (case s of (ex, deleted, x) \<Rightarrow>
     bind_result (action d x) (\<lambda>x'. Inr (Exists_ActionMethod d ex, Deleted_ActionMethod d deleted, x')))"

definition HasError :: "View \<Rightarrow> VertexInfoCache \<Rightarrow> gid \<Rightarrow> bool \<Rightarrow> storage_error option" where
  "HasError view cache vertex for_deleted =
    (if Cache_GetExists view vertex cache = Some False then Some NONEXISTENT_OBJECT
     else if \<not> for_deleted \<and> Cache_GetDeleted view vertex cache = Some True then Some DELETED_OBJECT
     else None)"

section \<open>The accessor\<close>

record vertex_accessor =
  va_vertex :: gid
  va_for_deleted :: bool

text \<open>The part every read shares: the state copied under the lock, the cache, the walk over the deltas, the
  update of the cache and the error checks.  The last argument says whether the final check of the deleted
  flag honours \<open>for_deleted_\<close>, which the edge reads do not.\<close>

definition finish_read :: "vertex_accessor \<Rightarrow> bool \<Rightarrow> bool \<Rightarrow> bool \<Rightarrow> 'a \<Rightarrow> storage_error + 'a" where
  "finish_read acc honours ex deleted x =
    (if \<not> ex then Inl NONEXISTENT_OBJECT
     else if \<not> (honours \<and> va_for_deleted acc) \<and> deleted then Inl DELETED_OBJECT
     else Inr x)"

definition vertex_read :: "(VertexInfoCache \<Rightarrow> 'a option) \<Rightarrow> (delta \<Rightarrow> 'a \<Rightarrow> storage_error + 'a)
    \<Rightarrow> ('a \<Rightarrow> VertexInfoCache \<Rightarrow> VertexInfoCache) \<Rightarrow> (vertex \<Rightarrow> 'a) \<Rightarrow> bool
    \<Rightarrow> vertex_accessor \<Rightarrow> View \<Rightarrow> transaction \<Rightarrow> db \<Rightarrow> (storage_error + 'a) \<times> transaction" where
  "vertex_read fetch action store proj honours acc view tx db =
    (case db_vertices db (va_vertex acc) of
       None \<Rightarrow> (Inl Dangling_pointer, tx)
     | Some v \<Rightarrow>
         if v_deltas v \<noteq> [] \<and> tx_isolation_level tx \<noteq> READ_UNCOMMITTED
         then
           (case (if UseCache tx then HasError view (tx_cache tx) (va_vertex acc) (va_for_deleted acc) else None) of
              Some e \<Rightarrow> (Inl e, tx)
            | None \<Rightarrow>
                (case (if UseCache tx then fetch (tx_cache tx) else None) of
                   Some x \<Rightarrow> (Inr x, tx)
                 | None \<Rightarrow>
                     (case ApplyDeltasForRead (db_heap db) tx (v_deltas v) view (chained action) (True, v_deleted v, proj v) of
                        Inl e \<Rightarrow> (Inl e, tx)
                      | Inr (n_processed, ex, deleted, x) \<Rightarrow>
                          (finish_read acc honours ex deleted x,
                           if UseCache tx \<and> cfg_delta_chain_cache_threshold (db_config db) \<le> n_processed
                           then tx\<lparr>tx_cache := store x (Cache_StoreDeleted view (va_vertex acc) deleted
                                  (Cache_StoreExists view (va_vertex acc) ex (tx_cache tx)))\<rparr>
                           else tx))))
         else (finish_read acc honours True (v_deleted v) (proj v), tx))"

text \<open>\<open>detail::IsVisible\<close>: both flags, through the cache when both are there.\<close>

definition IsVisible_detail :: "gid \<Rightarrow> transaction \<Rightarrow> View \<Rightarrow> db \<Rightarrow> (storage_error + bool \<times> bool) \<times> transaction" where
  "IsVisible_detail vertex tx view db =
    (case db_vertices db vertex of
       None \<Rightarrow> (Inl Dangling_pointer, tx)
     | Some v \<Rightarrow>
         if v_deltas v \<noteq> [] \<and> tx_isolation_level tx \<noteq> READ_UNCOMMITTED
         then
           (case (if UseCache tx then (Cache_GetExists view vertex (tx_cache tx), Cache_GetDeleted view vertex (tx_cache tx))
                  else (None, None)) of
              (Some ex, Some deleted) \<Rightarrow> (Inr (ex, deleted), tx)
            | _ \<Rightarrow>
                (case ApplyDeltasForRead (db_heap db) tx (v_deltas v) view
                        (\<lambda>d (ex, deleted). Inr (Exists_ActionMethod d ex, Deleted_ActionMethod d deleted)) (True, v_deleted v) of
                   Inl e \<Rightarrow> (Inl e, tx)
                 | Inr (n_processed, ex, deleted) \<Rightarrow>
                     (Inr (ex, deleted),
                      if UseCache tx \<and> cfg_delta_chain_cache_threshold (db_config db) \<le> n_processed
                      then tx\<lparr>tx_cache := Cache_StoreDeleted view vertex deleted (Cache_StoreExists view vertex ex (tx_cache tx))\<rparr>
                      else tx)))
         else (Inr (True, v_deleted v), tx))"

definition VertexAccessor_Create :: "gid \<Rightarrow> transaction \<Rightarrow> View \<Rightarrow> db \<Rightarrow> (storage_error + vertex_accessor option) \<times> transaction" where
  "VertexAccessor_Create vertex tx view db =
    (case IsVisible_detail vertex tx view db of
       (Inl e, tx') \<Rightarrow> (Inl e, tx')
     | (Inr (ex, deleted), tx') \<Rightarrow>
         (Inr (if \<not> ex \<or> deleted then None else Some \<lparr>va_vertex = vertex, va_for_deleted = False\<rparr>), tx'))"

definition VertexAccessor_IsVisible :: "vertex_accessor \<Rightarrow> View \<Rightarrow> transaction \<Rightarrow> db \<Rightarrow> (storage_error + bool) \<times> transaction" where
  "VertexAccessor_IsVisible acc view tx db =
    (case IsVisible_detail (va_vertex acc) tx view db of
       (Inl e, tx') \<Rightarrow> (Inl e, tx')
     | (Inr (ex, deleted), tx') \<Rightarrow> (Inr (ex \<and> (va_for_deleted acc \<or> \<not> deleted)), tx'))"

definition HasLabel :: "label_id \<Rightarrow> vertex_accessor \<Rightarrow> View \<Rightarrow> transaction \<Rightarrow> db \<Rightarrow> (storage_error + bool) \<times> transaction" where
  "HasLabel label acc view tx db =
    vertex_read (Cache_GetHasLabel view (va_vertex acc) label) (HasLabel_ActionMethod label)
      (Cache_StoreHasLabel view (va_vertex acc) label) (\<lambda>v. label \<in> set (v_labels v)) True acc view tx db"

definition Labels :: "vertex_accessor \<Rightarrow> View \<Rightarrow> transaction \<Rightarrow> db \<Rightarrow> (storage_error + label_id list) \<times> transaction" where
  "Labels acc view tx db =
    vertex_read (Cache_GetLabels view (va_vertex acc)) Labels_ActionMethod (Cache_StoreLabels view (va_vertex acc))
      v_labels True acc view tx db"

definition VertexAccessor_GetProperty :: "property_id \<Rightarrow> vertex_accessor \<Rightarrow> View \<Rightarrow> transaction \<Rightarrow> db
    \<Rightarrow> (storage_error + pv) \<times> transaction" where
  "VertexAccessor_GetProperty property acc view tx db =
    vertex_read (Cache_GetProperty view (va_vertex acc) property) (PropertyValue_ActionMethod property)
      (Cache_StoreProperty view (va_vertex acc) property) (\<lambda>v. GetProperty property (v_properties v)) True acc view tx db"

definition Properties :: "vertex_accessor \<Rightarrow> View \<Rightarrow> transaction \<Rightarrow> db \<Rightarrow> (storage_error + property_map) \<times> transaction" where
  "Properties acc view tx db =
    vertex_read (Cache_GetProperties view (va_vertex acc)) Properties_ActionMethod
      (Cache_StoreProperties view (va_vertex acc)) v_properties True acc view tx db"

text \<open>The subset of properties has no cache of its own; the map is built from the requested ids and then goes
  through the same action method as all properties.\<close>

definition requested_map :: "property_id list \<Rightarrow> property_map \<Rightarrow> property_map" where
  "requested_map ps s = fold (\<lambda>(p, v) m. map_emplace p v m) (zip ps (ExtractPropertyValuesMissingAsNull ps s)) []"

definition PropertiesByPropertyIds :: "property_id list \<Rightarrow> vertex_accessor \<Rightarrow> View \<Rightarrow> transaction \<Rightarrow> db
    \<Rightarrow> (storage_error + property_map) \<times> transaction" where
  "PropertiesByPropertyIds properties acc view tx db =
    vertex_read (\<lambda>_. None) Properties_ActionMethod (\<lambda>_ c. c) (\<lambda>v. requested_map properties (v_properties v)) True
      acc view tx db"

definition edges_of :: "EdgeDirection \<Rightarrow> vertex \<Rightarrow> edge_entry list" where
  "edges_of dir v = (if dir = IN_DIR then v_in_edges v else v_out_edges v)"

text \<open>A degree is a \<open>size_t\<close>.\<close>

definition InDegree :: "vertex_accessor \<Rightarrow> View \<Rightarrow> transaction \<Rightarrow> db \<Rightarrow> (storage_error + 64 word) \<times> transaction" where
  "InDegree acc view tx db =
    vertex_read (Cache_GetInDegree view (va_vertex acc)) (Degree_ActionMethod IN_DIR)
      (Cache_StoreInDegree view (va_vertex acc)) (\<lambda>v. word_of_nat (length (v_in_edges v))) True acc view tx db"

definition OutDegree :: "vertex_accessor \<Rightarrow> View \<Rightarrow> transaction \<Rightarrow> db \<Rightarrow> (storage_error + 64 word) \<times> transaction" where
  "OutDegree acc view tx db =
    vertex_read (Cache_GetOutDegree view (va_vertex acc)) (Degree_ActionMethod OUT_DIR)
      (Cache_StoreOutDegree view (va_vertex acc)) (\<lambda>v. word_of_nat (length (v_out_edges v))) True acc view tx db"

section \<open>Expansion\<close>

text \<open>A hops limit used by one thread is a counter of the hops left.\<close>

record hops_limit =
  hl_left :: "nat option"
  hl_reached :: bool

definition IncrementHopsCount :: "nat \<Rightarrow> hops_limit \<Rightarrow> nat \<times> hops_limit" where
  "IncrementHopsCount increment hl =
    (case hl_left hl of
       None \<Rightarrow> (increment, hl)
     | Some left \<Rightarrow>
         if hl_reached hl then (0, hl)
         else
           let consumed = min increment left
           in (consumed, if consumed < increment then hl\<lparr>hl_left := Some 0, hl_reached := True\<rparr>
                         else hl\<lparr>hl_left := Some (left - consumed)\<rparr>))"

text \<open>The edges copied and the number of edges expanded; no limit is \<^term>\<open>None\<close>.\<close>

definition HandleExpansionsWithoutEdgeTypes :: "edge_entry list \<Rightarrow> hops_limit option \<Rightarrow> edge_entry list \<times> nat \<times> hops_limit option" where
  "HandleExpansionsWithoutEdgeTypes edges hops =
    (if edges = [] then ([], 0, hops)
     else case hops of
       Some hl \<Rightarrow>
         if hl_left hl \<noteq> None
         then let (n, hl') = IncrementHopsCount (length edges) hl in (take n edges, n, Some hl')
         else (edges, length edges, hops)
     | None \<Rightarrow> (edges, length edges, hops))"

fun expand_edges :: "edge_type_id list \<Rightarrow> gid option \<Rightarrow> edge_entry list \<Rightarrow> hops_limit option \<Rightarrow> edge_entry list \<Rightarrow> nat
    \<Rightarrow> edge_entry list \<times> nat \<times> hops_limit option" where
  "expand_edges edge_types destination [] hops acc n = (acc, n, hops)"
| "expand_edges edge_types destination (entry # edges) hops acc n =
    (let (stop, hops') =
       (case hops of
          Some hl \<Rightarrow> if hl_left hl \<noteq> None then let (k, hl') = IncrementHopsCount 1 hl in (k = 0, Some hl') else (False, hops)
        | None \<Rightarrow> (False, hops))
     in if stop then (acc, n, hops')
        else expand_edges edge_types destination edges hops'
               (if edge_predicate edge_types destination entry then acc @ [entry] else acc) (n + 1))"

definition HandleExpansionsWithEdgeTypes :: "edge_type_id list \<Rightarrow> gid option \<Rightarrow> edge_entry list \<Rightarrow> hops_limit option
    \<Rightarrow> edge_entry list \<times> nat \<times> hops_limit option" where
  "HandleExpansionsWithEdgeTypes edge_types destination edges hops =
    (if edges = [] then ([], 0, hops) else expand_edges edge_types destination edges hops [] 0)"

definition expansion :: "edge_type_id list \<Rightarrow> gid option \<Rightarrow> edge_entry list \<Rightarrow> hops_limit option
    \<Rightarrow> edge_entry list \<times> nat \<times> hops_limit option" where
  "expansion edge_types destination edges hops =
    (if edge_types = [] \<and> destination = None then HandleExpansionsWithoutEdgeTypes edges hops
     else HandleExpansionsWithEdgeTypes edge_types destination edges hops)"

text \<open>An edge accessor.\<close>

record edge_accessor =
  ea_edge :: edge_ref
  ea_type :: edge_type_id
  ea_from :: gid
  ea_to :: gid
  ea_for_deleted :: bool

definition BuildResultOutEdges :: "gid \<Rightarrow> edge_entry list \<Rightarrow> edge_accessor list" where
  "BuildResultOutEdges vertex = map (\<lambda>(t, to_vertex, e). \<lparr>ea_edge = e, ea_type = t, ea_from = vertex, ea_to = to_vertex, ea_for_deleted = False\<rparr>)"

definition BuildResultInEdges :: "gid \<Rightarrow> edge_entry list \<Rightarrow> edge_accessor list" where
  "BuildResultInEdges vertex = map (\<lambda>(t, from_vertex, e). \<lparr>ea_edge = e, ea_type = t, ea_from = from_vertex, ea_to = vertex, ea_for_deleted = False\<rparr>)"

text \<open>The edges a vertex has in one direction, before the accessors are built; the expanded count and the
  limit are those of the first phase.\<close>

definition read_edges :: "EdgeDirection \<Rightarrow> edge_type_id list \<Rightarrow> gid option \<Rightarrow> hops_limit option \<Rightarrow> vertex_accessor \<Rightarrow> View
    \<Rightarrow> transaction \<Rightarrow> db \<Rightarrow> (storage_error + edge_entry list) \<times> transaction" where
  "read_edges dir edge_types destination hops acc view tx db =
    vertex_read
      (if dir = IN_DIR then Cache_GetInEdges view (va_vertex acc) destination edge_types
       else Cache_GetOutEdges view (va_vertex acc) destination edge_types)
      (Edges_ActionMethod dir edge_types destination)
      (if dir = IN_DIR then Cache_StoreInEdges view (va_vertex acc) destination edge_types
       else Cache_StoreOutEdges view (va_vertex acc) destination edge_types)
      (\<lambda>v. fst (expansion edge_types destination (edges_of dir v) hops)) False acc view tx db"

definition expanded_count :: "EdgeDirection \<Rightarrow> edge_type_id list \<Rightarrow> gid option \<Rightarrow> hops_limit option \<Rightarrow> gid \<Rightarrow> db
    \<Rightarrow> nat \<times> hops_limit option" where
  "expanded_count dir edge_types destination hops vertex db =
    (case db_vertices db vertex of None \<Rightarrow> (0, hops)
     | Some v \<Rightarrow> snd (expansion edge_types destination (edges_of dir v) hops))"

definition InEdges :: "edge_type_id list \<Rightarrow> gid option \<Rightarrow> hops_limit option \<Rightarrow> vertex_accessor \<Rightarrow> View \<Rightarrow> transaction \<Rightarrow> db
    \<Rightarrow> (storage_error + edge_accessor list \<times> nat) \<times> transaction \<times> hops_limit option" where
  "InEdges edge_types destination hops acc view tx db =
    (let (n, hops') = expanded_count IN_DIR edge_types destination hops (va_vertex acc) db;
         (r, tx') = read_edges IN_DIR edge_types destination hops acc view tx db
     in (bind_result r (\<lambda>es. Inr (BuildResultInEdges (va_vertex acc) es, n)), tx', hops'))"

definition OutEdges :: "edge_type_id list \<Rightarrow> gid option \<Rightarrow> hops_limit option \<Rightarrow> vertex_accessor \<Rightarrow> View \<Rightarrow> transaction \<Rightarrow> db
    \<Rightarrow> (storage_error + edge_accessor list \<times> nat) \<times> transaction \<times> hops_limit option" where
  "OutEdges edge_types destination hops acc view tx db =
    (let (n, hops') = expanded_count OUT_DIR edge_types destination hops (va_vertex acc) db;
         (r, tx') = read_edges OUT_DIR edge_types destination hops acc view tx db
     in (bind_result r (\<lambda>es. Inr (BuildResultOutEdges (va_vertex acc) es, n)), tx', hops'))"

section \<open>The contract of a read\<close>

definition read_result :: "bool \<Rightarrow> aversion \<Rightarrow> 'a \<Rightarrow> storage_error + 'a" where
  "read_result for_deleted b x =
    (if \<not> a_exists b then Inl NONEXISTENT_OBJECT
     else if \<not> for_deleted \<and> a_deleted b then Inl DELETED_OBJECT else Inr x)"

locale projection =
  fixes proj :: "vertex \<Rightarrow> 'a"
    and action :: "delta \<Rightarrow> 'a \<Rightarrow> storage_error + 'a"
    and rel :: "aversion \<Rightarrow> 'a \<Rightarrow> bool"
  assumes proj_rel: "vertex_wf v \<Longrightarrow> rel (abs_vertex v) (proj v)"
    and action_rel: "\<lbrakk>rel a x; undoable (d_op d) a\<rbrakk> \<Longrightarrow> \<exists>x'. action d x = Inr x' \<and> rel (aundo (d_op d) a) x'"
begin

lemma apply_chained:
  assumes "rel a x" and "undoable_all ds a"
  shows "\<exists>x'. apply_all (chained action) ds (a_exists a, a_deleted a, x) =
      Inr (a_exists (undo_all ds a), a_deleted (undo_all ds a), x') \<and> rel (undo_all ds a) x'"
  using assms
proof (induction ds arbitrary: a x)
  case (Cons d ds)
  from Cons.prems obtain x' where x': "action d x = Inr x'" "rel (aundo (d_op d) a) x'"
    using action_rel[of a x d] by auto
  have "Exists_ActionMethod d (a_exists a) = a_exists (aundo (d_op d) a)"
    and "Deleted_ActionMethod d (a_deleted a) = a_deleted (aundo (d_op d) a)"
    by (auto simp: Exists_ActionMethod_def Deleted_ActionMethod_def aundo_def split: delta_op.splits)
  then show ?case
    using Cons.IH[OF x'(2)] Cons.prems(2) x'(1) by (simp add: chained_def)
qed simp

lemma read:
  assumes v: "db_vertices db (va_vertex acc) = Some v"
    and wf: "vertex_wf v"
    and undo: "undoable_all (deltas_for (db_heap db) tx view (v_deltas v)) (abs_vertex v)"
    and b: "b = version_of (db_heap db) tx view v"
    and ex: "\<And>e. Cache_GetExists view (va_vertex acc) (tx_cache tx) = Some e \<Longrightarrow> e = a_exists b"
    and del: "\<And>e. Cache_GetDeleted view (va_vertex acc) (tx_cache tx) = Some e \<Longrightarrow> e = a_deleted b"
    and both: "Cache_GetExists view (va_vertex acc) (tx_cache tx) = None \<longleftrightarrow> Cache_GetDeleted view (va_vertex acc) (tx_cache tx) = None"
    and fetched: "\<And>x. fetch (tx_cache tx) = Some x \<Longrightarrow> rel b x \<and> Cache_GetExists view (va_vertex acc) (tx_cache tx) \<noteq> None"
    and hon: "honours \<or> \<not> va_for_deleted acc"
  shows "\<exists>x tx'. rel b x \<and>
    vertex_read fetch action store proj honours acc view tx db = (read_result (va_for_deleted acc) b x, tx') \<and>
    (tx' = tx \<or> tx' = tx\<lparr>tx_cache := store x (Cache_StoreDeleted view (va_vertex acc) (a_deleted b)
        (Cache_StoreExists view (va_vertex acc) (a_exists b) (tx_cache tx)))\<rparr>)" (is "\<exists>x tx'. ?goal x tx'")
proof (cases "v_deltas v \<noteq> [] \<and> tx_isolation_level tx \<noteq> READ_UNCOMMITTED")
  case False
  then have "b = abs_vertex v"
    by (auto simp: b version_of_def deltas_for_def)
  then have "?goal (proj v) tx"
    using False proj_rel[OF wf] v hon
    by (auto simp: vertex_read_def finish_read_def abs_vertex_def read_result_def)
  then show ?thesis
    by blast
next
  case True
  obtain x where x: "apply_all (chained action) (deltas_for (db_heap db) tx view (v_deltas v)) (True, v_deleted v, proj v) =
      Inr (a_exists b, a_deleted b, x)" "rel b x"
    using apply_chained[OF proj_rel[OF wf] undo] by (auto simp: b version_of_def abs_vertex_def)
  let ?err = "HasError view (tx_cache tx) (va_vertex acc) (va_for_deleted acc)"
  consider (error) e where "UseCache tx" "?err = Some e"
    | (hit) y where "UseCache tx" "?err = None" "fetch (tx_cache tx) = Some y"
    | (walk) "UseCache tx \<Longrightarrow> ?err = None" "UseCache tx \<Longrightarrow> fetch (tx_cache tx) = None"
    by (cases "UseCache tx"; cases ?err; cases "fetch (tx_cache tx)") auto
  then show ?thesis
  proof cases
    case error
    then obtain e1 e2 where "Cache_GetExists view (va_vertex acc) (tx_cache tx) = Some e1"
        "Cache_GetDeleted view (va_vertex acc) (tx_cache tx) = Some e2"
      using both by (auto simp: HasError_def split: if_splits)
    then have "?goal x tx"
      using error x(2) v True ex del by (auto simp: vertex_read_def HasError_def read_result_def split: if_splits)
    then show ?thesis
      by blast
  next
    case hit
    then obtain e1 e2 where "Cache_GetExists view (va_vertex acc) (tx_cache tx) = Some e1"
        "Cache_GetDeleted view (va_vertex acc) (tx_cache tx) = Some e2"
      using fetched both by blast
    then have "?goal y tx"
      using fetched[OF hit(3)] hit v True ex del
      by (auto simp: vertex_read_def HasError_def read_result_def split: if_splits)
    then show ?thesis
      by blast
  next
    case walk
    have "vertex_read fetch action store proj honours acc view tx db =
      (finish_read acc honours (a_exists b) (a_deleted b) x,
       if UseCache tx \<and> cfg_delta_chain_cache_threshold (db_config db) \<le> length (deltas_for (db_heap db) tx view (v_deltas v))
       then tx\<lparr>tx_cache := store x (Cache_StoreDeleted view (va_vertex acc) (a_deleted b)
            (Cache_StoreExists view (va_vertex acc) (a_exists b) (tx_cache tx)))\<rparr>
       else tx)"
      using walk v True by (auto simp: vertex_read_def ApplyDeltasForRead_deltas_for x(1))
    then show ?thesis
      using x(2) hon by (auto simp: finish_read_def read_result_def intro!: exI[of _ x])
  qed
qed

end

section \<open>The reads as projections\<close>

definition a_edges :: "EdgeDirection \<Rightarrow> aversion \<Rightarrow> edge_entry set" where
  "a_edges dir a = (if dir = IN_DIR then a_in a else a_out a)"

definition has_label_rel :: "label_id \<Rightarrow> aversion \<Rightarrow> bool \<Rightarrow> bool" where
  "has_label_rel l a x \<longleftrightarrow> x = (l \<in> a_labels a)"

definition labels_rel :: "aversion \<Rightarrow> label_id list \<Rightarrow> bool" where
  "labels_rel a ls \<longleftrightarrow> distinct ls \<and> set ls = a_labels a"

definition property_rel :: "property_id \<Rightarrow> aversion \<Rightarrow> pv \<Rightarrow> bool" where
  "property_rel p a v \<longleftrightarrow> v = a_props a p"

definition properties_rel :: "aversion \<Rightarrow> property_map \<Rightarrow> bool" where
  "properties_rel a m \<longleftrightarrow> props_ok m \<and> (\<forall>p. GetProperty p m = a_props a p)"

definition edges_rel :: "EdgeDirection \<Rightarrow> edge_type_id list \<Rightarrow> gid option \<Rightarrow> aversion \<Rightarrow> edge_entry list \<Rightarrow> bool" where
  "edges_rel dir types dst a es \<longleftrightarrow> distinct es \<and> set es = {e \<in> a_edges dir a. edge_predicate types dst e}"

definition degree_rel :: "EdgeDirection \<Rightarrow> aversion \<Rightarrow> 64 word \<Rightarrow> bool" where
  "degree_rel dir a n \<longleftrightarrow> finite (a_edges dir a) \<and> n = word_of_nat (card (a_edges dir a))"

interpretation has_label: projection "\<lambda>v. l \<in> set (v_labels v)" "HasLabel_ActionMethod l" "has_label_rel l" for l
proof unfold_locales
  fix a :: aversion and d :: delta and x
  assume "has_label_rel l a x" "undoable (d_op d) a"
  then show "\<exists>x'. HasLabel_ActionMethod l d x = Inr x' \<and> has_label_rel l (aundo (d_op d) a) x'"
    by (cases "d_op d") (auto simp: has_label_rel_def undoable_def aundo_def HasLabel_ActionMethod_def)
qed (simp add: has_label_rel_def abs_vertex_def)

interpretation labels: projection v_labels Labels_ActionMethod labels_rel
proof unfold_locales
  fix a :: aversion and d :: delta and x
  assume a: "labels_rel a x" "undoable (d_op d) a"
  show "\<exists>x'. Labels_ActionMethod d x = Inr x' \<and> labels_rel (aundo (d_op d) a) x'"
  proof (cases "d_op d")
    case (REMOVE_LABEL l)
    then obtain ls where "swap_remove l x = Some ls"
      using a swap_remove_None_iff[of l x] by (cases "swap_remove l x") (auto simp: labels_rel_def undoable_def)
    then show ?thesis
      using REMOVE_LABEL a swap_remove_distinct[of l x ls]
      by (simp add: Labels_ActionMethod_def labels_rel_def aundo_def)
  qed (use a in \<open>auto simp: labels_rel_def undoable_def aundo_def Labels_ActionMethod_def\<close>)
qed (simp add: labels_rel_def abs_vertex_def vertex_wf_def)

interpretation property: projection "\<lambda>v. GetProperty p (v_properties v)" "PropertyValue_ActionMethod p" "property_rel p" for p
proof unfold_locales
  fix a :: aversion and d :: delta and x
  assume "property_rel p a x" "undoable (d_op d) a"
  then show "\<exists>x'. PropertyValue_ActionMethod p d x = Inr x' \<and> property_rel p (aundo (d_op d) a) x'"
    by (cases "d_op d") (auto simp: property_rel_def aundo_def PropertyValue_ActionMethod_def)
qed (simp add: property_rel_def abs_vertex_def)

lemma Properties_ActionMethod_set_prop:
  assumes "ordered_map m" "d_op d = SET_PROPERTY p w o'"
  shows "Properties_ActionMethod d m = Inr (set_prop p w m)"
proof -
  have "map_erase p m = m" if "map_of m p = None"
  proof -
    have "p \<notin> fst ` set m"
      using that by (simp add: map_of_eq_None_iff)
    then show ?thesis
      by (induction m) auto
  qed
  moreover have "map_emplace p w m = map_assign p w m" if "map_of m p = None"
    using that by (auto simp: map_emplace_def map_of_eq_None_iff)
  ultimately show ?thesis
    using assms(2) by (simp add: Properties_ActionMethod_def set_prop_def SetProperty_def)
qed

interpretation properties: projection v_properties Properties_ActionMethod properties_rel
proof unfold_locales
  fix a :: aversion and d :: delta and x
  assume a: "properties_rel a x" "undoable (d_op d) a"
  show "\<exists>x'. Properties_ActionMethod d x = Inr x' \<and> properties_rel (aundo (d_op d) a) x'"
  proof (cases "d_op d")
    case (SET_PROPERTY p w o')
    then have "Properties_ActionMethod d x = Inr (set_prop p w x)"
      using a(1) by (intro Properties_ActionMethod_set_prop) (auto simp: properties_rel_def props_ok_def)
    then show ?thesis
      using a(1) SET_PROPERTY by (auto simp: properties_rel_def aundo_def ps.get_put intro: props_ok_set_prop)
  qed (use a in \<open>auto simp: properties_rel_def aundo_def Properties_ActionMethod_def\<close>)
qed (simp add: properties_rel_def abs_vertex_def vertex_wf_def)

lemma edge_link_aundo:
  "a_edges dir (aundo op a) =
    (case edge_link dir op of None \<Rightarrow> a_edges dir a
     | Some (True, e) \<Rightarrow> insert e (a_edges dir a) | Some (False, e) \<Rightarrow> a_edges dir a - {e})"
  by (cases op; cases dir) (auto simp: edge_link_def aundo_def a_edges_def)

lemma edge_link_undoable:
  "undoable op a \<Longrightarrow> edge_link dir op = Some (add, e) \<Longrightarrow> (e \<notin> a_edges dir a) = add"
  by (cases op; cases dir) (auto simp: edge_link_def undoable_def a_edges_def)

lemma fst_expand_edges_no_limit:
  "fst (expand_edges types dst es None acc n) = acc @ filter (edge_predicate types dst) es"
  by (induction es arbitrary: acc n) auto

lemma fst_expansion_no_limit: "fst (expansion types dst es None) = filter (edge_predicate types dst) es"
proof -
  have "filter (edge_predicate [] None) es = es"
    by (rule filter_True) (auto simp: edge_predicate_def)
  then show ?thesis
    by (auto simp: expansion_def HandleExpansionsWithoutEdgeTypes_def HandleExpansionsWithEdgeTypes_def
          fst_expand_edges_no_limit)
qed

interpretation edges: projection "\<lambda>v. fst (expansion types dst (edges_of dir v) None)" "Edges_ActionMethod dir types dst"
  "edges_rel dir types dst" for dir types dst
proof unfold_locales
  fix a :: aversion and d :: delta and x
  assume a: "edges_rel dir types dst a x" "undoable (d_op d) a"
  show "\<exists>x'. Edges_ActionMethod dir types dst d x = Inr x' \<and> edges_rel dir types dst (aundo (d_op d) a) x'"
  proof (cases "edge_link dir (d_op d)")
    case None
    then show ?thesis
      using a by (auto simp: Edges_ActionMethod_def edges_rel_def edge_link_aundo)
  next
    case (Some al)
    obtain add e where al: "al = (add, e)"
      by (cases al)
    note known = edge_link_undoable[OF a(2) Some[unfolded al]]
    show ?thesis
    proof (cases "edge_predicate types dst e \<and> \<not> add")
      case True
      then have "e \<in> set x"
        using known a(1) by (auto simp: edges_rel_def)
      then obtain es where es: "swap_remove e x = Some es"
        using swap_remove_None_iff[of e x] by (cases "swap_remove e x") auto
      then show ?thesis
        using True Some al a(1) swap_remove_distinct[OF es]
        by (auto simp: Edges_ActionMethod_def edges_rel_def edge_link_aundo)
    next
      case False
      then show ?thesis
        using known Some al a(1)
        by (auto simp: Edges_ActionMethod_def edges_rel_def edge_link_aundo split: bool.splits)
    qed
  qed
qed (auto simp: edges_rel_def abs_vertex_def vertex_wf_def edges_of_def a_edges_def fst_expansion_no_limit)

interpretation degree: projection "\<lambda>v. word_of_nat (length (edges_of dir v))" "Degree_ActionMethod dir" "degree_rel dir" for dir
proof unfold_locales
  fix a :: aversion and d :: delta and x
  assume a: "degree_rel dir a x" "undoable (d_op d) a"
  show "\<exists>x'. Degree_ActionMethod dir d x = Inr x' \<and> degree_rel dir (aundo (d_op d) a) x'"
  proof (cases "edge_link dir (d_op d)")
    case (Some al)
    obtain add e where al: "al = (add, e)"
      by (cases al)
    have "finite (a_edges dir a)" "0 < card (a_edges dir a)" if "e \<in> a_edges dir a"
      using a(1) that card_gt_0_iff by (auto simp: degree_rel_def)
    then show ?thesis
      using Some al a(1) edge_link_undoable[OF a(2) Some[unfolded al]]
      by (cases add) (auto simp: Degree_ActionMethod_def degree_rel_def edge_link_aundo card_Diff_singleton of_nat_diff)
  qed (use a in \<open>auto simp: Degree_ActionMethod_def degree_rel_def edge_link_aundo\<close>)
qed (auto simp: degree_rel_def abs_vertex_def vertex_wf_def edges_of_def a_edges_def distinct_card)

end
