(* ===== verification/CacheCoherence.thy ===== *)
theory CacheCoherence
  imports VertexReads
begin

text \<open>
  The reads of a vertex accessor against the version of the vertex that the transaction sees
  (src/storage/v2/vertex_accessor.cpp with vertex_info_cache.cpp).  A cache is coherent when every entry of
  it agrees with the snapshot; every read returns the projection of the snapshot, or the error
  of an object that does not exist or is deleted, and leaves a coherent cache; the invalidations
  of a write restore coherence with the snapshot after the write.
\<close>

section \<open>Coherence\<close>

definition entry_ok :: "bool \<Rightarrow> ('a \<Rightarrow> bool) \<Rightarrow> 'a option \<Rightarrow> bool" where
  "entry_ok known R e \<longleftrightarrow> (case e of None \<Rightarrow> True | Some x \<Rightarrow> known \<and> R x)"

lemma entry_ok_simps [simp]: "entry_ok known R None" "entry_ok known R (Some x) \<longleftrightarrow> known \<and> R x"
  by (simp_all add: entry_ok_def)

lemma entry_ok_False [simp]: "entry_ok False R e \<longleftrightarrow> e = None"
  by (cases e) auto

lemma entry_ok_if: "entry_ok known R (if P then Some x else e) \<longleftrightarrow> (if P then known \<and> R x else entry_ok known R e)"
  by simp

lemma entry_ok_known: "entry_ok known R e \<Longrightarrow> (known \<Longrightarrow> known') \<Longrightarrow> entry_ok known' R e"
  by (cases e) auto

definition entries_ok :: "aversion \<Rightarrow> View \<Rightarrow> gid \<Rightarrow> VertexInfoCache \<Rightarrow> bool" where
  "entries_ok b view g c \<longleftrightarrow> (let known = Cache_GetExists view g c \<noteq> None \<and> Cache_GetDeleted view g c \<noteq> None in
     entry_ok known (\<lambda>x. x = a_exists b) (Cache_GetExists view g c) \<and>
     entry_ok known (\<lambda>x. x = a_deleted b) (Cache_GetDeleted view g c) \<and>
     entry_ok known (labels_rel b) (Cache_GetLabels view g c) \<and>
     (\<forall>l. entry_ok known (has_label_rel l b) (Cache_GetHasLabel view g l c)) \<and>
     (\<forall>p. entry_ok known (property_rel p b) (Cache_GetProperty view g p c)) \<and>
     entry_ok known (properties_rel b) (Cache_GetProperties view g c) \<and>
     (\<forall>dst types. entry_ok known (edges_rel IN_DIR types dst b) (Cache_GetInEdges view g dst types c)) \<and>
     (\<forall>dst types. entry_ok known (edges_rel OUT_DIR types dst b) (Cache_GetOutEdges view g dst types c)) \<and>
     entry_ok known (degree_rel IN_DIR b) (Cache_GetInDegree view g c) \<and>
     entry_ok known (degree_rel OUT_DIR b) (Cache_GetOutDegree view g c))"

definition coherent :: "(View \<Rightarrow> gid \<rightharpoonup> aversion) \<Rightarrow> VertexInfoCache \<Rightarrow> bool" where
  "coherent snap c \<longleftrightarrow> (\<forall>view g b. snap view g = Some b \<longrightarrow> entries_ok b view g c)"

definition snapshot :: "transaction \<Rightarrow> db \<Rightarrow> View \<Rightarrow> gid \<rightharpoonup> aversion" where
  "snapshot tx db view g = map_option (version_of (db_heap db) tx view) (db_vertices db g)"

definition cache_coherent :: "transaction \<Rightarrow> db \<Rightarrow> bool" where
  "cache_coherent tx db \<longleftrightarrow> coherent (snapshot tx db) (tx_cache tx)"

lemma deltas_for_tx_cache [simp]: "deltas_for h (tx\<lparr>tx_cache := c\<rparr>) view ds = deltas_for h tx view ds"
proof -
  have "delta_visible h (tx\<lparr>tx_cache := c\<rparr>) view = delta_visible h tx view"
    by (cases "tx_commit_info tx") (simp_all add: fun_eq_iff delta_visible_def own_timestamp_def)
  then show ?thesis
    by (simp add: deltas_for_def)
qed

lemma version_of_tx_cache [simp]: "version_of h (tx\<lparr>tx_cache := c\<rparr>) view v = version_of h tx view v"
  by (simp add: version_of_def)

lemma snapshot_tx_cache [simp]: "snapshot (tx\<lparr>tx_cache := c\<rparr>) db = snapshot tx db"
proof (intro ext)
  fix view g
  show "snapshot (tx\<lparr>tx_cache := c\<rparr>) db view g = snapshot tx db view g"
    by (cases "db_vertices db g") (simp_all add: snapshot_def)
qed

lemma coherent_empty: "coherent snap empty_cache"
  by (simp add: coherent_def entries_ok_def cache_get_defs FetchHelper_def caches_of_def empty_cache_def Let_def)

text \<open>A store of the two flags and of one entry that agrees with the snapshot.\<close>

lemma edges_rel_key: "EdgeKey g dst types = EdgeKey g' dst' types' \<Longrightarrow> edges_rel dir types dst = edges_rel dir types' dst'"
proof -
  assume "EdgeKey g dst types = EdgeKey g' dst' types'"
  then have dst: "dst = dst'" and "sort types = sort types'"
    by (simp_all add: EdgeKey_def)
  then have "set types = set types'"
    by (metis set_sort)
  then have "edge_predicate types dst = edge_predicate types' dst'"
    using dst by (auto simp: fun_eq_iff edge_predicate_def)
  then show ?thesis
    by (intro ext) (simp add: edges_rel_def)
qed

lemmas cache_store_simps = cache_store_defs cache_fetch_store FetchHelper_Store_other

definition store_flags :: "View \<Rightarrow> gid \<Rightarrow> aversion \<Rightarrow> VertexInfoCache \<Rightarrow> VertexInfoCache" where
  "store_flags view g b c = Cache_StoreDeleted view g (a_deleted b) (Cache_StoreExists view g (a_exists b) c)"

lemma entries_ok_store_flags:
  assumes "entries_ok b' view' g' c" and "view' = view \<and> g' = g \<longrightarrow> b' = b"
  shows "entries_ok b' view' g' (store_flags view g b c)"
  using assms unfolding entries_ok_def store_flags_def cache_get_defs Let_def
  by (auto simp: cache_store_simps elim!: entry_ok_known)

lemma coherent_store_flags:
  "coherent snap c \<Longrightarrow> snap view g = Some b \<Longrightarrow> coherent snap (store_flags view g b c)"
  unfolding coherent_def by (auto intro: entries_ok_store_flags)

lemma store_flags_known:
  "Cache_GetExists view g (store_flags view g b c) \<noteq> None" "Cache_GetDeleted view g (store_flags view g b c) \<noteq> None"
  by (auto simp: store_flags_def cache_get_defs cache_store_simps)

lemma coherent_entry:
  assumes "coherent snap c" and "snap view g = Some b"
    and "\<And>view' g' b'. entries_ok b' view' g' c \<Longrightarrow> (view' = view \<and> g' = g \<longrightarrow> b' = b) \<Longrightarrow> entries_ok b' view' g' c'"
  shows "coherent snap c'"
  unfolding coherent_def
proof (intro allI impI)
  fix view' g' b'
  assume b': "snap view' g' = Some b'"
  show "entries_ok b' view' g' c'"
    by (rule assms(3)) (use assms(1,2) b' in \<open>auto simp: coherent_def\<close>)
qed

lemma coherent_store:
  assumes "coherent snap c" and "snap view g = Some b"
    and "Cache_GetExists view g c \<noteq> None" "Cache_GetDeleted view g c \<noteq> None"
  shows coherent_store_has_label: "has_label_rel l b x1 \<Longrightarrow> coherent snap (Cache_StoreHasLabel view g l x1 c)"
    and coherent_store_labels: "labels_rel b x2 \<Longrightarrow> coherent snap (Cache_StoreLabels view g x2 c)"
    and coherent_store_property: "property_rel p b x3 \<Longrightarrow> coherent snap (Cache_StoreProperty view g p x3 c)"
    and coherent_store_properties: "properties_rel b x4 \<Longrightarrow> coherent snap (Cache_StoreProperties view g x4 c)"
    and coherent_store_in_edges: "edges_rel IN_DIR types dst b x5 \<Longrightarrow> coherent snap (Cache_StoreInEdges view g dst types x5 c)"
    and coherent_store_out_edges: "edges_rel OUT_DIR types dst b x6 \<Longrightarrow> coherent snap (Cache_StoreOutEdges view g dst types x6 c)"
    and coherent_store_in_degree: "degree_rel IN_DIR b x7 \<Longrightarrow> coherent snap (Cache_StoreInDegree view g x7 c)"
    and coherent_store_out_degree: "degree_rel OUT_DIR b x8 \<Longrightarrow> coherent snap (Cache_StoreOutDegree view g x8 c)"
proof -
  note known = assms(3,4)[unfolded cache_get_defs]
  note unfolds = entries_ok_def Let_def cache_get_defs cache_store_simps entry_ok_if
  have key: "sort types' = sort types \<Longrightarrow> edges_rel dir types dst b x \<Longrightarrow> edges_rel dir types' dst b x" for dir x types'
    using edges_rel_key[of g dst types' g dst types dir] by (simp only: EdgeKey_def)
  show "has_label_rel l b x1 \<Longrightarrow> coherent snap (Cache_StoreHasLabel view g l x1 c)"
    using known by (intro coherent_entry[OF assms(1,2)]) (simp add: unfolds del: not_None_eq)
  show "labels_rel b x2 \<Longrightarrow> coherent snap (Cache_StoreLabels view g x2 c)"
    using known by (intro coherent_entry[OF assms(1,2)]) (simp add: unfolds del: not_None_eq)
  show "property_rel p b x3 \<Longrightarrow> coherent snap (Cache_StoreProperty view g p x3 c)"
    using known by (intro coherent_entry[OF assms(1,2)]) (simp add: unfolds del: not_None_eq)
  show "properties_rel b x4 \<Longrightarrow> coherent snap (Cache_StoreProperties view g x4 c)"
    using known by (intro coherent_entry[OF assms(1,2)]) (simp add: unfolds del: not_None_eq)
  show "degree_rel IN_DIR b x7 \<Longrightarrow> coherent snap (Cache_StoreInDegree view g x7 c)"
    using known by (intro coherent_entry[OF assms(1,2)]) (simp add: unfolds del: not_None_eq)
  show "degree_rel OUT_DIR b x8 \<Longrightarrow> coherent snap (Cache_StoreOutDegree view g x8 c)"
    using known by (intro coherent_entry[OF assms(1,2)]) (simp add: unfolds del: not_None_eq)
  show "edges_rel IN_DIR types dst b x5 \<Longrightarrow> coherent snap (Cache_StoreInEdges view g dst types x5 c)"
    using known by (intro coherent_entry[OF assms(1,2)]) (simp add: unfolds EdgeKey_def del: not_None_eq; blast intro: key)
  show "edges_rel OUT_DIR types dst b x6 \<Longrightarrow> coherent snap (Cache_StoreOutEdges view g dst types x6 c)"
    using known by (intro coherent_entry[OF assms(1,2)]) (simp add: unfolds EdgeKey_def del: not_None_eq; blast intro: key)
qed

section \<open>Reads\<close>

text \<open>A vertex that is readable in a view: it is well-formed and the deltas the read undoes apply one after the other.\<close>

definition readable :: "transaction \<Rightarrow> db \<Rightarrow> View \<Rightarrow> gid \<Rightarrow> bool" where
  "readable tx db view g \<longleftrightarrow> (case db_vertices db g of None \<Rightarrow> False
     | Some v \<Rightarrow> vertex_wf v \<and> undoable_all (deltas_for (db_heap db) tx view (v_deltas v)) (abs_vertex v))"

context projection
begin

lemma cached_read:
  assumes "readable tx db view (va_vertex acc)" and coh: "cache_coherent tx db"
    and b: "snapshot tx db view (va_vertex acc) = Some b"
    and hon: "honours \<or> \<not> va_for_deleted acc"
    and fetched: "\<And>x. entries_ok b view (va_vertex acc) (tx_cache tx) \<Longrightarrow> fetch (tx_cache tx) = Some x \<Longrightarrow>
      rel b x \<and> Cache_GetExists view (va_vertex acc) (tx_cache tx) \<noteq> None"
    and stored: "\<And>c x. coherent (snapshot tx db) c \<Longrightarrow> Cache_GetExists view (va_vertex acc) c \<noteq> None \<Longrightarrow>
      Cache_GetDeleted view (va_vertex acc) c \<noteq> None \<Longrightarrow> rel b x \<Longrightarrow> coherent (snapshot tx db) (store x c)"
  shows "\<exists>x tx'. rel b x \<and> cache_coherent tx' db \<and>
    vertex_read fetch action store proj honours acc view tx db = (read_result (va_for_deleted acc) b x, tx')"
proof -
  obtain v where v: "db_vertices db (va_vertex acc) = Some v" "vertex_wf v"
      "undoable_all (deltas_for (db_heap db) tx view (v_deltas v)) (abs_vertex v)"
    using assms(1) by (auto simp: readable_def split: option.splits)
  have b': "b = version_of (db_heap db) tx view v"
    using b v(1) by (simp add: snapshot_def)
  have ok: "entries_ok b view (va_vertex acc) (tx_cache tx)"
    using coh b by (simp add: cache_coherent_def coherent_def)
  then have flags: "entry_ok (Cache_GetExists view (va_vertex acc) (tx_cache tx) \<noteq> None \<and> Cache_GetDeleted view (va_vertex acc) (tx_cache tx) \<noteq> None)
      (\<lambda>x. x = a_exists b) (Cache_GetExists view (va_vertex acc) (tx_cache tx))"
    "entry_ok (Cache_GetExists view (va_vertex acc) (tx_cache tx) \<noteq> None \<and> Cache_GetDeleted view (va_vertex acc) (tx_cache tx) \<noteq> None)
      (\<lambda>x. x = a_deleted b) (Cache_GetDeleted view (va_vertex acc) (tx_cache tx))"
    by (auto simp: entries_ok_def Let_def)
  from read[OF v b', where fetch = fetch and store = store and honours = honours]
  obtain x tx' where x: "rel b x"
      "vertex_read fetch action store proj honours acc view tx db = (read_result (va_for_deleted acc) b x, tx')"
      "tx' = tx \<or> tx' = tx\<lparr>tx_cache := store x (store_flags view (va_vertex acc) b (tx_cache tx))\<rparr>"
    using flags fetched[OF ok] hon by (fastforce simp: store_flags_def)
  have "coherent (snapshot tx db) (store x (store_flags view (va_vertex acc) b (tx_cache tx)))"
    using coh b by (intro stored coherent_store_flags store_flags_known x(1)) (auto simp: cache_coherent_def)
  then have "cache_coherent tx' db"
    using x(3) coh by (auto simp: cache_coherent_def)
  then show ?thesis
    using x by blast
qed

end

lemma entries_ok_fetch:
  assumes "entries_ok b view g c"
  shows "Cache_GetLabels view g c = Some x1 \<Longrightarrow> labels_rel b x1 \<and> Cache_GetExists view g c \<noteq> None"
    and "Cache_GetHasLabel view g l c = Some x2 \<Longrightarrow> has_label_rel l b x2 \<and> Cache_GetExists view g c \<noteq> None"
    and "Cache_GetProperty view g p c = Some x3 \<Longrightarrow> property_rel p b x3 \<and> Cache_GetExists view g c \<noteq> None"
    and "Cache_GetProperties view g c = Some x4 \<Longrightarrow> properties_rel b x4 \<and> Cache_GetExists view g c \<noteq> None"
    and "Cache_GetInEdges view g dst types c = Some x5 \<Longrightarrow> edges_rel IN_DIR types dst b x5 \<and> Cache_GetExists view g c \<noteq> None"
    and "Cache_GetOutEdges view g dst types c = Some x6 \<Longrightarrow> edges_rel OUT_DIR types dst b x6 \<and> Cache_GetExists view g c \<noteq> None"
    and "Cache_GetInDegree view g c = Some x7 \<Longrightarrow> degree_rel IN_DIR b x7 \<and> Cache_GetExists view g c \<noteq> None"
    and "Cache_GetOutDegree view g c = Some x8 \<Longrightarrow> degree_rel OUT_DIR b x8 \<and> Cache_GetExists view g c \<noteq> None"
  using assms unfolding entries_ok_def Let_def by (metis entry_ok_simps(2))+

text \<open>The premises all reads share, and what a read gives.\<close>

definition read_ok :: "transaction \<Rightarrow> db \<Rightarrow> View \<Rightarrow> gid \<Rightarrow> aversion \<Rightarrow> bool" where
  "read_ok tx db view g b \<longleftrightarrow> readable tx db view g \<and> cache_coherent tx db \<and> snapshot tx db view g = Some b"

definition returns :: "(storage_error + 'a) \<times> transaction \<Rightarrow> bool \<Rightarrow> aversion \<Rightarrow> ('a \<Rightarrow> bool) \<Rightarrow> db \<Rightarrow> bool" where
  "returns res for_deleted b R db \<longleftrightarrow>
    (\<exists>x tx'. R x \<and> cache_coherent tx' db \<and> res = (read_result for_deleted b x, tx'))"

lemma HasLabel_returns:
  "read_ok tx db view (va_vertex acc) b \<Longrightarrow> returns (HasLabel l acc view tx db) (va_for_deleted acc) b (has_label_rel l b) db"
  unfolding read_ok_def returns_def HasLabel_def
  by (intro has_label.cached_read) (auto intro: coherent_store_has_label dest: entries_ok_fetch)

lemma Labels_returns:
  "read_ok tx db view (va_vertex acc) b \<Longrightarrow> returns (Labels acc view tx db) (va_for_deleted acc) b (labels_rel b) db"
  unfolding read_ok_def returns_def Labels_def
  by (intro labels.cached_read) (auto intro: coherent_store_labels dest: entries_ok_fetch)

lemma GetProperty_returns:
  "read_ok tx db view (va_vertex acc) b \<Longrightarrow>
    returns (VertexAccessor_GetProperty p acc view tx db) (va_for_deleted acc) b (property_rel p b) db"
  unfolding read_ok_def returns_def VertexAccessor_GetProperty_def
  by (intro property.cached_read) (auto intro: coherent_store_property dest: entries_ok_fetch)

lemma Properties_returns:
  "read_ok tx db view (va_vertex acc) b \<Longrightarrow> returns (Properties acc view tx db) (va_for_deleted acc) b (properties_rel b) db"
  unfolding read_ok_def returns_def Properties_def
  by (intro properties.cached_read) (auto intro: coherent_store_properties dest: entries_ok_fetch)

lemma InDegree_returns:
  "read_ok tx db view (va_vertex acc) b \<Longrightarrow> returns (InDegree acc view tx db) (va_for_deleted acc) b (degree_rel IN_DIR b) db"
  unfolding read_ok_def returns_def InDegree_def
  using degree.cached_read[where dir = IN_DIR and acc = acc and view = view and tx = tx and db = db and b = b and honours = True
      and fetch = "Cache_GetInDegree view (va_vertex acc)" and store = "Cache_StoreInDegree view (va_vertex acc)"]
  by (auto simp: edges_of_def intro: coherent_store_in_degree dest: entries_ok_fetch)

lemma OutDegree_returns:
  "read_ok tx db view (va_vertex acc) b \<Longrightarrow> returns (OutDegree acc view tx db) (va_for_deleted acc) b (degree_rel OUT_DIR b) db"
  unfolding read_ok_def returns_def OutDegree_def
  using degree.cached_read[where dir = OUT_DIR and acc = acc and view = view and tx = tx and db = db and b = b and honours = True
      and fetch = "Cache_GetOutDegree view (va_vertex acc)" and store = "Cache_StoreOutDegree view (va_vertex acc)"]
  by (auto simp: edges_of_def intro: coherent_store_out_degree dest: entries_ok_fetch)

lemma read_edges_returns:
  "read_ok tx db view (va_vertex acc) b \<Longrightarrow> \<not> va_for_deleted acc \<Longrightarrow>
    returns (read_edges dir types dst None acc view tx db) False b (edges_rel dir types dst b) db"
  unfolding read_ok_def returns_def read_edges_def
  using edges.cached_read[where dir = dir and types = types and dst = dst and acc = acc and view = view and tx = tx and db = db
      and b = b and honours = False
      and fetch = "if dir = IN_DIR then Cache_GetInEdges view (va_vertex acc) dst types else Cache_GetOutEdges view (va_vertex acc) dst types"
      and store = "if dir = IN_DIR then Cache_StoreInEdges view (va_vertex acc) dst types else Cache_StoreOutEdges view (va_vertex acc) dst types"]
  by (cases dir) (auto intro: coherent_store_in_edges coherent_store_out_edges dest: entries_ok_fetch)

lemma IsVisible_detail_returns:
  assumes "read_ok tx db view g b"
  shows "\<exists>tx'. cache_coherent tx' db \<and> IsVisible_detail g tx view db = (Inr (a_exists b, a_deleted b), tx')"
proof -
  obtain v where v: "db_vertices db g = Some v" "b = version_of (db_heap db) tx view v"
    and coh: "cache_coherent tx db" and snap: "snapshot tx db view g = Some b"
    using assms by (auto simp: read_ok_def readable_def snapshot_def split: option.splits)
  have ok: "entries_ok b view g (tx_cache tx)"
    using coh snap by (simp add: cache_coherent_def coherent_def)
  have "apply_all (\<lambda>d (ex, deleted). Inr (Exists_ActionMethod d ex, Deleted_ActionMethod d deleted)) ds (a_exists a, a_deleted a) =
      (Inr (a_exists (undo_all ds a), a_deleted (undo_all ds a)) :: storage_error + bool \<times> bool)" for ds a
  proof (induction ds arbitrary: a)
    case (Cons d ds)
    have "Exists_ActionMethod d (a_exists a) = a_exists (aundo (d_op d) a)"
      and "Deleted_ActionMethod d (a_deleted a) = a_deleted (aundo (d_op d) a)"
      by (auto simp: Exists_ActionMethod_def Deleted_ActionMethod_def aundo_def split: delta_op.splits)
    then show ?case
      using Cons.IH[of "aundo (d_op d) a"] by simp
  qed simp
  from this[of "deltas_for (db_heap db) tx view (v_deltas v)" "abs_vertex v"]
  have walk: "ApplyDeltasForRead (db_heap db) tx (v_deltas v) view
      (\<lambda>d (ex, deleted). Inr (Exists_ActionMethod d ex, Deleted_ActionMethod d deleted)) (True, v_deleted v) =
      (Inr (length (deltas_for (db_heap db) tx view (v_deltas v)), a_exists b, a_deleted b) :: storage_error + nat \<times> bool \<times> bool)"
    by (simp add: ApplyDeltasForRead_deltas_for v(2) version_of_def abs_vertex_def)
  have stored: "cache_coherent (tx\<lparr>tx_cache := Cache_StoreDeleted view g (a_deleted b) (Cache_StoreExists view g (a_exists b) (tx_cache tx))\<rparr>) db"
    using coherent_store_flags[of "snapshot tx db", OF _ snap] coh by (simp add: cache_coherent_def store_flags_def)
  have flags: "(Cache_GetExists view g (tx_cache tx) = Some (a_exists b) \<and> Cache_GetDeleted view g (tx_cache tx) = Some (a_deleted b))
      \<or> (Cache_GetExists view g (tx_cache tx) = None \<and> Cache_GetDeleted view g (tx_cache tx) = None)"
    using ok by (cases "Cache_GetExists view g (tx_cache tx)"; cases "Cache_GetDeleted view g (tx_cache tx)")
                (simp_all add: entries_ok_def Let_def)
  show ?thesis
  proof (cases "v_deltas v \<noteq> [] \<and> tx_isolation_level tx \<noteq> READ_UNCOMMITTED")
    case False
    then show ?thesis
      using v coh by (auto simp: IsVisible_detail_def version_of_def deltas_for_def abs_vertex_def)
  next
    case True
    then show ?thesis
      using flags coh stored by (auto simp only: IsVisible_detail_def v(1) walk option.case sum.case prod.case if_True if_False simp_thms split: if_split)
  qed
qed

section \<open>Invalidation\<close>

lemma coherent_invalidate:
  assumes "coherent snap c"
    and "\<And>g' b''. g' \<noteq> g \<Longrightarrow> entries_ok b'' NEW g' c \<Longrightarrow> entries_ok b'' NEW g' c'"
    and "entries_ok b NEW g c \<Longrightarrow> entries_ok b' NEW g c'"
    and "\<And>g' b''. entries_ok b'' OLD g' c \<Longrightarrow> entries_ok b'' OLD g' c'"
    and "snap NEW g = Some b"
  shows "coherent (snap(NEW := (snap NEW)(g \<mapsto> b'))) c'"
  unfolding coherent_def
proof (intro allI impI)
  fix view g' b''
  assume a: "(snap(NEW := (snap NEW)(g \<mapsto> b'))) view g' = Some b''"
  show "entries_ok b'' view g' c'"
  proof (cases view)
    case OLD
    then show ?thesis
      using a assms(1,4) by (simp add: coherent_def)
  next
    case NEW
    then show ?thesis
      using a assms(1-3,5) by (cases "g' = g") (auto simp: coherent_def)
  qed
qed

lemmas invalidate_simps = entries_ok_def Let_def cache_get_defs FetchHelper_def caches_of_def EdgeKey_def

lemma coherent_Invalidate_label:
  assumes "coherent snap c" and "snap NEW g = Some b" and "\<And>k. k \<noteq> l \<Longrightarrow> k \<in> L \<longleftrightarrow> k \<in> a_labels b"
  shows "coherent (snap(NEW := (snap NEW)(g \<mapsto> b\<lparr>a_labels := L\<rparr>))) (Invalidate_label g l c)"
proof (rule coherent_invalidate[OF assms(1) _ _ _ assms(2)])
  have "entry_ok known (has_label_rel k (b\<lparr>a_labels := L\<rparr>)) (if k = l then None else e)
      \<longleftrightarrow> (if k = l then True else entry_ok known (has_label_rel k b) e)" for k e known
    using assms(3)[of k] by (auto simp: entry_ok_def has_label_rel_def split: option.splits)
  then show "entries_ok b NEW g c \<Longrightarrow> entries_ok (b\<lparr>a_labels := L\<rparr>) NEW g (Invalidate_label g l c)"
    by (simp add: invalidate_simps Invalidate_label_def property_rel_def[abs_def] properties_rel_def[abs_def]
        edges_rel_def[abs_def] degree_rel_def[abs_def] a_edges_def del: not_None_eq)
qed (simp_all add: invalidate_simps Invalidate_label_def del: not_None_eq)

lemma coherent_Invalidate_property:
  assumes "coherent snap c" and "snap NEW g = Some b" and "\<And>k. k \<noteq> p \<Longrightarrow> P k = a_props b k"
  shows "coherent (snap(NEW := (snap NEW)(g \<mapsto> b\<lparr>a_props := P\<rparr>))) (Invalidate_property g p c)"
proof (rule coherent_invalidate[OF assms(1) _ _ _ assms(2)])
  have "entry_ok known (property_rel k (b\<lparr>a_props := P\<rparr>)) (if k = p then None else e)
      \<longleftrightarrow> (if k = p then True else entry_ok known (property_rel k b) e)" for k e known
    using assms(3)[of k] by (auto simp: entry_ok_def property_rel_def split: option.splits)
  then show "entries_ok b NEW g c \<Longrightarrow> entries_ok (b\<lparr>a_props := P\<rparr>) NEW g (Invalidate_property g p c)"
    by (simp add: invalidate_simps Invalidate_property_def has_label_rel_def[abs_def] labels_rel_def[abs_def]
        edges_rel_def[abs_def] degree_rel_def[abs_def] a_edges_def del: not_None_eq)
qed (simp_all add: invalidate_simps Invalidate_property_def del: not_None_eq)

lemma coherent_Invalidate_in_edges:
  assumes "coherent snap c" and "snap NEW g = Some b"
  shows "coherent (snap(NEW := (snap NEW)(g \<mapsto> b\<lparr>a_in := E\<rparr>))) (Invalidate_edges g IN_DIR c)"
  by (rule coherent_invalidate[OF assms(1) _ _ _ assms(2)])
     (simp_all add: invalidate_simps Invalidate_edges_def has_label_rel_def[abs_def] labels_rel_def[abs_def] property_rel_def[abs_def]
       properties_rel_def[abs_def] edges_rel_def[abs_def] degree_rel_def[abs_def] a_edges_def del: not_None_eq)

lemma coherent_Invalidate_out_edges:
  assumes "coherent snap c" and "snap NEW g = Some b"
  shows "coherent (snap(NEW := (snap NEW)(g \<mapsto> b\<lparr>a_out := E\<rparr>))) (Invalidate_edges g OUT_DIR c)"
  by (rule coherent_invalidate[OF assms(1) _ _ _ assms(2)])
     (simp_all add: invalidate_simps Invalidate_edges_def has_label_rel_def[abs_def] labels_rel_def[abs_def] property_rel_def[abs_def]
       properties_rel_def[abs_def] edges_rel_def[abs_def] degree_rel_def[abs_def] a_edges_def del: not_None_eq)

lemma coherent_Invalidate_vertex:
  assumes "coherent snap c" and "snap NEW g = Some b"
  shows "coherent (snap(NEW := (snap NEW)(g \<mapsto> b'))) (Invalidate_vertex g c)"
  by (rule coherent_invalidate[OF assms(1) _ _ _ assms(2)])
     (simp_all add: invalidate_simps Invalidate_vertex_def del: not_None_eq)

section \<open>Properties\<close>

text \<open>The example: transaction 7 of id \<open>kTransactionInitialId + 1\<close> reads a vertex with two labels and a property, of
  which another transaction has set the property and added the label 2 without committing.\<close>

definition example_vertex :: vertex where
  "example_vertex = \<lparr>v_gid = 0, v_labels = [1, 2], v_properties = [(5, PV_Int 9)], v_in_edges = [], v_out_edges = [(3, 0, 4)],
     v_deleted = False, v_has_uncommitted_non_sequential_deltas = False,
     v_deltas = [\<lparr>d_uid = 2, d_commit_info = 100, d_command_id = 0, d_op = REMOVE_OUT_EDGE 3 0 4 SEQUENTIAL\<rparr>,
       \<lparr>d_uid = 1, d_commit_info = 100, d_command_id = 0, d_op = SET_PROPERTY 5 PV_Null None\<rparr>,
       \<lparr>d_uid = 0, d_commit_info = 100, d_command_id = 0, d_op = REMOVE_LABEL 2\<rparr>]\<rparr>"

definition example_db :: "nat \<Rightarrow> db" where
  "example_db threshold = (new_storage (example_config\<lparr>cfg_delta_chain_cache_threshold := threshold\<rparr>))
    \<lparr>db_vertices := [0 \<mapsto> example_vertex],
     db_heap := \<lparr>h_commit_infos = (\<lambda>_. \<lparr>ci_timestamp = kTransactionInitialId, ci_non_seq_propagation = PROP_NONE\<rparr>),
       h_next_delta = 3\<rparr>\<rparr>"

definition example_reader :: transaction where
  "example_reader = Transaction_new (kTransactionInitialId + 1) 7 SNAPSHOT_ISOLATION IN_MEMORY_TRANSACTIONAL False False empty_container"

definition example_version :: aversion where
  "example_version = \<lparr>a_exists = True, a_deleted = False, a_labels = {1}, a_props = (\<lambda>_. PV_Null), a_in = {}, a_out = {}\<rparr>"

lemma example_read_ok: "read_ok example_reader (example_db n) OLD 0 example_version"
proof -
  have ds: "deltas_for (db_heap (example_db n)) example_reader OLD (v_deltas example_vertex) = v_deltas example_vertex"
    by (simp add: deltas_for_def example_db_def example_vertex_def example_reader_def Transaction_new_def delta_visible_def
        own_timestamp_def ts_def kTransactionInitialId_def)
  have "readable example_reader (example_db n) OLD 0"
    unfolding readable_def
    by (simp add: example_db_def ds[unfolded example_db_def, simplified])
       (simp add: example_vertex_def vertex_wf_def props_ok_def ordered_map_def abs_vertex_def undoable_def aundo_def)
  moreover have "(\<lambda>p. if p = 5 then PV_Null else GetProperty p [(5, PV_Int 9)]) = (\<lambda>_. PV_Null)"
    by (auto simp: GetProperty_def)
  then have "snapshot example_reader (example_db n) OLD 0 = Some example_version"
    using ds by (auto simp: snapshot_def version_of_def example_db_def)
       (auto simp: example_vertex_def abs_vertex_def aundo_def example_version_def GetProperty_def fun_eq_iff)
  moreover have "cache_coherent example_reader (example_db n)"
    by (simp add: cache_coherent_def example_reader_def Transaction_new_def coherent_empty)
  ultimately show ?thesis
    by (simp add: read_ok_def)
qed



text \<open>C18: The in-edges and out-edges of a vertex, filtered by edge types and destination, are exactly those of
  the version the transaction sees, without duplicates, and the degrees are their numbers modulo 2^64;
  for an accessor that does not expose deleted vertices and a read without a hops limit.\<close>

theorem edge_reads_refine:
  assumes "read_ok tx db view (va_vertex acc) b" and "\<not> va_for_deleted acc"
  shows "returns (read_edges IN_DIR types dst None acc view tx db) False b
      (\<lambda>es. distinct es \<and> set es = {e \<in> a_in b. edge_predicate types dst e}) db \<and>
    returns (read_edges OUT_DIR types dst None acc view tx db) False b
      (\<lambda>es. distinct es \<and> set es = {e \<in> a_out b. edge_predicate types dst e}) db \<and>
    returns (InDegree acc view tx db) False b (\<lambda>n. finite (a_in b) \<and> n = word_of_nat (card (a_in b))) db \<and>
    returns (OutDegree acc view tx db) False b (\<lambda>n. finite (a_out b) \<and> n = word_of_nat (card (a_out b))) db"
  using read_edges_returns[OF assms, of IN_DIR types dst] read_edges_returns[OF assms, of OUT_DIR types dst]
    InDegree_returns[OF assms(1)] OutDegree_returns[OF assms(1)] assms(2)
  by (simp add: edges_rel_def[abs_def] degree_rel_def[abs_def] a_edges_def)

theorem edge_reads_refine_witness:
  "read_ok example_reader (example_db 2) OLD 0 example_version \<and>
   fst (OutDegree \<lparr>va_vertex = 0, va_for_deleted = False\<rparr> OLD example_reader (example_db 2)) = Inr 0"
  using edge_reads_refine[of example_reader "example_db 2" OLD "\<lparr>va_vertex = 0, va_for_deleted = False\<rparr>" example_version "[]" None]
    example_read_ok[of 2]
  by (auto simp: returns_def read_result_def example_version_def)

end
