(* ===== verification/VertexWrites.thy ===== *)
theory VertexWrites
  imports VertexReads
begin

text \<open>
  The write side of the vertex accessor (src/storage/v2/vertex_accessor.cpp).  A write takes and
  returns the transaction and the storage.  It runs under the lock of the vertex; where the code
  releases the lock to get unique access to the schema information it repeats its checks, and so
  does the model.  Exceptions are values of \<open>storage_error\<close>; the state they leave is the state
  at the point of the throw.
\<close>

section \<open>Checks\<close>

text \<open>What every write does first: the edge import mode, the write conflict, the deleted flag.\<close>

definition prepare_write :: "vertex \<Rightarrow> transaction \<Rightarrow> db \<Rightarrow> storage_error option \<times> transaction" where
  "prepare_write v tx db =
    (case PrepareForWrite (db_heap db) tx (v_deltas v) (v_has_uncommitted_non_sequential_deltas v) of
       (False, tx') \<Rightarrow> (Some SERIALIZATION_ERROR, tx')
     | (True, tx') \<Rightarrow> (if v_deleted v then Some DELETED_OBJECT else None, tx'))"

definition lock_vertex :: "vertex_accessor \<Rightarrow> transaction \<Rightarrow> db \<Rightarrow> (storage_error + vertex) \<times> transaction" where
  "lock_vertex acc tx db =
    (if tx_edge_import_mode_active tx then (Inl Ex_edge_import_mode, tx)
     else case db_vertices db (va_vertex acc) of
       None \<Rightarrow> (Inl Dangling_pointer, tx)
     | Some v \<Rightarrow> (case prepare_write v tx db of (Some e, tx') \<Rightarrow> (Inl e, tx') | (None, tx') \<Rightarrow> (Inr v, tx')))"

text \<open>The labels need unique access to the schema information when the vertex has edges.\<close>

definition lock_vertex_for_label :: "vertex_accessor \<Rightarrow> transaction \<Rightarrow> db \<Rightarrow> (storage_error + vertex) \<times> transaction" where
  "lock_vertex_for_label acc tx db =
    (case lock_vertex acc tx db of
       (Inl e, tx1) \<Rightarrow> (Inl e, tx1)
     | (Inr v, tx1) \<Rightarrow>
         if cfg_enable_schema_info (db_config db) \<and> (v_in_edges v \<noteq> [] \<or> v_out_edges v \<noteq> [])
         then (case prepare_write v tx1 db of (Some e, tx2) \<Rightarrow> (Inl e, tx2) | (None, tx2) \<Rightarrow> (Inr v, tx2))
         else (Inr v, tx1))"

text \<open>A violation of an active type constraint is thrown; nothing is checked when there are none.\<close>

definition type_violation :: "transaction \<Rightarrow> tc_result \<Rightarrow> storage_error option" where
  "type_violation tx r =
    (if tc_constraints (tx_type_constraints tx) = [] then None
     else case r of TC_valid \<Rightarrow> None | TC_violation vi \<Rightarrow> Some (Ex_type_constraint vi) | TC_assertion \<Rightarrow> Some Assertion_failed)"

definition validate_property :: "vertex \<Rightarrow> property_id \<Rightarrow> pv \<Rightarrow> transaction \<Rightarrow> db \<Rightarrow> storage_error option" where
  "validate_property v property value tx db =
    type_violation tx (Validate_property (db_type_constraints db) (tx_type_constraints tx) v property value)"

definition verification_calls :: "transaction \<Rightarrow> gid \<Rightarrow> pv \<Rightarrow> side_call list" where
  "verification_calls tx vertex value =
    (if \<not> tx_constraint_verification_info tx then []
     else if value \<noteq> PV_Null then [Verification_AddedProperty vertex] else [Verification_RemovedProperty vertex])"

definition schema_calls :: "db \<Rightarrow> side_call \<Rightarrow> side_call list" where
  "schema_calls db c = (if cfg_enable_schema_info (db_config db) then [c] else [])"

section \<open>Labels\<close>

definition AddLabel :: "label_id \<Rightarrow> vertex_accessor \<Rightarrow> transaction \<Rightarrow> db \<Rightarrow> (storage_error + bool) \<times> transaction \<times> db" where
  "AddLabel label acc tx db =
    (case lock_vertex_for_label acc tx db of
       (Inl e, tx1) \<Rightarrow> (Inl e, tx1, db)
     | (Inr v, tx1) \<Rightarrow>
         if label \<in> set (v_labels v) then (Inr False, tx1, db)
         else
           let (v1, tx2, db1) = link_vertex_delta v (REMOVE_LABEL label) tx1 db;
               v2 = v1\<lparr>v_labels := v_labels v1 @ [label]\<rparr>;
               db2 = UpdateLabelCount label 1 (put_vertex v2 db1)
           in case type_violation tx2 (Validate_label (tx_type_constraints tx2) v2 label) of
                Some e \<Rightarrow> (Inl e, tx2, db2)
              | None \<Rightarrow>
                  let db3 = calls ((if cfg_enable_schema_metadata (db_config db) then [Schema_store_label label] else [])
                          @ [Async_TrackLabel label, Unique_UpdateOnAddLabel label (v_gid v) (tx_start tx2)]
                          @ (if tx_constraint_verification_info tx2 then [Verification_AddedLabel (v_gid v)] else [])
                          @ [Index_UpdateOnAddLabel label (v_gid v)]) db2;
                      (tx3, db4) = UpdateOnChangeLabel label (v_gid v) tx2 db3
                  in (Inr True, tx3, calls (schema_calls db4 (Schema_AddLabel (v_gid v) label)) db4))"

definition RemoveLabel :: "label_id \<Rightarrow> vertex_accessor \<Rightarrow> transaction \<Rightarrow> db \<Rightarrow> (storage_error + bool) \<times> transaction \<times> db" where
  "RemoveLabel label acc tx db =
    (case lock_vertex_for_label acc tx db of
       (Inl e, tx1) \<Rightarrow> (Inl e, tx1, db)
     | (Inr v, tx1) \<Rightarrow>
         (case swap_remove label (v_labels v) of
            None \<Rightarrow> (Inr False, tx1, db)
          | Some ls \<Rightarrow>
              let (v1, tx2, db1) = link_vertex_delta v (ADD_LABEL label) tx1 db;
                  v2 = v1\<lparr>v_labels := ls\<rparr>;
                  db2 = UpdateLabelCount label (-1) (put_vertex v2 db1);
                  db3 = calls [Unique_UpdateOnRemoveLabel label (v_gid v) (tx_start tx2), Index_UpdateOnRemoveLabel label (v_gid v)] db2;
                  (tx3, db4) = UpdateOnChangeLabel label (v_gid v) tx2 db3
              in (Inr True, tx3, calls (schema_calls db4 (Schema_RemoveLabel (v_gid v) label)) db4)))"

section \<open>Properties\<close>

definition converted_value :: "db \<Rightarrow> gid \<Rightarrow> property_id \<Rightarrow> pv \<Rightarrow> pv" where
  "converted_value db vertex property value =
    (case cfg_vector_convert (db_config db) vertex property value of Some w \<Rightarrow> w | None \<Rightarrow> value)"

definition VertexAccessor_SetProperty :: "property_id \<Rightarrow> pv \<Rightarrow> vertex_accessor \<Rightarrow> transaction \<Rightarrow> db
    \<Rightarrow> (storage_error + pv) \<times> transaction \<times> db" where
  "VertexAccessor_SetProperty property value acc tx db =
    (case lock_vertex acc tx db of
       (Inl e, tx1) \<Rightarrow> (Inl e, tx1, db)
     | (Inr v, tx1) \<Rightarrow>
         let new_value = converted_value db (va_vertex acc) property value;
             old_value = GetProperty property (v_properties v);
             skip_duplicate_write = (\<not> cfg_delta_on_identical_property_update (db_config db))
         in if skip_duplicate_write \<and> cfg_value_eq (db_config db) old_value new_value
            then (Inr old_value, tx1, db)
            else
              let (v1, tx2, db1) = link_vertex_delta v (SET_PROPERTY property old_value None) tx1 db;
                  v2 = v1\<lparr>v_properties := set_prop property new_value (v_properties v1)\<rparr>;
                  db2 = put_vertex v2 db1;
                  db3 = calls (schema_calls db2 (Schema_SetProperty (v_gid v) property new_value old_value)) db2
              in case validate_property v2 property new_value tx2 db3 of
                   Some e \<Rightarrow> (Inl e, tx2, db3)
                 | None \<Rightarrow>
                     let db4 = calls (verification_calls tx2 (v_gid v) new_value
                           @ [Index_UpdateOnSetProperty property old_value new_value (v_gid v)]) db3;
                         (tx3, db5) = UpdateOnSetProperty property old_value new_value (v_gid v) tx2 db4
                     in (Inr old_value, tx3, db5))"

text \<open>The loop over the new properties in \<open>InitProperties\<close>; the store already holds them.\<close>

fun init_loop :: "(property_id \<times> pv) list \<Rightarrow> vertex \<Rightarrow> transaction \<Rightarrow> db \<Rightarrow> vertex \<times> transaction \<times> db" where
  "init_loop [] v tx db = (v, tx, db)"
| "init_loop ((property, new_value) # ps) v tx db =
    (let (v1, tx1, db1) = link_vertex_delta v (SET_PROPERTY property PV_Null None) tx db;
         db2 = call (Index_UpdateOnSetProperty property PV_Null new_value (v_gid v)) db1;
         (tx2, db3) = UpdateOnSetProperty property PV_Null new_value (v_gid v) tx1 db2;
         db4 = calls (verification_calls tx2 (v_gid v) new_value
                @ schema_calls db3 (Schema_SetProperty (v_gid v) property new_value PV_Null)) db3
     in init_loop ps v1 tx2 db4)"

fun validate_all :: "(property_id \<times> pv) list \<Rightarrow> vertex \<Rightarrow> transaction \<Rightarrow> db \<Rightarrow> storage_error option" where
  "validate_all [] v tx db = None"
| "validate_all ((property, value) # ps) v tx db =
    (case validate_property v property value tx db of Some e \<Rightarrow> Some e | None \<Rightarrow> validate_all ps v tx db)"

definition VertexAccessor_InitProperties :: "property_map \<Rightarrow> vertex_accessor \<Rightarrow> transaction \<Rightarrow> db
    \<Rightarrow> (storage_error + bool) \<times> transaction \<times> db" where
  "VertexAccessor_InitProperties properties acc tx db =
    (case lock_vertex acc tx db of
       (Inl e, tx1) \<Rightarrow> (Inl e, tx1, db)
     | (Inr v, tx1) \<Rightarrow>
         let ps = map (\<lambda>(p, w). (p, converted_value db (va_vertex acc) p w)) properties
         in (case InitProperties ps (v_properties v) of
               (False, _) \<Rightarrow> (Inr False, tx1, db)
             | (True, s) \<Rightarrow>
                 let v1 = v\<lparr>v_properties := s\<rparr>;
                     (v2, tx2, db2) = init_loop ps v1 tx1 (put_vertex v1 db)
                 in (case validate_all ps v2 tx2 db2 of
                       Some e \<Rightarrow> (Inl e, tx2, db2)
                     | None \<Rightarrow> (Inr True, tx2, db2))))"

text \<open>The loop over the changes in \<open>UpdateProperties\<close>.  It checks the type constraints after each change, and a
  violation leaves the loop.\<close>

fun update_loop :: "(property_id \<times> pv \<times> pv) list \<Rightarrow> vertex \<Rightarrow> transaction \<Rightarrow> db \<Rightarrow> storage_error option \<times> vertex \<times> transaction \<times> db" where
  "update_loop [] v tx db = (None, v, tx, db)"
| "update_loop ((property, old_value, new_value) # cs) v tx db =
    (let skip_duplicate_update = cfg_delta_on_identical_property_update (db_config db)
     in if skip_duplicate_update \<and> cfg_value_eq (db_config db) old_value new_value then update_loop cs v tx db
        else
          let (v1, tx1, db1) = link_vertex_delta v (SET_PROPERTY property old_value None) tx db;
              db2 = call (Index_UpdateOnSetProperty property old_value new_value (v_gid v)) db1;
              (tx2, db3) = UpdateOnSetProperty property old_value new_value (v_gid v) tx1 db2;
              db4 = calls (verification_calls tx2 (v_gid v) new_value
                     @ schema_calls db3 (Schema_SetProperty (v_gid v) property new_value old_value)) db3
          in (case validate_property v1 property new_value tx2 db4 of
                Some e \<Rightarrow> (Some e, v1, tx2, db4)
              | None \<Rightarrow> update_loop cs v1 tx2 db4))"

definition VertexAccessor_UpdateProperties :: "property_map \<Rightarrow> vertex_accessor \<Rightarrow> transaction \<Rightarrow> db
    \<Rightarrow> (storage_error + (property_id \<times> pv \<times> pv) list) \<times> transaction \<times> db" where
  "VertexAccessor_UpdateProperties properties acc tx db =
    (case lock_vertex acc tx db of
       (Inl e, tx1) \<Rightarrow> (Inl e, tx1, db)
     | (Inr v, tx1) \<Rightarrow>
         let ps = map (\<lambda>(p, w). (p, converted_value db (va_vertex acc) p w)) properties;
             (id_old_new_change, s) = UpdateProperties ps (v_properties v);
             v1 = v\<lparr>v_properties := s\<rparr>
         in (case update_loop id_old_new_change v1 tx1 (put_vertex v1 db) of
               (Some e, v2, tx2, db2) \<Rightarrow> (Inl e, tx2, db2)
             | (None, v2, tx2, db2) \<Rightarrow> (Inr id_old_new_change, tx2, db2)))"

fun clear_loop :: "(property_id \<times> pv) list \<Rightarrow> vertex \<Rightarrow> transaction \<Rightarrow> db \<Rightarrow> vertex \<times> transaction \<times> db" where
  "clear_loop [] v tx db = (v, tx, db)"
| "clear_loop ((property, old_value) # ps) v tx db =
    (let (v1, tx1, db1) = link_vertex_delta v (SET_PROPERTY property old_value None) tx db;
         db2 = call (Index_UpdateOnSetProperty property old_value PV_Null (v_gid v)) db1;
         (tx2, db3) = UpdateOnSetProperty property old_value PV_Null (v_gid v) tx1 db2;
         db4 = calls (schema_calls db3 (Schema_SetProperty (v_gid v) property PV_Null old_value)) db3
     in clear_loop ps v1 tx2 db4)"

definition VertexAccessor_ClearProperties :: "vertex_accessor \<Rightarrow> transaction \<Rightarrow> db
    \<Rightarrow> (storage_error + property_map) \<times> transaction \<times> db" where
  "VertexAccessor_ClearProperties acc tx db =
    (case lock_vertex acc tx db of
       (Inl e, tx1) \<Rightarrow> (Inl e, tx1, db)
     | (Inr v, tx1) \<Rightarrow>
         let properties = v_properties v;
             (v1, tx2, db1) = clear_loop properties v tx1 db;
             db2 = calls (if tx_constraint_verification_info tx2 then [Verification_RemovedProperty (v_gid v)] else []) db1;
             v2 = v1\<lparr>v_properties := snd (ClearProperties (v_properties v1))\<rparr>
         in (Inr properties, tx2, put_vertex v2 db2))"

end
