(* ===== verification/EdgeAccessors.thy ===== *)
theory EdgeAccessors
  imports VertexReads
begin

text \<open>
  Edge accessors (src/storage/v2/edge_accessor.cpp, edge_info_helpers.hpp) for the in-memory
  storage modes: visibility, reads and writes of the properties of an edge.  An edge object exists
  only when edges have properties; without them the edge lives in the vectors of its vertices and
  its visibility is read off the out-edges of its source.
\<close>

section \<open>Visibility\<close>

definition find_edge :: "edge_ref \<Rightarrow> db \<Rightarrow> storage_error + edge" where
  "find_edge e db = (case db_edges db e of None \<Rightarrow> Inl Dangling_pointer | Some edge \<Rightarrow> Inr edge)"

text \<open>The callback of \<open>IsEdgeVisible\<close> on (exists, deleted).\<close>

definition edge_visibility :: "delta \<Rightarrow> bool \<times> bool \<Rightarrow> storage_error + bool \<times> bool" where
  "edge_visibility d s = (case s of (ex, deleted) \<Rightarrow> (case d_op d of
     RECREATE_OBJECT \<Rightarrow> Inr (ex, False)
   | DELETE_DESERIALIZED_OBJECT \<Rightarrow> Inr (False, deleted)
   | DELETE_OBJECT \<Rightarrow> Inr (False, deleted)
   | _ \<Rightarrow> Inr (ex, deleted)))"

definition IsEdgeVisible :: "edge_ref \<Rightarrow> transaction \<Rightarrow> View \<Rightarrow> db \<Rightarrow> storage_error + bool" where
  "IsEdgeVisible e tx view db =
    bind_result (find_edge e db) (\<lambda>edge.
      bind_result (ApplyDeltasForRead (db_heap db) tx (e_deltas edge) view edge_visibility (True, e_deleted edge))
        (\<lambda>(n, ex, deleted). Inr (ex \<and> \<not> deleted)))"

fun EdgeWasCreated_loop :: "delta_heap \<Rightarrow> nat \<Rightarrow> delta list \<Rightarrow> bool" where
  "EdgeWasCreated_loop h current [] \<longleftrightarrow> False"
| "EdgeWasCreated_loop h current (d # ds) \<longleftrightarrow>
    (if ts h d \<noteq> current then False else if d_op d = DELETE_OBJECT then True else EdgeWasCreated_loop h current ds)"

definition EdgeWasCreatedThisTransaction :: "delta_heap \<Rightarrow> edge \<Rightarrow> nat \<Rightarrow> bool" where
  "EdgeWasCreatedThisTransaction h edge current = EdgeWasCreated_loop h current (e_deltas edge)"

definition EdgeAccessor_Create :: "edge_ref \<Rightarrow> edge_type_id \<Rightarrow> gid \<Rightarrow> gid \<Rightarrow> bool \<Rightarrow> transaction \<Rightarrow> View \<Rightarrow> db
    \<Rightarrow> storage_error + edge_accessor option" where
  "EdgeAccessor_Create e edge_type from_vertex to_vertex for_deleted tx view db =
    bind_result (IsEdgeVisible e tx view db) (\<lambda>visible.
      Inr (if \<not> visible then None
           else Some \<lparr>ea_edge = e, ea_type = edge_type, ea_from = from_vertex, ea_to = to_vertex, ea_for_deleted = for_deleted\<rparr>))"

definition EdgeAccessor_IsDeleted :: "edge_accessor \<Rightarrow> db \<Rightarrow> storage_error + bool" where
  "EdgeAccessor_IsDeleted acc db =
    (if \<not> cfg_properties_on_edges (db_config db) then Inr False
     else bind_result (find_edge (ea_edge acc) db) (\<lambda>edge. Inr (e_deleted edge)))"

definition attached_method :: "edge_ref \<Rightarrow> delta \<Rightarrow> bool \<Rightarrow> storage_error + bool" where
  "attached_method e d attached = (case d_op d of
     ADD_OUT_EDGE _ _ e' _ \<Rightarrow> Inr (if e' = e then True else attached)
   | REMOVE_OUT_EDGE _ _ e' _ \<Rightarrow> Inr (if e' = e then False else attached)
   | _ \<Rightarrow> Inr attached)"

definition check_from_vertex_integrity :: "edge_accessor \<Rightarrow> View \<Rightarrow> transaction \<Rightarrow> db \<Rightarrow> storage_error + bool" where
  "check_from_vertex_integrity acc view tx db =
    (case db_vertices db (ea_from acc) of
       None \<Rightarrow> Inl Dangling_pointer
     | Some v \<Rightarrow>
         bind_result (ApplyDeltasForRead (db_heap db) tx (v_deltas v) view (attached_method (ea_edge acc))
             (ea_edge acc \<in> (\<lambda>(t, w, e). e) ` set (v_out_edges v)))
           (\<lambda>(n, attached). Inr attached))"

text \<open>The callback of \<open>check_presence_of_edge\<close>, with one flag for both reasons.\<close>

definition presence_method :: "delta \<Rightarrow> bool \<Rightarrow> storage_error + bool" where
  "presence_method d deleted = (case d_op d of
     RECREATE_OBJECT \<Rightarrow> Inr False
   | DELETE_DESERIALIZED_OBJECT \<Rightarrow> Inr True
   | DELETE_OBJECT \<Rightarrow> Inr True
   | _ \<Rightarrow> Inr deleted)"

definition check_presence_of_edge :: "edge_accessor \<Rightarrow> View \<Rightarrow> transaction \<Rightarrow> db \<Rightarrow> storage_error + bool" where
  "check_presence_of_edge acc view tx db =
    bind_result (find_edge (ea_edge acc) db) (\<lambda>edge.
      bind_result (ApplyDeltasForRead (db_heap db) tx (e_deltas edge) view presence_method (e_deleted edge))
        (\<lambda>(n, deleted). Inr (\<not> deleted)))"

definition EdgeAccessor_IsVisible :: "edge_accessor \<Rightarrow> View \<Rightarrow> transaction \<Rightarrow> db \<Rightarrow> storage_error + bool" where
  "EdgeAccessor_IsVisible acc view tx db =
    (if ea_for_deleted acc then Inr True
     else if \<not> cfg_properties_on_edges (db_config db) then check_from_vertex_integrity acc view tx db
     else check_presence_of_edge acc view tx db)"

definition FromVertex :: "edge_accessor \<Rightarrow> vertex_accessor" where
  "FromVertex acc = \<lparr>va_vertex = ea_from acc, va_for_deleted = False\<rparr>"

definition ToVertex :: "edge_accessor \<Rightarrow> vertex_accessor" where
  "ToVertex acc = \<lparr>va_vertex = ea_to acc, va_for_deleted = False\<rparr>"

definition DeletedEdgeFromVertex :: "edge_accessor \<Rightarrow> db \<Rightarrow> vertex_accessor" where
  "DeletedEdgeFromVertex acc db = \<lparr>va_vertex = ea_from acc,
     va_for_deleted = ea_for_deleted acc \<and> (case db_vertices db (ea_from acc) of None \<Rightarrow> False | Some v \<Rightarrow> v_deleted v)\<rparr>"

definition DeletedEdgeToVertex :: "edge_accessor \<Rightarrow> db \<Rightarrow> vertex_accessor" where
  "DeletedEdgeToVertex acc db = \<lparr>va_vertex = ea_to acc,
     va_for_deleted = ea_for_deleted acc \<and> (case db_vertices db (ea_to acc) of None \<Rightarrow> False | Some v \<Rightarrow> v_deleted v)\<rparr>"

section \<open>Reads\<close>

definition edge_read :: "(delta \<Rightarrow> 'a \<Rightarrow> storage_error + 'a) \<Rightarrow> (edge \<Rightarrow> 'a) \<Rightarrow> edge_accessor \<Rightarrow> View \<Rightarrow> transaction \<Rightarrow> db
    \<Rightarrow> storage_error + 'a" where
  "edge_read action proj acc view tx db =
    bind_result (find_edge (ea_edge acc) db) (\<lambda>edge.
      bind_result (ApplyDeltasForRead (db_heap db) tx (e_deltas edge) view (chained action) (True, e_deleted edge, proj edge))
        (\<lambda>(n, ex, deleted, x).
          if \<not> ex then Inl NONEXISTENT_OBJECT
          else if \<not> ea_for_deleted acc \<and> deleted then Inl DELETED_OBJECT else Inr x))"

definition EdgeAccessor_GetProperty :: "property_id \<Rightarrow> edge_accessor \<Rightarrow> View \<Rightarrow> transaction \<Rightarrow> db \<Rightarrow> storage_error + pv" where
  "EdgeAccessor_GetProperty property acc view tx db =
    (if \<not> cfg_properties_on_edges (db_config db) then Inr PV_Null
     else edge_read (PropertyValue_ActionMethod property) (\<lambda>e. GetProperty property (e_properties e)) acc view tx db)"

definition EdgeAccessor_Properties :: "edge_accessor \<Rightarrow> View \<Rightarrow> transaction \<Rightarrow> db \<Rightarrow> storage_error + property_map" where
  "EdgeAccessor_Properties acc view tx db =
    (if \<not> cfg_properties_on_edges (db_config db) then Inr []
     else edge_read Properties_ActionMethod e_properties acc view tx db)"

text \<open>This read does not ask whether edges have properties.\<close>

definition EdgeAccessor_PropertiesByPropertyIds :: "property_id list \<Rightarrow> edge_accessor \<Rightarrow> View \<Rightarrow> transaction \<Rightarrow> db
    \<Rightarrow> storage_error + property_map" where
  "EdgeAccessor_PropertiesByPropertyIds properties acc view tx db =
    edge_read Properties_ActionMethod (\<lambda>e. requested_map properties (e_properties e)) acc view tx db"

section \<open>Writes\<close>

definition lock_edge :: "edge_accessor \<Rightarrow> transaction \<Rightarrow> db \<Rightarrow> (storage_error + edge) \<times> transaction" where
  "lock_edge acc tx db =
    (if \<not> cfg_properties_on_edges (db_config db) then (Inl PROPERTIES_DISABLED, tx)
     else case db_edges db (ea_edge acc) of
       None \<Rightarrow> (Inl Dangling_pointer, tx)
     | Some edge \<Rightarrow>
         (case PrepareForWrite (db_heap db) tx (e_deltas edge) False of
            (False, tx') \<Rightarrow> (Inl SERIALIZATION_ERROR, tx')
          | (True, tx') \<Rightarrow> (if e_deleted edge then Inl DELETED_OBJECT else Inr edge, tx')))"

definition CreateAndLinkDeltaForEdgeSetProperty :: "edge_accessor \<Rightarrow> property_id \<Rightarrow> pv \<Rightarrow> edge \<Rightarrow> transaction \<Rightarrow> db
    \<Rightarrow> edge \<times> transaction \<times> db" where
  "CreateAndLinkDeltaForEdgeSetProperty acc property old_value edge tx db =
    (let (edge1, tx1, db1) = link_edge_delta edge (SET_PROPERTY property old_value (Some (ea_from acc))) tx db
     in if cfg_snapshot_with_wal (db_config db1) \<and> tx_commit_info tx1 \<noteq> None \<and>
           \<not> EdgeWasCreatedThisTransaction (db_heap db1) edge1 (own_timestamp (db_heap db1) tx1)
        then (edge1, tx1\<lparr>tx_edge_set_property_info := (tx_edge_set_property_info tx1)(e_gid edge1 \<mapsto> (ea_to acc, ea_type acc))\<rparr>, db1)
        else (edge1, tx1, db1))"

definition edge_property_calls :: "edge_accessor \<Rightarrow> property_id \<Rightarrow> pv \<Rightarrow> pv \<Rightarrow> pv \<Rightarrow> db \<Rightarrow> db" where
  "edge_property_calls acc property stored new_value old_value db =
    calls (Index_UpdateOnSetEdgeProperty (ea_type acc) property stored (ea_from acc) (ea_to acc) (ea_edge acc)
      # (if cfg_enable_schema_info (db_config db)
         then [Schema_SetEdgeProperty (ea_edge acc) (ea_type acc) (ea_from acc) (ea_to acc) property new_value old_value] else [])) db"

definition edge_converted :: "db \<Rightarrow> edge_accessor \<Rightarrow> property_id \<Rightarrow> pv \<Rightarrow> pv" where
  "edge_converted db acc property value =
    (case cfg_vector_edge_convert (db_config db) (ea_type acc) property value of Some w \<Rightarrow> w | None \<Rightarrow> value)"

definition EdgeAccessor_SetProperty :: "property_id \<Rightarrow> pv \<Rightarrow> edge_accessor \<Rightarrow> transaction \<Rightarrow> db
    \<Rightarrow> (storage_error + pv) \<times> transaction \<times> db" where
  "EdgeAccessor_SetProperty property value acc tx db =
    (case lock_edge acc tx db of
       (Inl e, tx1) \<Rightarrow> (Inl e, tx1, db)
     | (Inr edge, tx1) \<Rightarrow>
         let current_value = GetProperty property (e_properties edge);
             skip_duplicate_write = (\<not> cfg_delta_on_identical_property_update (db_config db))
         in if skip_duplicate_write \<and> cfg_value_eq (db_config db) current_value value then (Inr current_value, tx1, db)
            else
              let (edge1, tx2, db1) = CreateAndLinkDeltaForEdgeSetProperty acc property current_value edge tx1 db;
                  value_to_store = edge_converted db acc property value;
                  edge2 = edge1\<lparr>e_properties := set_prop property value_to_store (e_properties edge1)\<rparr>
              in (Inr current_value, tx2,
                  edge_property_calls acc property value_to_store value current_value (put_edge edge2 db1)))"

text \<open>The loops over the changes; the store already holds the new values, or is cleared afterwards.\<close>

fun edge_delta_loop :: "(property_id \<times> pv \<times> pv) list \<Rightarrow> edge_accessor \<Rightarrow> edge \<Rightarrow> transaction \<Rightarrow> db \<Rightarrow> edge \<times> transaction \<times> db" where
  "edge_delta_loop [] acc edge tx db = (edge, tx, db)"
| "edge_delta_loop ((property, old_value, new_value) # cs) acc edge tx db =
    (let (edge1, tx1, db1) = CreateAndLinkDeltaForEdgeSetProperty acc property old_value edge tx db
     in edge_delta_loop cs acc edge1 tx1 (edge_property_calls acc property new_value new_value old_value db1))"

definition EdgeAccessor_InitProperties :: "property_map \<Rightarrow> edge_accessor \<Rightarrow> transaction \<Rightarrow> db
    \<Rightarrow> (storage_error + bool) \<times> transaction \<times> db" where
  "EdgeAccessor_InitProperties properties acc tx db =
    (case lock_edge acc tx db of
       (Inl e, tx1) \<Rightarrow> (Inl e, tx1, db)
     | (Inr edge, tx1) \<Rightarrow>
         let ps = map (\<lambda>(p, w). (p, edge_converted db acc p w)) properties
         in (case InitProperties ps (e_properties edge) of
               (False, _) \<Rightarrow> (Inr False, tx1, db)
             | (True, s) \<Rightarrow>
                 let edge1 = edge\<lparr>e_properties := s\<rparr>;
                     (edge2, tx2, db2) = edge_delta_loop (map (\<lambda>(p, w). (p, PV_Null, w)) ps) acc edge1 tx1 (put_edge edge1 db)
                 in (Inr True, tx2, db2)))"

definition EdgeAccessor_UpdateProperties :: "property_map \<Rightarrow> edge_accessor \<Rightarrow> transaction \<Rightarrow> db
    \<Rightarrow> (storage_error + (property_id \<times> pv \<times> pv) list) \<times> transaction \<times> db" where
  "EdgeAccessor_UpdateProperties properties acc tx db =
    (case lock_edge acc tx db of
       (Inl e, tx1) \<Rightarrow> (Inl e, tx1, db)
     | (Inr edge, tx1) \<Rightarrow>
         let ps = map (\<lambda>(p, w). (p, edge_converted db acc p w)) properties;
             skip_duplicate_write = (\<not> cfg_delta_on_identical_property_update (db_config db));
             (id_old_new_change, s) = UpdateProperties ps (e_properties edge);
             edge1 = edge\<lparr>e_properties := s\<rparr>;
             cs = filter (\<lambda>(p, old_value, new_value). \<not> (skip_duplicate_write \<and> cfg_value_eq (db_config db) old_value new_value)) id_old_new_change;
             (edge2, tx2, db2) = edge_delta_loop cs acc edge1 tx1 (put_edge edge1 db)
         in (Inr id_old_new_change, tx2, db2))"

definition EdgeAccessor_ClearProperties :: "edge_accessor \<Rightarrow> transaction \<Rightarrow> db \<Rightarrow> (storage_error + property_map) \<times> transaction \<times> db" where
  "EdgeAccessor_ClearProperties acc tx db =
    (case lock_edge acc tx db of
       (Inl e, tx1) \<Rightarrow> (Inl e, tx1, db)
     | (Inr edge, tx1) \<Rightarrow>
         let properties = e_properties edge;
             (edge1, tx2, db1) = edge_delta_loop (map (\<lambda>(p, w). (p, w, PV_Null)) properties) acc edge tx1 db;
             edge2 = edge1\<lparr>e_properties := snd (ClearProperties (e_properties edge1))\<rparr>
         in (Inr properties, tx2, put_edge edge2 db1))"

end
