(* ===== verification/TxnReplication.thy ===== *)
theory TxnReplication
  imports Prelude
begin

text \<open>
  Replication of one transaction (src/storage/v2/replication/replication_transaction.cpp): the
  streams opened to the replicas, the shipping of the deltas, the second phase of the two-phase
  commit with STRICT_SYNC replicas, and the collection of failures.  What a replica answers is a
  field of its client; the messages sent are recorded.
\<close>

section \<open>Clients\<close>

datatype ReplicationMode = SYNC | ASYNC | STRICT_SYNC

datatype StartTxnReplicationError =
  FailedToConnectErr | FailedToGetAsyncRpcLock | GenericRpcError | ReplicaNotInSyncErr | ReplicaDivergedErr

datatype ReplicaFailureReason = NOT_IN_SYNC | FAILED_TO_GET_LOCK | RPC_ERROR | DIVERGED | TIMEOUT

datatype ClientCommunicationError = GENERIC_ERROR | SOCKET_FAILED_TO_CONNECT | TIMEOUT_ERROR

text \<open>The answers of a replica: to the start of the transaction, to the first phase, to the shipping of the
  deltas without two phases, and to the decision.\<close>

record client =
  cl_name :: string
  cl_mode :: ReplicationMode
  cl_start :: "StartTxnReplicationError option"
  cl_prepare :: "ClientCommunicationError option"
  cl_finalize :: "ClientCommunicationError option"
  cl_decision_ack :: bool

definition TwoPhaseCommit :: "client \<Rightarrow> bool" where
  "TwoPhaseCommit c \<longleftrightarrow> cl_mode c = STRICT_SYNC"

datatype message = Msg_Start | Msg_TransactionEnd | Msg_PrepareCommit | Msg_FinalizeTransaction | Msg_FinalizeCommit bool
  | Msg_AbortRpcClient | Msg_UpdateCommitTsInfo

record replica_failure =
  rf_name :: string
  rf_mode :: string
  rf_reason :: ReplicaFailureReason

record replicating_txn =
  rt_streams :: "bool list"
  rt_run_two_phase_commit :: bool
  rt_replication_failures :: "replica_failure list"
  rt_finalize_failures :: "replica_failure list"
  rt_failed_replicas :: "string set"
  rt_sent :: "(string \<times> message) list"

fun ReplicationModeToString :: "ReplicationMode \<Rightarrow> string" where
  "ReplicationModeToString SYNC = ''SYNC''"
| "ReplicationModeToString ASYNC = ''ASYNC''"
| "ReplicationModeToString STRICT_SYNC = ''STRICT_SYNC''"

fun StartTxnErrorToReason :: "StartTxnReplicationError \<Rightarrow> ReplicaFailureReason" where
  "StartTxnErrorToReason FailedToConnectErr = NOT_IN_SYNC"
| "StartTxnErrorToReason ReplicaNotInSyncErr = NOT_IN_SYNC"
| "StartTxnErrorToReason FailedToGetAsyncRpcLock = FAILED_TO_GET_LOCK"
| "StartTxnErrorToReason GenericRpcError = RPC_ERROR"
| "StartTxnErrorToReason ReplicaDivergedErr = DIVERGED"

fun CommunicationErrorToReason :: "ClientCommunicationError \<Rightarrow> ReplicaFailureReason" where
  "CommunicationErrorToReason TIMEOUT_ERROR = TIMEOUT"
| "CommunicationErrorToReason SOCKET_FAILED_TO_CONNECT = NOT_IN_SYNC"
| "CommunicationErrorToReason GENERIC_ERROR = RPC_ERROR"

definition send :: "client \<Rightarrow> message \<Rightarrow> replicating_txn \<Rightarrow> replicating_txn" where
  "send c m t = t\<lparr>rt_sent := rt_sent t @ [(cl_name c, m)]\<rparr>"

definition fail_replica :: "client \<Rightarrow> ReplicaFailureReason \<Rightarrow> replicating_txn \<Rightarrow> replicating_txn" where
  "fail_replica c r t = t\<lparr>rt_replication_failures := rt_replication_failures t @
     [\<lparr>rf_name = cl_name c, rf_mode = ReplicationModeToString (cl_mode c), rf_reason = r\<rparr>]\<rparr>"

section \<open>Operations\<close>

definition start_client :: "client \<Rightarrow> replicating_txn \<Rightarrow> replicating_txn" where
  "start_client c t =
    (let t1 = send c Msg_Start (t\<lparr>rt_run_two_phase_commit := rt_run_two_phase_commit t \<or> TwoPhaseCommit c\<rparr>)
     in case cl_start c of
          None \<Rightarrow> t1\<lparr>rt_streams := rt_streams t1 @ [True]\<rparr>
        | Some e \<Rightarrow>
            let t2 = t1\<lparr>rt_streams := rt_streams t1 @ [False]\<rparr>
            in if cl_mode c \<noteq> ASYNC then fail_replica c (StartTxnErrorToReason e) t2 else t2)"

definition TransactionReplication :: "client list \<Rightarrow> replicating_txn" where
  "TransactionReplication clients =
    fold start_client clients
      \<lparr>rt_streams = [], rt_run_two_phase_commit = False, rt_replication_failures = [], rt_finalize_failures = [],
       rt_failed_replicas = {}, rt_sent = []\<rparr>"

definition ship_to :: "client \<times> bool \<Rightarrow> replicating_txn \<Rightarrow> replicating_txn" where
  "ship_to cs t = (case cs of (c, stream) \<Rightarrow>
     let t1 = (if stream then send c Msg_TransactionEnd t else t);
         (finalized, t2) =
           (if cl_mode c = STRICT_SYNC then (cl_prepare c, send c Msg_PrepareCommit t1)
            else if \<not> rt_run_two_phase_commit t
            then (if cl_mode c = ASYNC then None else cl_finalize c, send c Msg_FinalizeTransaction t1)
            else (None, t1))
     in case finalized of
          None \<Rightarrow> t2
        | Some e \<Rightarrow>
            if \<exists>f \<in> set (rt_replication_failures t2). rf_name f = cl_name c then t2
            else fail_replica c (CommunicationErrorToReason e) t2)"

definition ShipDeltas :: "client list \<Rightarrow> replicating_txn \<Rightarrow> bool \<times> replicating_txn" where
  "ShipDeltas clients t =
    (if clients = [] then (True, t)
     else let t' = fold ship_to (zip clients (rt_streams t)) t in (rt_replication_failures t' = [], t'))"

definition finalize_client :: "bool \<Rightarrow> client \<times> bool \<Rightarrow> bool \<times> replicating_txn \<Rightarrow> bool \<times> replicating_txn" where
  "finalize_client decision cs bt = (case cs of (c, stream) \<Rightarrow> case bt of (succ, t) \<Rightarrow>
     if cl_mode c = STRICT_SYNC
     then
       let t1 = send c (Msg_FinalizeCommit decision) t
       in if cl_decision_ack c then (succ, t1)
          else (False, t1\<lparr>rt_finalize_failures := rt_finalize_failures t1 @
                  [\<lparr>rf_name = cl_name c, rf_mode = ''STRICT_SYNC'', rf_reason = RPC_ERROR\<rparr>]\<rparr>)
     else if cl_mode c = ASYNC
     then (succ, if decision then send c Msg_FinalizeTransaction t
                 else if stream then send c Msg_AbortRpcClient t else t)
     else (succ, t))"

definition FinalizeReplication :: "bool \<Rightarrow> client list \<Rightarrow> replicating_txn \<Rightarrow> bool \<times> replicating_txn" where
  "FinalizeReplication decision clients t = fold (finalize_client decision) (zip clients (rt_streams t)) (True, t)"

definition CollectAllFailures :: "replicating_txn \<Rightarrow> replica_failure list \<times> replicating_txn" where
  "CollectAllFailures t =
    (rt_replication_failures t,
     t\<lparr>rt_failed_replicas := rf_name ` set (rt_replication_failures t) \<union> rf_name ` set (rt_finalize_failures t)\<rparr>)"

definition UpdateCommitTsInfo :: "client list \<Rightarrow> replicating_txn \<Rightarrow> replicating_txn" where
  "UpdateCommitTsInfo clients t =
    fold (\<lambda>c t. if cl_name c \<in> rt_failed_replicas t \<or> cl_mode c = ASYNC then t else send c Msg_UpdateCommitTsInfo t) clients t"

section \<open>Votes\<close>

text \<open>A replica votes for the commit: it was reached, and it answered the first phase, or without two phases the
  shipping of the deltas.  The answers of ASYNC replicas do not count.\<close>

definition votes_yes :: "bool \<Rightarrow> client \<Rightarrow> bool" where
  "votes_yes two_phase c \<longleftrightarrow> cl_mode c = ASYNC \<or>
    (cl_start c = None \<and> (if cl_mode c = STRICT_SYNC then cl_prepare c = None else two_phase \<or> cl_finalize c = None))"

definition two_phase :: "client list \<Rightarrow> bool" where
  "two_phase clients \<longleftrightarrow> (\<exists>c \<in> set clients. cl_mode c = STRICT_SYNC)"

lemma send_simps [simp]:
  "rt_streams (send c m t) = rt_streams t" "rt_run_two_phase_commit (send c m t) = rt_run_two_phase_commit t"
  "rt_replication_failures (send c m t) = rt_replication_failures t" "rt_finalize_failures (send c m t) = rt_finalize_failures t"
  "rt_failed_replicas (send c m t) = rt_failed_replicas t" "rt_sent (send c m t) = rt_sent t @ [(cl_name c, m)]"
  by (simp_all add: send_def)

lemma fail_replica_simps [simp]:
  "rt_streams (fail_replica c r t) = rt_streams t" "rt_run_two_phase_commit (fail_replica c r t) = rt_run_two_phase_commit t"
  "rt_replication_failures (fail_replica c r t) \<noteq> []" "rt_finalize_failures (fail_replica c r t) = rt_finalize_failures t"
  "rt_sent (fail_replica c r t) = rt_sent t"
  by (simp_all add: fail_replica_def)

lemma start_client_simps [simp]:
  "length (rt_streams (start_client c t)) = Suc (length (rt_streams t))"
  "rt_run_two_phase_commit (start_client c t) \<longleftrightarrow> rt_run_two_phase_commit t \<or> cl_mode c = STRICT_SYNC"
  "rt_replication_failures (start_client c t) = [] \<longleftrightarrow> rt_replication_failures t = [] \<and> (cl_mode c = ASYNC \<or> cl_start c = None)"
  "rt_sent (start_client c t) = rt_sent t @ [(cl_name c, Msg_Start)]"
  by (auto simp: start_client_def TwoPhaseCommit_def Let_def split: option.splits)

lemma fold_start_client:
  "length (rt_streams (fold start_client cs t)) = length cs + length (rt_streams t)"
  "rt_run_two_phase_commit (fold start_client cs t) \<longleftrightarrow> rt_run_two_phase_commit t \<or> two_phase cs"
  "rt_replication_failures (fold start_client cs t) = [] \<longleftrightarrow>
    rt_replication_failures t = [] \<and> (\<forall>c \<in> set cs. cl_mode c = ASYNC \<or> cl_start c = None)"
  by (induction cs arbitrary: t) (auto simp: two_phase_def)

lemma TransactionReplication_simps [simp]:
  "length (rt_streams (TransactionReplication cs)) = length cs"
  "rt_run_two_phase_commit (TransactionReplication cs) \<longleftrightarrow> two_phase cs"
  "rt_replication_failures (TransactionReplication cs) = [] \<longleftrightarrow> (\<forall>c \<in> set cs. cl_mode c = ASYNC \<or> cl_start c = None)"
  by (simp_all add: TransactionReplication_def fold_start_client)

definition ship_ok :: "bool \<Rightarrow> client \<Rightarrow> bool" where
  "ship_ok two c \<longleftrightarrow> (if cl_mode c = STRICT_SYNC then cl_prepare c = None else two \<or> cl_mode c = ASYNC \<or> cl_finalize c = None)"

lemma ship_to_simps [simp]:
  "rt_streams (ship_to cs t) = rt_streams t" "rt_run_two_phase_commit (ship_to cs t) = rt_run_two_phase_commit t"
  "rt_replication_failures (ship_to cs t) = [] \<longleftrightarrow> rt_replication_failures t = [] \<and> ship_ok (rt_run_two_phase_commit t) (fst cs)"
  by (cases cs; force simp: ship_to_def ship_ok_def Let_def split: option.splits)+

lemma fold_ship_to:
  "rt_streams (fold ship_to xs t) = rt_streams t" "rt_run_two_phase_commit (fold ship_to xs t) = rt_run_two_phase_commit t"
  "rt_replication_failures (fold ship_to xs t) = [] \<longleftrightarrow>
    rt_replication_failures t = [] \<and> (\<forall>x \<in> set xs. ship_ok (rt_run_two_phase_commit t) (fst x))"
  by (induction xs arbitrary: t) auto

lemma fst_zip_ball: "length ys = length xs \<Longrightarrow> (\<forall>z \<in> set (zip xs ys). P (fst z)) \<longleftrightarrow> (\<forall>x \<in> set xs. P x)"
  by (induction ys xs rule: list_induct2) auto

lemma concat_map_fst_zip: "length ys = length xs \<Longrightarrow> concat (map (\<lambda>z. f (fst z)) (zip xs ys)) = concat (map f xs)"
  by (induction ys xs rule: list_induct2) auto

lemma ship_ok_zip:
  "(\<forall>x \<in> set (zip clients (rt_streams (TransactionReplication clients))). ship_ok two (fst x)) \<longleftrightarrow> (\<forall>c \<in> set clients. ship_ok two c)"
  by (rule fst_zip_ball) simp

lemma votes_yes_split:
  "votes_yes two c \<longleftrightarrow> (cl_mode c = ASYNC \<or> cl_start c = None) \<and> ship_ok two c"
  by (auto simp: votes_yes_def ship_ok_def)

lemma ShipDeltas_votes:
  "fst (ShipDeltas clients (TransactionReplication clients)) \<longleftrightarrow> (\<forall>c \<in> set clients. votes_yes (two_phase clients) c)"
  "rt_run_two_phase_commit (snd (ShipDeltas clients (TransactionReplication clients))) = two_phase clients"
  "rt_streams (snd (ShipDeltas clients (TransactionReplication clients))) = rt_streams (TransactionReplication clients)"
  "rt_replication_failures (snd (ShipDeltas clients (TransactionReplication clients))) = [] \<longleftrightarrow>
    (\<forall>c \<in> set clients. votes_yes (two_phase clients) c)"
  by (simp_all add: ShipDeltas_def Let_def fold_ship_to ship_ok_zip votes_yes_split ball_conj_distrib)

section \<open>The decision\<close>

definition is_decision :: "string \<times> message \<Rightarrow> bool" where
  "is_decision m = (case snd m of Msg_FinalizeCommit _ \<Rightarrow> True | _ \<Rightarrow> False)"

definition decisions :: "replicating_txn \<Rightarrow> (string \<times> message) list" where
  "decisions t = filter is_decision (rt_sent t)"

lemma finalize_client_simps [simp]:
  "decisions (snd (finalize_client decision cs bt)) = decisions (snd bt) @
    (if cl_mode (fst cs) = STRICT_SYNC then [(cl_name (fst cs), Msg_FinalizeCommit decision)] else [])"
  "rt_replication_failures (snd (finalize_client decision cs bt)) = rt_replication_failures (snd bt)"
  by (cases cs; cases bt; auto simp: finalize_client_def decisions_def is_decision_def Let_def)+

lemma fold_finalize_client:
  "decisions (snd (fold (finalize_client decision) xs bt)) = decisions (snd bt) @
    [(cl_name (fst x), Msg_FinalizeCommit decision). x \<leftarrow> xs, cl_mode (fst x) = STRICT_SYNC]"
  "rt_replication_failures (snd (fold (finalize_client decision) xs bt)) = rt_replication_failures (snd bt)"
  by (induction xs arbitrary: bt) auto

lemma decisions_ship: "decisions (fold ship_to xs t) = decisions t"
proof -
  have "decisions (ship_to x t) = decisions t" for x t
    by (cases x) (auto simp: ship_to_def decisions_def is_decision_def Let_def split: option.splits)
  then show ?thesis
    by (induction xs arbitrary: t) auto
qed

lemma decisions_start: "decisions (TransactionReplication cs) = []"
proof -
  have "decisions (fold start_client cs t) = decisions t" for t
    by (induction cs arbitrary: t) (auto simp: decisions_def is_decision_def)
  then show ?thesis
    by (simp add: TransactionReplication_def decisions_def)
qed

lemma FinalizeReplication_decisions:
  assumes "length (rt_streams t) = length clients"
  shows "decisions (snd (FinalizeReplication decision clients t)) =
    decisions t @ [(cl_name c, Msg_FinalizeCommit decision). c \<leftarrow> clients, cl_mode c = STRICT_SYNC]"
  using concat_map_fst_zip[OF assms, of "\<lambda>c. if cl_mode c = STRICT_SYNC then [(cl_name c, Msg_FinalizeCommit decision)] else []"]
  by (simp add: FinalizeReplication_def fold_finalize_client)

lemma ShipDeltas_no_decision: "decisions (snd (ShipDeltas clients (TransactionReplication clients))) = []"
  by (simp add: ShipDeltas_def Let_def decisions_ship decisions_start)

definition example_clients :: "client list" where
  "example_clients =
    [\<lparr>cl_name = ''a'', cl_mode = STRICT_SYNC, cl_start = None, cl_prepare = None, cl_finalize = None, cl_decision_ack = True\<rparr>,
     \<lparr>cl_name = ''b'', cl_mode = STRICT_SYNC, cl_start = None, cl_prepare = Some GENERIC_ERROR, cl_finalize = None, cl_decision_ack = True\<rparr>]"



end
