(* ===== verification/GraphWrites.thy ===== *)
theory GraphWrites
  imports VertexWrites EdgeAccessors
begin

text \<open>
  Creation and deletion of vertices and edges in the in-memory storage
  (src/storage/v2/inmemory/storage.cpp, storage.cpp): \<open>CreateVertex\<close>, \<open>CreateEdge\<close> with its
  non-sequential write preparation, \<open>DetachDelete\<close> with its five phases, and the deletions built on
  it.  The unordered sets of the code are lists without duplicates, in the order of insertion.
\<close>

section \<open>Vertices\<close>

text \<open>A step of the multi-version engine on one vertex or edge of the store, as an action.\<close>

definition get_vertex :: "gid \<Rightarrow> vertex action" where
  "get_vertex g = bind_act get_db (\<lambda>db. case db_vertices db g of None \<Rightarrow> fail Dangling_pointer | Some v \<Rightarrow> ret v)"

definition get_edge :: "edge_ref \<Rightarrow> edge action" where
  "get_edge e = bind_act get_db (\<lambda>db. case db_edges db e of None \<Rightarrow> fail Dangling_pointer | Some x \<Rightarrow> ret x)"

definition link_vertex :: "gid \<Rightarrow> delta_op \<Rightarrow> unit action" where
  "link_vertex g op = bind_act (get_vertex g) (\<lambda>v tx db. case link_vertex_delta v op tx db of (v', tx', db') \<Rightarrow> (Inr (), tx', db'))"

definition link_edge :: "edge_ref \<Rightarrow> delta_op \<Rightarrow> unit action" where
  "link_edge e op = bind_act (get_edge e) (\<lambda>x tx db. case link_edge_delta x op tx db of (x', tx', db') \<Rightarrow> (Inr (), tx', db'))"

definition update_vertex :: "gid \<Rightarrow> (vertex \<Rightarrow> vertex) \<Rightarrow> unit action" where
  "update_vertex g f = bind_act (get_vertex g) (\<lambda>v. modify_db (put_vertex (f v)))"

definition update_edge :: "edge_ref \<Rightarrow> (edge \<Rightarrow> edge) \<Rightarrow> unit action" where
  "update_edge e f = bind_act (get_edge e) (\<lambda>x. modify_db (put_edge (f x)))"

definition prepare_vertex :: "gid \<Rightarrow> unit action" where
  "prepare_vertex g = bind_act (get_vertex g) (\<lambda>v tx db.
     case PrepareForWrite (db_heap db) tx (v_deltas v) (v_has_uncommitted_non_sequential_deltas v) of
       (True, tx') \<Rightarrow> (Inr (), tx', db) | (False, tx') \<Rightarrow> (Inl SERIALIZATION_ERROR, tx', db))"

definition prepare_edge :: "edge_ref \<Rightarrow> unit action" where
  "prepare_edge e = bind_act (get_edge e) (\<lambda>x tx db.
     case PrepareForWrite (db_heap db) tx (e_deltas x) False of
       (True, tx') \<Rightarrow> (Inr (), tx', db) | (False, tx') \<Rightarrow> (Inl SERIALIZATION_ERROR, tx', db))"

definition record_calls :: "side_call list \<Rightarrow> unit action" where
  "record_calls cs = modify_db (calls cs)"

definition schema_call :: "side_call \<Rightarrow> unit action" where
  "schema_call c = bind_act get_db (\<lambda>db. record_calls (schema_calls db c))"

definition new_vertex :: "gid \<Rightarrow> delta list \<Rightarrow> vertex" where
  "new_vertex g ds = \<lparr>v_gid = g, v_labels = [], v_properties = [], v_in_edges = [], v_out_edges = [], v_deleted = False,
     v_has_uncommitted_non_sequential_deltas = False, v_deltas = ds\<rparr>"

definition new_edge :: "gid \<Rightarrow> delta list \<Rightarrow> edge" where
  "new_edge g ds = \<lparr>e_gid = g, e_properties = [], e_deleted = False, e_deltas = ds\<rparr>"

definition create_delete_delta :: "delta_owner \<Rightarrow> delta list action" where
  "create_delete_delta owner tx db =
    (case CreateDeleteObjectDelta owner tx (db_heap db) of (ds, tx', h') \<Rightarrow> (Inr ds, tx', db\<lparr>db_heap := h'\<rparr>))"

text \<open>The insertion of a vertex that both creation functions share; \<^term>\<open>None\<close> when the gid is taken.\<close>

definition insert_vertex :: "gid \<Rightarrow> vertex_accessor option action" where
  "insert_vertex g =
    bind_act (create_delete_delta (Owner_vertex g)) (\<lambda>ds.
    bind_act get_db (\<lambda>db.
      if db_vertices db g \<noteq> None then ret None
      else
        bind_act (modify_db (put_vertex (new_vertex g ds))) (\<lambda>_.
        bind_act (schema_call (Schema_CreateVertex g)) (\<lambda>_.
          ret (Some \<lparr>va_vertex = g, va_for_deleted = False\<rparr>)))))"

definition CreateVertex :: "vertex_accessor action" where
  "CreateVertex =
    bind_act get_db (\<lambda>db.
    bind_act (modify_db (\<lambda>db. db\<lparr>db_vertex_id := db_vertex_id db + 1\<rparr>)) (\<lambda>_.
    bind_act (insert_vertex (db_vertex_id db)) (\<lambda>acc.
      case acc of None \<Rightarrow> fail Assertion_failed | Some a \<Rightarrow> ret a)))"

definition CreateVertexEx :: "gid \<Rightarrow> vertex_accessor option action" where
  "CreateVertexEx g =
    bind_act (modify_db (\<lambda>db. db\<lparr>db_vertex_id := max (db_vertex_id db) (g + 1)\<rparr>)) (\<lambda>_. insert_vertex g)"

definition FindVertex :: "gid \<Rightarrow> View \<Rightarrow> vertex_accessor option action" where
  "FindVertex g view tx db =
    (if db_vertices db g = None then (Inr None, tx, db)
     else case VertexAccessor_Create g tx view db of (r, tx') \<Rightarrow> (r, tx', db))"

section \<open>Creating edges\<close>

definition ComputeDeltaChainState :: "bool \<Rightarrow> WriteResult \<Rightarrow> DeltaChainState" where
  "ComputeDeltaChainState has_blocker result =
    (if has_blocker then FORCED_SEQUENTIAL else if result = WR_NON_SEQUENTIAL then NON_SEQUENTIAL else SEQUENTIAL)"

text \<open>The preparation of one end of a new edge, with the state its delta gets.\<close>

definition prepare_edge_end :: "gid \<Rightarrow> DeltaChainState action" where
  "prepare_edge_end g = bind_act (get_vertex g) (\<lambda>v tx db.
     case PrepareForNonSequentialWrite (db_heap db) tx (v_deltas v) (v_has_uncommitted_non_sequential_deltas v) of
       (result, tx', flag) \<Rightarrow>
         let v' = v\<lparr>v_has_uncommitted_non_sequential_deltas := flag\<rparr>; db' = put_vertex v' db
         in if result = WR_SERIALIZATION_ERROR then (Inl SERIALIZATION_ERROR, tx', db')
            else if v_deleted v' then (Inl DELETED_OBJECT, tx', db')
            else (Inr (ComputeDeltaChainState (ShouldSetNonSequentialBlockerUpstreamFlag (db_heap db') tx' (v_deltas v')) result), tx', db'))"

definition insert_edge_object :: "gid \<Rightarrow> gid \<Rightarrow> unit action" where
  "insert_edge_object g from_vertex =
    bind_act get_db (\<lambda>db.
      if \<not> cfg_properties_on_edges (db_config db) then ret ()
      else
        bind_act (create_delete_delta (Owner_edge g)) (\<lambda>ds.
        bind_act get_db (\<lambda>db1.
        bind_act (ensure (db_edges db1 g = None) Assertion_failed) (\<lambda>_.
        bind_act (modify_db (put_edge (new_edge g ds))) (\<lambda>_.
          if \<not> cfg_enable_edges_metadata (db_config db) then ret ()
          else
            bind_act (ensure (db_edges_metadata db1 g = None) Assertion_failed) (\<lambda>_.
              modify_db (\<lambda>db. db\<lparr>db_edges_metadata := (db_edges_metadata db)(g \<mapsto> from_vertex)\<rparr>)))))))"

definition link_new_edge :: "edge_ref \<Rightarrow> edge_type_id \<Rightarrow> gid \<Rightarrow> gid \<Rightarrow> DeltaChainState \<Rightarrow> DeltaChainState \<Rightarrow> unit action" where
  "link_new_edge e edge_type from_vertex to_vertex from_state to_state =
    bind_act (link_vertex from_vertex (REMOVE_OUT_EDGE edge_type to_vertex e from_state)) (\<lambda>_.
    bind_act (update_vertex from_vertex (\<lambda>v. v\<lparr>v_out_edges := v_out_edges v @ [(edge_type, to_vertex, e)]\<rparr>)) (\<lambda>_.
    bind_act (link_vertex to_vertex (REMOVE_IN_EDGE edge_type from_vertex e to_state)) (\<lambda>_.
    bind_act (update_vertex to_vertex (\<lambda>v. v\<lparr>v_in_edges := v_in_edges v @ [(edge_type, from_vertex, e)]\<rparr>)) (\<lambda>_.
    bind_act (modify_tx (\<lambda>tx. tx\<lparr>tx_cache := Invalidate_edges to_vertex IN_DIR (Invalidate_edges from_vertex OUT_DIR (tx_cache tx))\<rparr>)) (\<lambda>_.
    bind_act (record_calls [Index_UpdateOnEdgeCreation from_vertex to_vertex e edge_type]) (\<lambda>_.
    bind_act (modify_db (\<lambda>db. db\<lparr>db_edge_count := db_edge_count db + 1\<rparr>)) (\<lambda>_.
      schema_call (Schema_CreateEdge from_vertex to_vertex edge_type))))))))"

text \<open>Everything after the gid of the edge is known.\<close>

definition create_edge_with :: "vertex_accessor \<Rightarrow> vertex_accessor \<Rightarrow> edge_type_id \<Rightarrow> (db \<Rightarrow> gid) \<Rightarrow> (db \<Rightarrow> db) \<Rightarrow> edge_accessor action" where
  "create_edge_with src dst edge_type gid_of bump =
    bind_act (prepare_edge_end (va_vertex src)) (\<lambda>from_state.
    bind_act (if va_vertex dst = va_vertex src then ret from_state else prepare_edge_end (va_vertex dst)) (\<lambda>to_state.
    bind_act get_db (\<lambda>db.
    bind_act (record_calls (if cfg_enable_schema_metadata (db_config db) then [Schema_store_edge_type edge_type] else [])) (\<lambda>_.
    bind_act (modify_db bump) (\<lambda>_.
    bind_act (insert_edge_object (gid_of db) (va_vertex src)) (\<lambda>_.
    bind_act (link_new_edge (gid_of db) edge_type (va_vertex src) (va_vertex dst) from_state to_state) (\<lambda>_.
      ret \<lparr>ea_edge = gid_of db, ea_type = edge_type, ea_from = va_vertex src, ea_to = va_vertex dst, ea_for_deleted = False\<rparr>)))))))"

definition CreateEdge :: "vertex_accessor \<Rightarrow> vertex_accessor \<Rightarrow> edge_type_id \<Rightarrow> edge_accessor action" where
  "CreateEdge src dst edge_type =
    bind_act (record_calls [Async_TrackEdgeType edge_type]) (\<lambda>_.
      create_edge_with src dst edge_type db_edge_id (\<lambda>db. db\<lparr>db_edge_id := db_edge_id db + 1\<rparr>))"

definition CreateEdgeEx :: "vertex_accessor \<Rightarrow> vertex_accessor \<Rightarrow> edge_type_id \<Rightarrow> gid \<Rightarrow> edge_accessor action" where
  "CreateEdgeEx src dst edge_type g =
    create_edge_with src dst edge_type (\<lambda>_. g) (\<lambda>db. db\<lparr>db_edge_id := max (db_edge_id db) (g + 1)\<rparr>)"

text \<open>\<open>FindEdges\<close> reads the end with fewer edges.\<close>

definition FindEdges :: "View \<Rightarrow> edge_type_id \<Rightarrow> vertex_accessor \<Rightarrow> vertex_accessor \<Rightarrow> (edge_accessor list \<times> nat) action" where
  "FindEdges view edge_type src dst =
    bind_act (get_vertex (va_vertex src)) (\<lambda>f.
    bind_act (get_vertex (va_vertex dst)) (\<lambda>t tx db.
      if length (v_out_edges f) \<le> length (v_in_edges t)
      then (case OutEdges [edge_type] (Some (va_vertex dst)) None src view tx db of (r, tx', _) \<Rightarrow> (r, tx', db))
      else (case InEdges [edge_type] (Some (va_vertex src)) None dst view tx db of (r, tx', _) \<Rightarrow> (r, tx', db))))"

definition FindEdge :: "gid \<Rightarrow> View \<Rightarrow> edge_type_id \<Rightarrow> vertex_accessor \<Rightarrow> vertex_accessor \<Rightarrow> edge_accessor option action" where
  "FindEdge g view edge_type src dst tx db =
    (case FindEdges view edge_type src dst tx db of
       (Inl e, tx', db') \<Rightarrow> (Inr None, tx', db')
     | (Inr (edges, n), tx', db') \<Rightarrow> (Inr (find (\<lambda>a. ea_edge a = g) edges), tx', db'))"

section \<open>Deleting\<close>

definition set_insert :: "'a \<Rightarrow> 'a list \<Rightarrow> 'a list" where
  "set_insert x xs = (if x \<in> set xs then xs else xs @ [x])"

definition PrepareDeletableNodes :: "vertex_accessor list \<Rightarrow> gid list action" where
  "PrepareDeletableNodes vertices =
    for_each (\<lambda>acc nodes.
      bind_act (prepare_vertex (va_vertex acc)) (\<lambda>_.
      bind_act (get_vertex (va_vertex acc)) (\<lambda>v.
        ret (if v_deleted v then nodes else set_insert (va_vertex acc) nodes)))) vertices []"

record EdgeInfoForDeletion =
  partial_src_edge_ids :: "gid list"
  partial_dest_edge_ids :: "gid list"
  partial_src_vertices :: "gid list"
  partial_dest_vertices :: "gid list"

definition try_adding_src :: "gid list \<Rightarrow> edge_entry \<Rightarrow> EdgeInfoForDeletion \<Rightarrow> EdgeInfoForDeletion" where
  "try_adding_src vertices item info = (case item of (t, opposing_vertex, e) \<Rightarrow>
     if opposing_vertex \<in> set vertices then info
     else info\<lparr>partial_src_vertices := set_insert opposing_vertex (partial_src_vertices info),
            partial_src_edge_ids := set_insert e (partial_src_edge_ids info)\<rparr>)"

definition try_adding_dest :: "gid list \<Rightarrow> edge_entry \<Rightarrow> EdgeInfoForDeletion \<Rightarrow> EdgeInfoForDeletion" where
  "try_adding_dest vertices item info = (case item of (t, opposing_vertex, e) \<Rightarrow>
     if opposing_vertex \<in> set vertices then info
     else info\<lparr>partial_dest_vertices := set_insert opposing_vertex (partial_dest_vertices info),
            partial_dest_edge_ids := set_insert e (partial_dest_edge_ids info)\<rparr>)"

definition vertex_gone :: "db \<Rightarrow> gid \<Rightarrow> bool" where
  "vertex_gone db g = (case db_vertices db g of None \<Rightarrow> True | Some v \<Rightarrow> v_deleted v)"

definition add_queried_edge :: "db \<Rightarrow> edge_accessor \<Rightarrow> EdgeInfoForDeletion \<Rightarrow> EdgeInfoForDeletion" where
  "add_queried_edge db acc info =
    (if vertex_gone db (ea_from acc) \<or> vertex_gone db (ea_to acc) then info
     else \<lparr>partial_src_edge_ids = set_insert (ea_edge acc) (partial_src_edge_ids info),
           partial_dest_edge_ids = set_insert (ea_edge acc) (partial_dest_edge_ids info),
           partial_src_vertices = set_insert (ea_from acc) (partial_src_vertices info),
           partial_dest_vertices = set_insert (ea_to acc) (partial_dest_vertices info)\<rparr>)"

definition PrepareDeletableEdges :: "gid list \<Rightarrow> edge_accessor list \<Rightarrow> bool \<Rightarrow> db \<Rightarrow> EdgeInfoForDeletion" where
  "PrepareDeletableEdges vertices edges detach db =
    (let none = \<lparr>partial_src_edge_ids = [], partial_dest_edge_ids = [], partial_src_vertices = [], partial_dest_vertices = []\<rparr>;
         info = (if detach
                 then fold (\<lambda>g info. case db_vertices db g of None \<Rightarrow> info
                        | Some v \<Rightarrow> fold (try_adding_dest vertices) (v_out_edges v) (fold (try_adding_src vertices) (v_in_edges v) info))
                      vertices none
                 else none)
     in fold (add_queried_edge db) edges info)"

definition MarkEdgeAsDeleted :: "edge_ref \<Rightarrow> unit action" where
  "MarkEdgeAsDeleted e =
    bind_act (get_edge e) (\<lambda>x.
      if e_deleted x then ret ()
      else
        bind_act (link_edge e RECREATE_OBJECT) (\<lambda>_.
        bind_act (update_edge e (\<lambda>x. x\<lparr>e_deleted := True\<rparr>)) (\<lambda>_.
          modify_db (\<lambda>db. db\<lparr>db_edge_count := db_edge_count db - 1\<rparr>))))"

definition when_edge_objects :: "unit action \<Rightarrow> unit action" where
  "when_edge_objects m = bind_act get_db (\<lambda>db. if cfg_properties_on_edges (db_config db) then m else ret ())"

definition set_edges :: "EdgeDirection \<Rightarrow> (edge_entry list \<Rightarrow> edge_entry list) \<Rightarrow> vertex \<Rightarrow> vertex" where
  "set_edges dir f v = (if dir = IN_DIR then v\<lparr>v_in_edges := f (v_in_edges v)\<rparr> else v\<lparr>v_out_edges := f (v_out_edges v)\<rparr>)"

definition add_edge_op :: "EdgeDirection \<Rightarrow> edge_entry \<Rightarrow> delta_op" where
  "add_edge_op dir entry = (case entry of (t, v, e) \<Rightarrow>
     if dir = IN_DIR then ADD_IN_EDGE t v e SEQUENTIAL else ADD_OUT_EDGE t v e SEQUENTIAL)"

text \<open>The accessor of an edge that hangs on a vertex in a direction.\<close>

definition deleted_accessor :: "EdgeDirection \<Rightarrow> gid \<Rightarrow> edge_entry \<Rightarrow> edge_accessor" where
  "deleted_accessor dir g entry = (case entry of (t, opposing_vertex, e) \<Rightarrow>
     \<lparr>ea_edge = e, ea_type = t, ea_from = (if dir = IN_DIR then opposing_vertex else g),
      ea_to = (if dir = IN_DIR then g else opposing_vertex), ea_for_deleted = True\<rparr>)"

type_synonym deleted = "edge_accessor list \<times> gid list"

text \<open>One edge cleared from a vertex: the accessor is reported when the edge was cleared from its other end before.\<close>

definition report_deleted :: "EdgeDirection \<Rightarrow> gid \<Rightarrow> edge_entry \<Rightarrow> deleted \<Rightarrow> deleted action" where
  "report_deleted dir g entry s = (case s of (deleted_edges, deleted_edge_ids) \<Rightarrow>
     let acc = deleted_accessor dir g entry; both = ea_edge acc \<in> set deleted_edge_ids
     in if both
        then bind_act (schema_call (Schema_DeleteEdge (ea_from acc) (ea_to acc) (ea_type acc) (ea_edge acc))) (\<lambda>_.
               ret (deleted_edges @ [acc], deleted_edge_ids))
        else ret (deleted_edges, set_insert (ea_edge acc) deleted_edge_ids))"

definition clear_edge :: "EdgeDirection \<Rightarrow> gid \<Rightarrow> edge_entry \<Rightarrow> deleted \<Rightarrow> deleted action" where
  "clear_edge dir g entry s = (case entry of (t, opposing_vertex, e) \<Rightarrow>
     bind_act (when_edge_objects (prepare_edge e)) (\<lambda>_.
     bind_act (prepare_vertex g) (\<lambda>_.
     bind_act (get_vertex g) (\<lambda>v.
     bind_act (ensure (\<not> v_deleted v) Assertion_failed) (\<lambda>_.
     bind_act (update_vertex g (set_edges dir butlast)) (\<lambda>_.
     bind_act (when_edge_objects (MarkEdgeAsDeleted e)) (\<lambda>_.
     bind_act (link_vertex g (add_edge_op dir entry)) (\<lambda>_.
       report_deleted dir g entry s))))))))"

text \<open>The loop takes the last edge of the vector until it is empty; nothing else shrinks or grows the vector.\<close>

definition clear_edges :: "EdgeDirection \<Rightarrow> gid \<Rightarrow> deleted \<Rightarrow> deleted action" where
  "clear_edges dir g s = bind_act (get_vertex g) (\<lambda>v. for_each (clear_edge dir g) (rev (edges_of dir v)) s)"

definition ClearEdgesOnVertices :: "gid list \<Rightarrow> deleted \<Rightarrow> deleted action" where
  "ClearEdgesOnVertices vertices s =
    for_each (\<lambda>g s. bind_act (clear_edges IN_DIR g s) (clear_edges OUT_DIR g)) vertices s"

definition detach_edge :: "EdgeDirection \<Rightarrow> gid \<Rightarrow> edge_entry \<Rightarrow> deleted \<Rightarrow> deleted action" where
  "detach_edge dir g entry s = (case entry of (t, opposing_vertex, e) \<Rightarrow>
     bind_act (when_edge_objects (prepare_edge e)) (\<lambda>_.
     bind_act (when_edge_objects (MarkEdgeAsDeleted e)) (\<lambda>_.
     bind_act (link_vertex g (add_edge_op dir entry)) (\<lambda>_.
       report_deleted dir g entry s))))"

text \<open>\<open>std::partition\<close> does not promise an order; the model keeps the order in both parts.\<close>

definition clear_edges_on_other_direction :: "EdgeDirection \<Rightarrow> gid list \<Rightarrow> gid \<Rightarrow> deleted \<Rightarrow> deleted action" where
  "clear_edges_on_other_direction dir set_for_erasure g s =
    bind_act (prepare_vertex g) (\<lambda>_.
    bind_act (get_vertex g) (\<lambda>v.
    bind_act (ensure (\<not> v_deleted v) Assertion_failed) (\<lambda>_.
      let (erased, kept) = partition (\<lambda>(t, w, e). e \<in> set set_for_erasure) (edges_of dir v)
      in bind_act (update_vertex g (set_edges dir (\<lambda>_. kept @ erased))) (\<lambda>_.
         bind_act (for_each (detach_edge dir g) erased s) (\<lambda>s'.
         bind_act (update_vertex g (set_edges dir (\<lambda>_. kept))) (\<lambda>_.
           ret s'))))))"

definition DetachRemainingEdges :: "EdgeInfoForDeletion \<Rightarrow> gid list \<Rightarrow> edge_accessor list action" where
  "DetachRemainingEdges info partially_detached_edge_ids =
    bind_act (for_each (clear_edges_on_other_direction OUT_DIR (partial_src_edge_ids info)) (partial_src_vertices info)
        ([], partially_detached_edge_ids)) (\<lambda>s.
    bind_act (for_each (clear_edges_on_other_direction IN_DIR (partial_dest_edge_ids info)) (partial_dest_vertices info) s) (\<lambda>s'.
      ret (fst s')))"

definition try_delete_vertex :: "gid \<Rightarrow> vertex_accessor list \<Rightarrow> vertex_accessor list action" where
  "try_delete_vertex g deleted_vertices =
    bind_act (prepare_vertex g) (\<lambda>_.
    bind_act (get_vertex g) (\<lambda>v.
    bind_act (ensure (\<not> v_deleted v) Assertion_failed) (\<lambda>_.
    bind_act (ensure (v_in_edges v = [] \<and> v_out_edges v = []) VERTEX_HAS_EDGES) (\<lambda>_.
    bind_act (link_vertex g RECREATE_OBJECT) (\<lambda>_.
    bind_act (schema_call (Schema_DeleteVertex g)) (\<lambda>_.
    bind_act (update_vertex g (\<lambda>v. v\<lparr>v_deleted := True\<rparr>)) (\<lambda>_.
    bind_act (\<lambda>tx db. case UpdateOnVertexDelete g tx db of (tx', db') \<Rightarrow> (Inr (), tx', db')) (\<lambda>_.
      ret (deleted_vertices @ [\<lparr>va_vertex = g, va_for_deleted = True\<rparr>])))))))))"

definition TryDeleteVertices :: "gid list \<Rightarrow> vertex_accessor list action" where
  "TryDeleteVertices vertices = for_each try_delete_vertex vertices []"

text \<open>\<open>Storage::Accessor::DetachDelete\<close>.\<close>

definition Accessor_DetachDelete :: "vertex_accessor list \<Rightarrow> edge_accessor list \<Rightarrow> bool
    \<Rightarrow> (vertex_accessor list \<times> edge_accessor list) action" where
  "Accessor_DetachDelete nodes edges detach =
    bind_act (PrepareDeletableNodes nodes) (\<lambda>nodes_to_delete.
    bind_act get_db (\<lambda>db.
      let info = PrepareDeletableEdges nodes_to_delete edges detach db
      in bind_act (if detach then ClearEdgesOnVertices nodes_to_delete ([], []) else ret ([], [])) (\<lambda>(cleared, ids).
         bind_act (DetachRemainingEdges info ids) (\<lambda>remaining.
         bind_act (TryDeleteVertices nodes_to_delete) (\<lambda>deleted_vertices.
         bind_act (record_calls (map Text_RemoveNode nodes_to_delete
             @ (if cfg_properties_on_edges (db_config db)
                then map (\<lambda>a. Text_RemoveEdge (ea_edge a) (ea_from a) (ea_to a) (ea_type a)) (cleared @ remaining) else []))) (\<lambda>_.
           ret (deleted_vertices, cleared @ remaining)))))))"

text \<open>\<open>InMemoryAccessor::DetachDelete\<close>.\<close>

definition uncount_labels :: "vertex_accessor \<Rightarrow> unit \<Rightarrow> unit action" where
  "uncount_labels acc u tx db =
    (case Labels acc NEW tx db of
       (Inl e, tx') \<Rightarrow> (Inr (), tx', db)
     | (Inr ls, tx') \<Rightarrow> (Inr (), tx', fold (\<lambda>l. UpdateLabelCount l (-1)) ls db))"

definition DetachDelete :: "vertex_accessor list \<Rightarrow> edge_accessor list \<Rightarrow> bool
    \<Rightarrow> (vertex_accessor list \<times> edge_accessor list) action" where
  "DetachDelete nodes edges detach =
    bind_act (Accessor_DetachDelete nodes edges detach) (\<lambda>(deleted_vertices, deleted_edges).
    bind_act get_db (\<lambda>db.
    bind_act (if cfg_track_label_counts (db_config db) then for_each uncount_labels deleted_vertices () else ret ()) (\<lambda>_.
    bind_act (modify_tx (\<lambda>tx. tx\<lparr>tx_cache := fold (\<lambda>a. Invalidate_vertex (va_vertex a)) deleted_vertices (tx_cache tx)\<rparr>)) (\<lambda>_.
    bind_act (modify_tx (\<lambda>tx. tx\<lparr>tx_cache :=
        fold (\<lambda>a c. Invalidate_edges (ea_to a) IN_DIR (Invalidate_edges (ea_from a) OUT_DIR c)) deleted_edges (tx_cache tx)\<rparr>)) (\<lambda>_.
    bind_act get_tx (\<lambda>tx.
    bind_act (record_calls (if tx_storage_mode tx = IN_MEMORY_ANALYTICAL
        then (if deleted_edges \<noteq> [] then [Collect_garbage_full_scan_edges] else [])
             @ (if deleted_vertices \<noteq> [] then [Collect_garbage_full_scan_vertices] else [])
        else [])) (\<lambda>_.
      ret (deleted_vertices, deleted_edges))))))))"

definition DeleteVertex :: "vertex_accessor \<Rightarrow> vertex_accessor option action" where
  "DeleteVertex vertex =
    bind_act (DetachDelete [vertex] [] False) (\<lambda>(vertices, edges).
    bind_act (ensure (length vertices \<le> 1 \<and> edges = []) Assertion_failed) (\<lambda>_.
      ret (case vertices of [] \<Rightarrow> None | a # _ \<Rightarrow> Some a)))"

text \<open>The code takes the first vertex without asking whether there is one.\<close>

definition DetachDeleteVertex :: "vertex_accessor \<Rightarrow> (vertex_accessor \<times> edge_accessor list) option action" where
  "DetachDeleteVertex vertex =
    bind_act (DetachDelete [vertex] [] True) (\<lambda>(vertices, edges).
    bind_act (ensure (length vertices \<le> 1) Assertion_failed) (\<lambda>_.
      case vertices of [] \<Rightarrow> fail Dangling_pointer | a # _ \<Rightarrow> ret (Some (a, edges))))"

definition DeleteEdge :: "edge_accessor \<Rightarrow> edge_accessor option action" where
  "DeleteEdge edge =
    bind_act (DetachDelete [] [edge] False) (\<lambda>(vertices, edges).
    bind_act (ensure (vertices = [] \<and> length edges \<le> 1) Assertion_failed) (\<lambda>_.
      ret (case edges of [] \<Rightarrow> None | a # _ \<Rightarrow> Some a)))"

end
