(* ===== verification/Transactions.thy ===== *)
theory Transactions
  imports GraphWrites TxnReplication
begin

text \<open>
  The life of a transaction in the in-memory storage (src/storage/v2/inmemory/storage.cpp):
  \<open>CreateTransaction\<close>, \<open>AdvanceCommand\<close>, the commit with its validation and replication branches,
  the flag cleanup for non-sequential deltas, the fast discard of deltas, \<open>Abort\<close> with its surgical
  removal of deltas from the middle of a chain, \<open>FinalizeTransaction\<close>, \<open>PeriodicCommit\<close> and the
  destructor of the accessor.  The outcomes of the validation of existence and unique constraints, of
  the write-ahead log and of replication are fields of \<open>commit_env\<close>.
\<close>

section \<open>Accessors\<close>

record accessor =
  acc_transaction :: transaction
  acc_commit_timestamp :: "nat option"
  acc_is_transaction_active :: bool

definition CreateTransaction :: "IsolationLevel \<Rightarrow> StorageMode \<Rightarrow> bool \<Rightarrow> db \<Rightarrow> transaction \<times> db" where
  "CreateTransaction isolation_level storage_mode has_active_constraints db =
    (Transaction_new (db_transaction_id db) (db_timestamp db) isolation_level storage_mode False has_active_constraints
       (tcs_container (db_type_constraints db)),
     db\<lparr>db_transaction_id := db_transaction_id db + 1, db_timestamp := db_timestamp db + 1\<rparr>)"

definition Accessor_new :: "IsolationLevel \<Rightarrow> StorageMode \<Rightarrow> bool \<Rightarrow> db \<Rightarrow> accessor \<times> db" where
  "Accessor_new isolation_level storage_mode has_active_constraints db =
    (case CreateTransaction isolation_level storage_mode has_active_constraints db of (tx, db') \<Rightarrow>
       (\<lparr>acc_transaction = tx, acc_commit_timestamp = None, acc_is_transaction_active = True\<rparr>, db'))"

definition AdvanceCommand :: "transaction \<Rightarrow> db \<Rightarrow> transaction \<times> db" where
  "AdvanceCommand tx db =
    (tx\<lparr>tx_cache := Cache_Clear (tx_cache tx), tx_command_id := tx_command_id tx + 1\<rparr>, call Point_AdvanceCommand db)"

definition GetCommitTimestamp :: "db \<Rightarrow> nat \<times> db" where
  "GetCommitTimestamp db = (db_timestamp db, db\<lparr>db_timestamp := db_timestamp db + 1\<rparr>)"

section \<open>The flag of non-sequential deltas\<close>

fun HasUncommitted_loop :: "delta_heap \<Rightarrow> nat \<Rightarrow> delta list \<Rightarrow> bool" where
  "HasUncommitted_loop h skip_transaction_id [] \<longleftrightarrow> False"
| "HasUncommitted_loop h skip_transaction_id (d # ds) \<longleftrightarrow>
    (if ts h d = skip_transaction_id then HasUncommitted_loop h skip_transaction_id ds
     else if IsDeltaNonSequential d
     then if kTransactionInitialId \<le> ts h d then True else HasUncommitted_loop h skip_transaction_id ds
     else False)"

definition HasUncommittedNonSequentialDeltas :: "delta_heap \<Rightarrow> vertex \<Rightarrow> nat \<Rightarrow> bool" where
  "HasUncommittedNonSequentialDeltas h v skip_transaction_id = HasUncommitted_loop h skip_transaction_id (v_deltas v)"

definition refresh_flag :: "nat \<Rightarrow> delta_heap \<Rightarrow> vertex \<Rightarrow> vertex" where
  "refresh_flag transaction_id h v =
    (if v_has_uncommitted_non_sequential_deltas v
     then v\<lparr>v_has_uncommitted_non_sequential_deltas := HasUncommittedNonSequentialDeltas h v transaction_id\<rparr> else v)"

text \<open>The predecessor of a delta in its chain: the object, or the delta before it.\<close>

datatype prev = Prev_object | Prev_delta delta | Prev_null

fun prev_in :: "nat \<Rightarrow> prev \<Rightarrow> delta list \<Rightarrow> prev" where
  "prev_in uid p [] = Prev_null"
| "prev_in uid p (d # ds) = (if d_uid d = uid then p else prev_in uid (Prev_delta d) ds)"

definition delta_in :: "nat \<Rightarrow> delta list \<Rightarrow> delta option" where
  "delta_in uid ds = find (\<lambda>d. d_uid d = uid) ds"

text \<open>The vertices whose flag a committing transaction looks at again; \<open>GetVertexFromDelta\<close> walks to the vertex of
  the chain, which the owner of the delta is.\<close>

definition checks_flag :: "db \<Rightarrow> delta_owner \<times> nat \<Rightarrow> gid option" where
  "checks_flag db od = (case od of (Owner_edge _, _) \<Rightarrow> None
     | (Owner_vertex g, uid) \<Rightarrow> (case db_vertices db g of None \<Rightarrow> None
        | Some v \<Rightarrow> (case prev_in uid Prev_object (v_deltas v) of
            Prev_object \<Rightarrow> Some g
          | Prev_delta _ \<Rightarrow> (case delta_in uid (v_deltas v) of
               Some d \<Rightarrow> if IsDeltaNonSequential d then Some g else None | None \<Rightarrow> None)
          | Prev_null \<Rightarrow> None)))"

definition refresh_vertex :: "nat \<Rightarrow> gid \<Rightarrow> db \<Rightarrow> db" where
  "refresh_vertex transaction_id g db =
    (case db_vertices db g of None \<Rightarrow> db | Some v \<Rightarrow> put_vertex (refresh_flag transaction_id (db_heap db) v) db)"

definition set_ci_timestamp :: "nat \<Rightarrow> nat \<Rightarrow> delta_heap \<Rightarrow> delta_heap" where
  "set_ci_timestamp ci t h = h\<lparr>h_commit_infos := (h_commit_infos h)(ci := (h_commit_infos h ci)\<lparr>ci_timestamp := t\<rparr>)\<rparr>"

definition set_ci_handled :: "nat \<Rightarrow> delta_heap \<Rightarrow> delta_heap" where
  "set_ci_handled ci h = h\<lparr>h_commit_infos := (h_commit_infos h)(ci := (h_commit_infos h ci)\<lparr>ci_non_seq_propagation := PROP_HANDLED\<rparr>)\<rparr>"

section \<open>Fast discard of deltas\<close>

text \<open>\<open>UnlinkAndRemoveDeltas\<close>: the head delta of an object takes the whole chain with it.\<close>

definition unlink_delta :: "delta_owner \<times> nat \<Rightarrow> db \<times> gid list \<times> gid list \<Rightarrow> db \<times> gid list \<times> gid list" where
  "unlink_delta od s = (case s of (db, current_deleted_edges, current_deleted_vertices) \<Rightarrow> (case od of
     (Owner_vertex g, uid) \<Rightarrow> (case db_vertices db g of None \<Rightarrow> s
       | Some v \<Rightarrow>
           if prev_in uid Prev_object (v_deltas v) = Prev_object
           then (put_vertex (v\<lparr>v_deltas := [], v_has_uncommitted_non_sequential_deltas := False\<rparr>) db, current_deleted_edges,
                 if v_deleted v then current_deleted_vertices @ [g] else current_deleted_vertices)
           else s)
   | (Owner_edge e, uid) \<Rightarrow> (case db_edges db e of None \<Rightarrow> s
       | Some x \<Rightarrow>
           if prev_in uid Prev_object (e_deltas x) = Prev_object
           then (put_edge (x\<lparr>e_deltas := []\<rparr>) db,
                 if e_deleted x then current_deleted_edges @ [e] else current_deleted_edges, current_deleted_vertices)
           else s)))"

definition UnlinkAndRemoveDeltas :: "(delta_owner \<times> nat) list \<Rightarrow> db \<times> gid list \<times> gid list \<Rightarrow> db \<times> gid list \<times> gid list" where
  "UnlinkAndRemoveDeltas deltas s = fold unlink_delta deltas s"

definition GCRapidDeltaCleanup :: "transaction \<Rightarrow> db \<Rightarrow> transaction \<times> db \<times> gid list \<times> gid list" where
  "GCRapidDeltaCleanup tx db =
    (let gc = db_gc db;
         linked_undo_buffers = gc_committed_transactions gc @ gc_waiting_deltas gc;
         db1 = db\<lparr>db_gc := gc\<lparr>gc_garbage_undo_buffers := [], gc_committed_transactions := [], gc_waiting_deltas := []\<rparr>\<rparr>;
         s1 = fold (\<lambda>b. UnlinkAndRemoveDeltas (gd_deltas b)) linked_undo_buffers (db1, [], []);
         (db2, es, vs) = UnlinkAndRemoveDeltas (tx_deltas tx) s1
     in (tx\<lparr>tx_deltas := []\<rparr>, db2, es, vs))"

definition FastDiscardOfDeltas :: "transaction \<Rightarrow> db \<Rightarrow> transaction \<times> db" where
  "FastDiscardOfDeltas tx db =
    (case GCRapidDeltaCleanup tx db of (tx', db', es, vs) \<Rightarrow>
       (tx', db'\<lparr>db_gc := (db_gc db')\<lparr>gc_deleted_vertices := gc_deleted_vertices (db_gc db') @ vs,
                   gc_deleted_edges := gc_deleted_edges (db_gc db') @ es\<rparr>\<rparr>))"

definition CheckForFastDiscardOfDeltas :: "bool \<Rightarrow> nat \<Rightarrow> transaction \<Rightarrow> db \<Rightarrow> transaction \<times> db" where
  "CheckForFastDiscardOfDeltas gc_lock_free commit_timestamp tx db =
    (let no_older_transactions = (OldestActive (db_commit_log db) = commit_timestamp);
         no_newer_transactions = (db_transaction_id db = tx_id tx + 1)
     in if no_older_transactions \<and> no_newer_transactions \<and> gc_lock_free then FastDiscardOfDeltas tx db else (tx, db))"

section \<open>Commit\<close>

datatype commit_error = ReplicaShouldNotWriteError | Existence_violation | Unique_violation | ReplicationError "replica_failure list" bool | Commit_assertion

text \<open>On whose behalf a transaction commits: a main with the clients of its replicas, a replica that applies a
  transaction of its main at the timestamp of the main, with or without two phases, or a user of a replica.\<close>

datatype commit_role = Main "client list" | ReplicaWrite nat bool | ReplicaRead

fun durability_allowed :: "commit_role \<Rightarrow> bool" where
  "durability_allowed ReplicaRead = False"
| "durability_allowed _ = True"

fun durable_timestamp :: "commit_role \<Rightarrow> nat \<Rightarrow> commit_error + nat" where
  "durable_timestamp (Main _) commit_timestamp = Inr commit_timestamp"
| "durable_timestamp (ReplicaWrite desired_commit_timestamp _) commit_timestamp = Inr desired_commit_timestamp"
| "durable_timestamp ReplicaRead commit_timestamp = Inl Commit_assertion"

text \<open>What the commit learns from the components outside the model.\<close>

record commit_env =
  ce_has_md_deltas :: bool
  ce_existence_ok :: bool
  ce_unique_ok :: bool
  ce_wal_initialized :: bool
  ce_role :: commit_role
  ce_gc_lock_free :: bool
  ce_text_changes :: bool

definition mark_finished :: "nat \<Rightarrow> db \<Rightarrow> db" where
  "mark_finished i db = db\<lparr>db_commit_log := MarkFinished i (db_commit_log db)\<rparr>"

definition FinalizeCommitPhase :: "commit_env \<Rightarrow> bool \<Rightarrow> nat \<Rightarrow> accessor \<Rightarrow> db \<Rightarrow> (commit_error + unit) \<times> accessor \<times> db" where
  "FinalizeCommitPhase env needs_wal_update durability_commit_timestamp acc db =
    (let tx = acc_transaction acc;
         schema = cfg_enable_schema_info (db_config db);
         db1 = calls ((if schema then [Schema_queue_update durability_commit_timestamp] else [])
                 @ (if needs_wal_update then [Wal_UpdateCommitStatus] else [])) db
     in case (tx_commit_info tx, acc_commit_timestamp acc) of
          (Some ci, Some commit_timestamp) \<Rightarrow>
            let db2 = db1\<lparr>db_heap := set_ci_timestamp ci commit_timestamp (db_heap db1)\<rparr>;
                prior_state = ci_non_seq_propagation (h_commit_infos (db_heap db2) ci);
                db3 = db2\<lparr>db_heap := set_ci_handled ci (db_heap db2)\<rparr>;
                needs_vertex_flag_cleanup = (tx_has_non_sequential_deltas tx \<or> prior_state = PROP_PENDING);
                db4 = (if needs_vertex_flag_cleanup
                       then fold (refresh_vertex (tx_id tx)) (remdups (List.map_filter (checks_flag db3) (tx_deltas tx))) db3
                       else db3);
                db5 = calls ([Commit_ts_info_update durability_commit_timestamp, Point_InstallNewPointIndex,
                              Commit_callbacks_RunAll commit_timestamp]
                        @ (if tx_storage_mode tx = IN_MEMORY_TRANSACTIONAL then [Async_DispatchRequests] else [])) db4;
                db6 = mark_finished (tx_start tx) db5;
                db7 = calls (if schema then [Schema_ProcessPendingUpdates durability_commit_timestamp] else []) db6;
                (tx', db8) = CheckForFastDiscardOfDeltas (ce_gc_lock_free env) commit_timestamp tx db7;
                db9 = calls (if ce_text_changes env then [Text_ApplyTrackedChanges] else []) db8
            in (Inr (), acc\<lparr>acc_transaction := tx', acc_is_transaction_active := False\<rparr>, db9)
        | _ \<Rightarrow> (Inl Commit_assertion, acc, db1))"

section \<open>Abort\<close>

record abort_state =
  ab_db :: db
  ab_deleted_vertices :: "gid list"
  ab_deleted_edges :: "gid list"

definition own_delta :: "delta_heap \<Rightarrow> nat \<Rightarrow> delta \<Rightarrow> bool" where
  "own_delta h transaction_id d \<longleftrightarrow> ts h d = transaction_id"

definition undo_edge_delta :: "delta \<Rightarrow> edge \<times> abort_state \<Rightarrow> storage_error + edge \<times> abort_state" where
  "undo_edge_delta d s = (case s of (x, st) \<Rightarrow> (case d_op d of
     SET_PROPERTY p w out_vertex \<Rightarrow>
       Inr (x\<lparr>e_properties := set_prop p w (e_properties x)\<rparr>,
            st\<lparr>ab_db := call (Index_CollectOnEdgePropertyChange p w (e_gid x)) (ab_db st)\<rparr>)
   | DELETE_DESERIALIZED_OBJECT \<Rightarrow> Inr (x\<lparr>e_deleted := True\<rparr>, st\<lparr>ab_deleted_edges := ab_deleted_edges st @ [e_gid x]\<rparr>)
   | DELETE_OBJECT \<Rightarrow> Inr (x\<lparr>e_deleted := True\<rparr>, st\<lparr>ab_deleted_edges := ab_deleted_edges st @ [e_gid x]\<rparr>)
   | RECREATE_OBJECT \<Rightarrow> Inr (x\<lparr>e_deleted := False\<rparr>, st)
   | _ \<Rightarrow> Inl Assertion_failed))"

definition abort_edge :: "nat \<Rightarrow> delta_owner \<times> nat \<Rightarrow> abort_state \<Rightarrow> storage_error + abort_state" where
  "abort_edge transaction_id od st = (case od of
     (Owner_vertex _, _) \<Rightarrow> Inr st
   | (Owner_edge e, uid) \<Rightarrow> (case db_edges (ab_db st) e of None \<Rightarrow> Inr st
      | Some x \<Rightarrow>
          if prev_in uid Prev_object (e_deltas x) \<noteq> Prev_object then Inr st
          else
            let own = own_delta (db_heap (ab_db st)) transaction_id
            in bind_result (apply_all undo_edge_delta (takeWhile own (e_deltas x)) (x, st))
                 (\<lambda>(x', st'). Inr (st'\<lparr>ab_db := put_edge (x'\<lparr>e_deltas := dropWhile own (e_deltas x)\<rparr>) (ab_db st')\<rparr>))))"

text \<open>One delta undone on a vertex; the removals of edges are collected and done in bulk.\<close>

record undo_state =
  us_vertex :: vertex
  us_remove_in :: "edge_ref list"
  us_remove_out :: "edge_ref list"
  us_abort :: abort_state

definition on_db :: "(db \<Rightarrow> db) \<Rightarrow> undo_state \<Rightarrow> undo_state" where
  "on_db f s = s\<lparr>us_abort := (us_abort s)\<lparr>ab_db := f (ab_db (us_abort s))\<rparr>\<rparr>"

definition add_edge_count :: "int \<Rightarrow> db \<Rightarrow> db" where
  "add_edge_count n db = db\<lparr>db_edge_count := db_edge_count db + n\<rparr>"

definition undo_vertex_delta :: "delta \<Rightarrow> undo_state \<Rightarrow> storage_error + undo_state" where
  "undo_vertex_delta d s = (let v = us_vertex s; g = v_gid v in case d_op d of
     REMOVE_LABEL l \<Rightarrow> (case swap_remove l (v_labels v) of None \<Rightarrow> Inl Assertion_failed
       | Some ls \<Rightarrow> Inr (on_db (\<lambda>db. call (Index_CollectOnLabelRemoval l g) (UpdateLabelCount l (-1) db))
                     (s\<lparr>us_vertex := v\<lparr>v_labels := ls\<rparr>\<rparr>)))
   | ADD_LABEL l \<Rightarrow>
       if l \<in> set (v_labels v) then Inl Assertion_failed
       else Inr (on_db (\<lambda>db. call (Index_CollectOnLabelAddition l g) (UpdateLabelCount l 1 db))
              (s\<lparr>us_vertex := v\<lparr>v_labels := v_labels v @ [l]\<rparr>\<rparr>))
   | SET_PROPERTY p w out_vertex \<Rightarrow>
       Inr (on_db (call (Index_CollectOnPropertyChange p w g)) (s\<lparr>us_vertex := v\<lparr>v_properties := set_prop p w (v_properties v)\<rparr>\<rparr>))
   | ADD_IN_EDGE t w e st \<Rightarrow>
       if (t, w, e) \<in> set (v_in_edges v) then Inl Assertion_failed
       else Inr (s\<lparr>us_vertex := v\<lparr>v_in_edges := v_in_edges v @ [(t, w, e)]\<rparr>\<rparr>)
   | ADD_OUT_EDGE t w e st \<Rightarrow>
       if (t, w, e) \<in> set (v_out_edges v) then Inl Assertion_failed
       else Inr (on_db (add_edge_count 1) (s\<lparr>us_vertex := v\<lparr>v_out_edges := v_out_edges v @ [(t, w, e)]\<rparr>\<rparr>))
   | REMOVE_IN_EDGE t w e st \<Rightarrow> Inr (s\<lparr>us_remove_in := set_insert e (us_remove_in s)\<rparr>)
   | REMOVE_OUT_EDGE t w e st \<Rightarrow>
       Inr (on_db (\<lambda>db. let db1 = add_edge_count (-1) db
              in if cfg_properties_on_edges (db_config db1) then call (Index_CollectOnEdgeRemoval t g w e) db1 else db1)
              (s\<lparr>us_remove_out := set_insert e (us_remove_out s)\<rparr>))
   | RECREATE_OBJECT \<Rightarrow>
       Inr (on_db (fold (\<lambda>l. UpdateLabelCount l 1) (v_labels v)) (s\<lparr>us_vertex := v\<lparr>v_deleted := False\<rparr>\<rparr>))
   | _ \<Rightarrow>
       Inr (on_db (fold (\<lambda>l. UpdateLabelCount l (-1)) (v_labels v))
         (s\<lparr>us_vertex := v\<lparr>v_deleted := True\<rparr>,
            us_abort := (us_abort s)\<lparr>ab_deleted_vertices := ab_deleted_vertices (us_abort s) @ [g]\<rparr>\<rparr>)))"

definition remove_edges :: "edge_ref list \<Rightarrow> edge_entry list \<Rightarrow> edge_entry list" where
  "remove_edges es entries = filter (\<lambda>(t, w, e). e \<notin> set es) entries"

text \<open>The block of own deltas that starts at \<open>uid\<close> is undone and cut out of the chain.\<close>

definition process_vertex_deltas :: "nat \<Rightarrow> nat \<Rightarrow> vertex \<Rightarrow> abort_state \<Rightarrow> storage_error + abort_state" where
  "process_vertex_deltas transaction_id uid v st =
    (let h = db_heap (ab_db st);
         before = takeWhile (\<lambda>d. d_uid d \<noteq> uid) (v_deltas v);
         start = dropWhile (\<lambda>d. d_uid d \<noteq> uid) (v_deltas v);
         block = takeWhile (own_delta h transaction_id) start;
         current = dropWhile (own_delta h transaction_id) start
     in bind_result (apply_all undo_vertex_delta block \<lparr>us_vertex = v, us_remove_in = [], us_remove_out = [], us_abort = st\<rparr>)
          (\<lambda>s. let v1 = us_vertex s;
                   v2 = v1\<lparr>v_in_edges := remove_edges (us_remove_in s) (v_in_edges v1),
                           v_out_edges := remove_edges (us_remove_out s) (v_out_edges v1), v_deltas := before @ current\<rparr>
               in Inr ((us_abort s)\<lparr>ab_db := put_vertex (refresh_flag transaction_id h v2) (ab_db (us_abort s))\<rparr>)))"

definition abort_vertex :: "nat \<Rightarrow> delta_owner \<times> nat \<Rightarrow> abort_state \<Rightarrow> storage_error + abort_state" where
  "abort_vertex transaction_id od st = (case od of
     (Owner_edge _, _) \<Rightarrow> Inr st
   | (Owner_vertex g, uid) \<Rightarrow> (case db_vertices (ab_db st) g of None \<Rightarrow> Inr st
      | Some v \<Rightarrow> (case prev_in uid Prev_object (v_deltas v) of
          Prev_object \<Rightarrow> process_vertex_deltas transaction_id uid v st
        | Prev_delta d \<Rightarrow>
            if ts (db_heap (ab_db st)) d \<noteq> transaction_id then process_vertex_deltas transaction_id uid v st else Inr st
        | Prev_null \<Rightarrow> Inr st)))"

definition remove_keys :: "gid list \<Rightarrow> (gid \<rightharpoonup> 'a) \<Rightarrow> (gid \<rightharpoonup> 'a)" where
  "remove_keys gs m = (\<lambda>g. if g \<in> set gs then None else m g)"

text \<open>The objects, with the unique constraints cleared before and the indices after.\<close>

definition abort_objects :: "transaction \<Rightarrow> db \<Rightarrow> storage_error + db" where
  "abort_objects tx db =
    (let db1 = calls (if tx_constraint_verification_info tx then [Unique_AbortEntries (tx_start tx)] else []) db
     in bind_result (apply_all (abort_edge (tx_id tx)) (tx_deltas tx) \<lparr>ab_db = db1, ab_deleted_vertices = [], ab_deleted_edges = []\<rparr>)
          (\<lambda>st1. bind_result (apply_all (abort_vertex (tx_id tx)) (tx_deltas tx) st1)
            (\<lambda>st2.
              let db2 = ab_db st2;
                  gc = db_gc db2;
                  db3 = db2\<lparr>db_gc := gc\<lparr>gc_garbage_undo_buffers := gc_garbage_undo_buffers gc @
                          [GCDeltas_new (db_heap db2) (db_timestamp db2) (tx_deltas tx) (tx_commit_info tx) (tx_id tx)]\<rparr>\<rparr>;
                  db4 = call (Index_AbortProcess (tx_start tx)) db3;
                  db5 = (if cfg_enable_edges_metadata (db_config db4)
                         then db4\<lparr>db_edges_metadata := remove_keys (ab_deleted_edges st2) (db_edges_metadata db4)\<rparr> else db4)
              in Inr (db5\<lparr>db_vertices := remove_keys (ab_deleted_vertices st2) (db_vertices db5),
                          db_edges := remove_keys (ab_deleted_edges st2) (db_edges db5)\<rparr>))))"

definition Abort :: "accessor \<Rightarrow> db \<Rightarrow> storage_error + accessor \<times> db" where
  "Abort acc db =
    (if \<not> acc_is_transaction_active acc then Inl Assertion_failed
     else
       let tx = acc_transaction acc;
           db1 = (case tx_commit_info tx of None \<Rightarrow> db | Some ci \<Rightarrow> db\<lparr>db_heap := set_ci_handled ci (db_heap db)\<rparr>)
       in bind_result (if tx_deltas tx = [] then Inr (tx, db1)
                       else bind_result (abort_objects tx db1) (\<lambda>db2. Inr (tx\<lparr>tx_deltas := [], tx_commit_info := None\<rparr>, db2)))
            (\<lambda>(tx', db3). Inr (acc\<lparr>acc_transaction := tx', acc_is_transaction_active := False\<rparr>,
                              mark_finished (tx_start tx) (call Abort_callbacks_RunAll db3))))"

definition AbortAndResetCommitTs :: "accessor \<Rightarrow> db \<Rightarrow> storage_error + accessor \<times> db" where
  "AbortAndResetCommitTs acc db =
    bind_result (Abort acc db) (\<lambda>(acc', db').
      case acc_commit_timestamp acc' of None \<Rightarrow> Inl Assertion_failed
      | Some t \<Rightarrow> Inr (acc'\<lparr>acc_commit_timestamp := None\<rparr>, mark_finished t db'))"

section \<open>Committing\<close>

type_synonym commit_result = "(commit_error + unit) \<times> accessor \<times> db"

definition abort_with :: "commit_error \<Rightarrow> (storage_error + accessor \<times> db) \<Rightarrow> accessor \<Rightarrow> db \<Rightarrow> commit_result" where
  "abort_with e r acc db = (case r of Inl _ \<Rightarrow> (Inl Commit_assertion, acc, db) | Inr (acc', db') \<Rightarrow> (Inl e, acc', db'))"

definition ensure_commit_info :: "accessor \<Rightarrow> db \<Rightarrow> accessor \<times> db" where
  "ensure_commit_info acc db =
    (case EnsureCommitInfoExists (acc_transaction acc) (db_heap db) of (tx, h) \<Rightarrow>
       (acc\<lparr>acc_transaction := tx\<rparr>, db\<lparr>db_heap := h\<rparr>))"

text \<open>What \<open>HandleDurabilityAndReplicate\<close> does to the write-ahead log before it ships the deltas.\<close>

definition wal_calls :: "nat \<Rightarrow> bool \<Rightarrow> side_call list" where
  "wal_calls t two_phase_commit = Wal_AppendTransaction t (\<not> two_phase_commit) # (if two_phase_commit then [] else [Wal_Finalize])"

text \<open>The commit on a main: with a STRICT_SYNC replica it commits only when all replicas voted for it, and tells
  them the decision.\<close>

definition commit_main :: "commit_env \<Rightarrow> client list \<Rightarrow> nat \<Rightarrow> accessor \<Rightarrow> db \<Rightarrow> commit_result \<times> replicating_txn" where
  "commit_main env clients t acc db0 =
    (let txn = TransactionReplication clients;
         db = calls (wal_calls t (rt_run_two_phase_commit txn)) db0;
         (repl_prepare_phase_ok, txn1) = ShipDeltas clients txn
     in if \<not> rt_run_two_phase_commit txn1
        then
          (case FinalizeCommitPhase env False t acc db of
             (Inl e, acc1, db1) \<Rightarrow> ((Inl e, acc1, db1), txn1)
           | (Inr _, acc1, db1) \<Rightarrow>
               let (failures, txn2) = CollectAllFailures txn1; txn3 = UpdateCommitTsInfo clients txn2
               in ((if failures \<noteq> [] then Inl (ReplicationError failures True) else Inr (), acc1, db1), txn3))
        else
          (case (if repl_prepare_phase_ok then FinalizeCommitPhase env True t acc db else (Inr (), acc, db)) of
             (Inl e, acc1, db1) \<Rightarrow> ((Inl e, acc1, db1), txn1)
           | (Inr _, acc1, db1) \<Rightarrow>
               let db2 = call Wal_Finalize db1;
                   (_, txn2) = FinalizeReplication repl_prepare_phase_ok clients txn1;
                   (failures, txn3) = CollectAllFailures txn2;
                   txn4 = (if repl_prepare_phase_ok then UpdateCommitTsInfo clients txn3 else txn3)
               in (if failures \<noteq> [] then abort_with (ReplicationError failures False) (AbortAndResetCommitTs acc1 db2) acc1 db2
                   else (Inr (), acc1, db2), txn4)))"

definition PrepareForCommitPhase :: "commit_env \<Rightarrow> accessor \<Rightarrow> db \<Rightarrow> commit_result" where
  "PrepareForCommitPhase env acc db =
    (let tx = acc_transaction acc
     in if \<not> acc_is_transaction_active acc \<or> tx_has_serialization_error tx then (Inl Commit_assertion, acc, db)
        else if tx_deltas tx = [] \<and> \<not> ce_has_md_deltas env then (Inr (), acc, mark_finished (tx_start tx) db)
        else
          let (acc1, db1) = ensure_commit_info acc db
          in if \<not> durability_allowed (ce_role env) then abort_with ReplicaShouldNotWriteError (Abort acc1 db1) acc1 db1
             else if \<not> ce_existence_ok env then abort_with Existence_violation (Abort acc1 db1) acc1 db1
             else
               let (commit_timestamp, db2) = GetCommitTimestamp db1; acc2 = acc1\<lparr>acc_commit_timestamp := Some commit_timestamp\<rparr>
               in if \<not> ce_unique_ok env then abort_with Unique_violation (AbortAndResetCommitTs acc2 db2) acc2 db2
                  else (case durable_timestamp (ce_role env) commit_timestamp of
                      Inl e \<Rightarrow> (Inl e, acc2, db2)
                    | Inr t \<Rightarrow>
                        if \<not> ce_wal_initialized env then FinalizeCommitPhase env False t acc2 db2
                        else (case ce_role env of
                            ReplicaWrite _ two_phase_commit \<Rightarrow>
                              let db3 = calls (wal_calls t two_phase_commit) db2
                              in if two_phase_commit then (Inr (), acc2, db3) else FinalizeCommitPhase env False t acc2 db3
                          | Main clients \<Rightarrow> fst (commit_main env clients t acc2 db2)
                          | ReplicaRead \<Rightarrow> (Inl Commit_assertion, acc2, db2))))"

definition FinalizeTransaction :: "accessor \<Rightarrow> db \<Rightarrow> accessor \<times> db" where
  "FinalizeTransaction acc db =
    (case acc_commit_timestamp acc of
       None \<Rightarrow> (acc, db)
     | Some t \<Rightarrow>
         let db1 = mark_finished t db;
             tx = acc_transaction acc;
             gc = db_gc db1;
             buffer = GCDeltas_new (db_heap db1) 0 (tx_deltas tx) (tx_commit_info tx) (tx_id tx)
         in if tx_deltas tx = [] then (acc\<lparr>acc_commit_timestamp := None\<rparr>, db1)
            else (acc\<lparr>acc_commit_timestamp := None, acc_transaction := tx\<lparr>tx_deltas := [], tx_commit_info := None\<rparr>\<rparr>,
                  db1\<lparr>db_gc := (if tx_has_non_sequential_deltas tx
                               then gc\<lparr>gc_waiting_deltas := gc_waiting_deltas gc @ [buffer]\<rparr>
                               else gc\<lparr>gc_committed_transactions := gc_committed_transactions gc @ [buffer]\<rparr>)\<rparr>))"

definition fatal_error :: "commit_error + unit \<Rightarrow> bool" where
  "fatal_error r = (case r of Inr _ \<Rightarrow> False | Inl (ReplicationError _ committed) \<Rightarrow> \<not> committed | Inl _ \<Rightarrow> True)"

text \<open>The transaction object is kept and gets a new id and start timestamp; everything else of it stays.\<close>

definition PeriodicCommit :: "commit_env \<Rightarrow> accessor \<Rightarrow> db \<Rightarrow> commit_result" where
  "PeriodicCommit env acc db =
    (case PrepareForCommitPhase env acc db of (r, acc1, db1) \<Rightarrow>
       if fatal_error r then (r, acc1, db1)
       else
         let (acc2, db2) = FinalizeTransaction acc1 db1;
             tx = acc_transaction acc2;
             (new_transaction, db3) = CreateTransaction (tx_isolation_level tx) (tx_storage_mode tx) False db2
         in (r, acc2\<lparr>acc_transaction := tx\<lparr>tx_start := tx_start new_transaction, tx_id := tx_id new_transaction, tx_commit_info := None\<rparr>,
                    acc_is_transaction_active := True\<rparr>, db3))"

definition Accessor_destroy :: "accessor \<Rightarrow> db \<Rightarrow> storage_error + db" where
  "Accessor_destroy acc db =
    bind_result (if acc_is_transaction_active acc
                 then bind_result (Abort acc db) (\<lambda>(acc', db'). Inr (acc'\<lparr>acc_commit_timestamp := None\<rparr>, db'))
                 else Inr (acc, db))
      (\<lambda>(acc1, db1). Inr (snd (FinalizeTransaction acc1 db1)))"

end
