(* ===== verification/Chains.thy ===== *)
theory Chains
  imports Versions
begin

text \<open>
  Delta chains under concurrent transactions (src/storage/v2/mvcc.hpp), for executions in which no
  delta is non-sequential: what the write checks guarantee about the order of a chain, which deltas
  a transaction undoes, and how pushing deltas, committing and aborting change what others see.
\<close>

section \<open>Well-formed chains\<close>

text \<open>The active transactions by id.\<close>

type_synonym actives = "nat \<rightharpoonup> transaction"

text \<open>A delta above another in a chain: of the same transaction, or the lower one is committed before the
  upper one was, or before the transaction of the upper one started.\<close>

definition over :: "actives \<Rightarrow> delta_heap \<Rightarrow> delta \<Rightarrow> delta \<Rightarrow> bool" where
  "over A h d e \<longleftrightarrow> d_commit_info d = d_commit_info e \<or>
    (A (d_commit_info e) = None \<and> (case A (d_commit_info d) of Some T \<Rightarrow> ts h e < tx_start T | None \<Rightarrow> ts h e < ts h d))"

definition delta_ok :: "actives \<Rightarrow> delta_heap \<Rightarrow> nat \<Rightarrow> delta \<Rightarrow> bool" where
  "delta_ok A h now d \<longleftrightarrow> \<not> IsDeltaNonSequential d \<and> d_uid d < h_next_delta h \<and>
    (case A (d_commit_info d) of
       Some T \<Rightarrow> tx_commit_info T = Some (d_commit_info d) \<and> d_command_id d \<le> tx_command_id T
     | None \<Rightarrow> ts h d < now)"

definition chain_ok :: "actives \<Rightarrow> delta_heap \<Rightarrow> nat \<Rightarrow> delta list \<Rightarrow> bool" where
  "chain_ok A h now ds \<longleftrightarrow> (\<forall>d \<in> set ds. delta_ok A h now d) \<and> sorted_wrt (over A h) ds \<and> distinct (map d_uid ds)"

definition tx_ok :: "delta_heap \<Rightarrow> nat \<Rightarrow> nat \<Rightarrow> nat \<Rightarrow> transaction \<Rightarrow> bool" where
  "tx_ok h now next_id i T \<longleftrightarrow> tx_id T = i \<and> kTransactionInitialId \<le> i \<and> i < next_id \<and> tx_start T < now \<and>
    (tx_commit_info T = None \<or> tx_commit_info T = Some i \<and> ci_timestamp (h_commit_infos h i) = i) \<and>
    tx_storage_mode T = IN_MEMORY_TRANSACTIONAL"

definition txs_ok :: "actives \<Rightarrow> delta_heap \<Rightarrow> nat \<Rightarrow> nat \<Rightarrow> bool" where
  "txs_ok A h now next_id \<longleftrightarrow> now \<le> kTransactionInitialId \<and> (\<forall>i T. A i = Some T \<longrightarrow> tx_ok h now next_id i T)"

lemma txs_okD: "txs_ok A h now next_id \<Longrightarrow> A i = Some T \<Longrightarrow> tx_ok h now next_id i T"
  by (simp add: txs_ok_def)

lemma own_timestamp_ok: "tx_ok h now next_id i T \<Longrightarrow> own_timestamp h T = i"
  by (auto simp: tx_ok_def own_timestamp_def)

lemma ts_active:
  assumes "txs_ok A h now next_id" and "delta_ok A h now d" and "A (d_commit_info d) = Some T"
  shows "ts h d = d_commit_info d"
  using txs_okD[OF assms(1,3)] assms(2,3) by (auto simp: tx_ok_def delta_ok_def ts_def)

text \<open>What an active transaction sees of a delta.\<close>

lemma delta_visible_iff:
  assumes "txs_ok A h now next_id" and "delta_ok A h now d" and u: "A j = Some u"
  shows "delta_visible h u view d \<longleftrightarrow>
    (if d_commit_info d = j
     then (case view of NEW \<Rightarrow> d_command_id d \<le> tx_command_id u
           | OLD \<Rightarrow> d_command_id d < tx_command_id u \<or> d_command_id d = tx_command_id u \<and> d_op d = DELETE_DESERIALIZED_OBJECT)
     else A (d_commit_info d) = None \<and>
       (tx_isolation_level u = SNAPSHOT_ISOLATION \<and> ts h d < tx_start u \<or> tx_isolation_level u = READ_COMMITTED))"
proof -
  have ok: "tx_ok h now next_id j u" and now: "now \<le> kTransactionInitialId"
    using assms by (auto simp: txs_ok_def)
  have own: "own_timestamp h u = j" "kTransactionInitialId \<le> j" "tx_start u < now"
    using own_timestamp_ok[OF ok] ok by (auto simp: tx_ok_def)
  show ?thesis
  proof (cases "A (d_commit_info d)")
    case None
    then have "ts h d < now" and "d_commit_info d \<noteq> j"
      using assms(2) u by (auto simp: delta_ok_def)
    then show ?thesis
      using own now None by (cases view) (auto simp: delta_visible_def)
  next
    case (Some T)
    then have t: "ts h d = d_commit_info d" and "kTransactionInitialId \<le> d_commit_info d"
      using ts_active[OF assms(1,2) Some] txs_okD[OF assms(1) Some] by (auto simp: tx_ok_def)
    then have "\<not> ts h d < tx_start u" "\<not> ts h d < kTransactionInitialId"
      using own now by auto
    then show ?thesis
      using own Some t by (cases view) (auto simp: delta_visible_def)
  qed
qed

section \<open>Write checks\<close>

text \<open>The condition under which a transaction may put a sequential delta on a chain.\<close>

definition writable :: "delta_heap \<Rightarrow> transaction \<Rightarrow> delta list \<Rightarrow> bool" where
  "writable h T ds \<longleftrightarrow> (case ds of [] \<Rightarrow> True | d # _ \<Rightarrow> ts h d = tx_id T \<or> ts h d < tx_start T)"

lemma PrepareForWrite_writable:
  assumes "chain_ok A h now ds"
  shows "fst (PrepareForWrite h T ds False) \<longleftrightarrow> writable h T ds"
  using assms by (cases ds) (auto simp: PrepareForWrite_def writable_def chain_ok_def delta_ok_def)

lemma PrepareForWrite_tx:
  "snd (PrepareForWrite h T ds flag) = (if fst (PrepareForWrite h T ds flag) then T else T\<lparr>tx_has_serialization_error := True\<rparr>)"
  by (cases ds) (auto simp: PrepareForWrite_def)

lemma PrepareForNonSequentialWrite_writable:
  assumes "chain_ok A h now ds"
  shows "PrepareForNonSequentialWrite h T ds False = (WR_SUCCESS, T, False) \<longleftrightarrow> writable h T ds"
    and "fst (PrepareForNonSequentialWrite h T ds False) = WR_SUCCESS \<longleftrightarrow> writable h T ds"
  using assms by (cases ds; auto simp: PrepareForNonSequentialWrite_def writable_def chain_ok_def delta_ok_def)+

text \<open>All below the new delta is the transaction's own or committed before it started.\<close>

lemma writable_below:
  assumes inv: "txs_ok A h now next_id" and "chain_ok A h now ds" and T: "A i = Some T" and w: "writable h T ds"
    and e: "e \<in> set ds"
  shows "d_commit_info e = i \<or> A (d_commit_info e) = None \<and> ts h e < tx_start T"
proof (cases ds)
  case Nil
  then show ?thesis
    using e by simp
next
  case (Cons d ds')
  have ok: "tx_ok h now next_id i T" and d: "delta_ok A h now d" and now: "now \<le> kTransactionInitialId"
    using assms Cons by (auto simp: txs_ok_def chain_ok_def)
  have over: "e = d \<or> over A h d e"
    using assms(2) e Cons by (auto simp: chain_ok_def)
  show ?thesis
  proof (cases "A (d_commit_info d)")
    case None
    then have "ts h d < tx_start T"
      using w d ok now Cons by (auto simp: writable_def tx_ok_def delta_ok_def)
    then show ?thesis
      using over None by (auto simp: over_def ts_def)
  next
    case (Some U)
    then have "ts h d = d_commit_info d" and "kTransactionInitialId \<le> d_commit_info d"
      using ts_active[OF inv d Some] txs_okD[OF inv Some] by (auto simp: tx_ok_def)
    then have "d_commit_info d = i"
      using w ok now Cons by (auto simp: writable_def tx_ok_def)
    then show ?thesis
      using over T by (auto simp: over_def)
  qed
qed

text \<open>A transaction that may write an object undoes nothing of it: it sees the current state.\<close>

lemma writable_sees_current:
  assumes "txs_ok A h now next_id" and "chain_ok A h now ds" and T: "A i = Some T" and "writable h T ds"
  shows "deltas_for h T NEW ds = []"
proof -
  have "\<forall>d \<in> set ds. delta_ok A h now d"
    using assms(2) by (simp add: chain_ok_def)
  then have "delta_visible h T NEW d \<and> \<not> IsDeltaNonSequential d" if "d \<in> set ds" "tx_isolation_level T \<noteq> READ_UNCOMMITTED" for d
    using that writable_below[OF assms that(1)] delta_visible_iff[OF assms(1) _ T, of d NEW] T
    by (cases "tx_isolation_level T") (auto simp: delta_ok_def)
  then show ?thesis
    by (cases ds) (auto simp: deltas_for_def)
qed

section \<open>Steps of one transaction\<close>

text \<open>What a transaction may do to its own record and to the heap between its start and its end.\<close>

definition tx_step :: "transaction \<Rightarrow> delta_heap \<Rightarrow> transaction \<Rightarrow> delta_heap \<Rightarrow> bool" where
  "tx_step T h T' h' \<longleftrightarrow> tx_id T' = tx_id T \<and> tx_start T' = tx_start T \<and> tx_isolation_level T' = tx_isolation_level T \<and>
    tx_storage_mode T' = tx_storage_mode T \<and> tx_command_id T \<le> tx_command_id T' \<and>
    (\<forall>k. k \<noteq> tx_id T \<longrightarrow> ci_timestamp (h_commit_infos h' k) = ci_timestamp (h_commit_infos h k)) \<and>
    (tx_commit_info T' = None \<and> tx_commit_info T = None \<or>
     tx_commit_info T' = Some (tx_id T) \<and> ci_timestamp (h_commit_infos h' (tx_id T)) = tx_id T) \<and>
    h_next_delta h \<le> h_next_delta h'"

lemma tx_step_refl: "tx_ok h now next_id i T \<Longrightarrow> tx_step T h T h"
  by (auto simp: tx_step_def tx_ok_def)

lemma tx_step_trans: "tx_step T h T' h' \<Longrightarrow> tx_step T' h' T'' h'' \<Longrightarrow> tx_step T h T'' h''"
  by (auto simp: tx_step_def)

lemma tx_step_ts:
  assumes "txs_ok A h now next_id" and "A i = Some T" and "tx_step T h T' h'" and "delta_ok A h now d"
  shows "ts h' d = ts h d"
proof (cases "d_commit_info d = i")
  case True
  then show ?thesis
    using assms txs_okD[OF assms(1,2)] by (auto simp: tx_step_def tx_ok_def delta_ok_def ts_def)
next
  case False
  then show ?thesis
    using assms txs_okD[OF assms(1,2)] by (auto simp: tx_step_def tx_ok_def ts_def)
qed

lemma tx_step_txs_ok:
  assumes "txs_ok A h now next_id" and "A i = Some T" and "tx_step T h T' h'"
  shows "txs_ok (A(i \<mapsto> T')) h' now next_id"
proof -
  have T: "tx_ok h now next_id i T"
    by (rule txs_okD[OF assms(1,2)])
  have "tx_ok h' now next_id j U" if "(A(i \<mapsto> T')) j = Some U" for j U
  proof (cases "j = i")
    case True
    then show ?thesis
      using T assms(3) that by (auto simp: tx_ok_def tx_step_def)
  next
    case False
    then have "tx_ok h now next_id j U"
      using txs_okD[OF assms(1), of j U] that by simp
    then show ?thesis
      using T assms(3) False by (auto simp: tx_ok_def tx_step_def)
  qed
  then show ?thesis
    using assms(1) by (simp add: txs_ok_def)
qed

lemma tx_step_delta_ok:
  assumes "txs_ok A h now next_id" and "A i = Some T" and "tx_step T h T' h'" and "delta_ok A h now d"
  shows "delta_ok (A(i \<mapsto> T')) h' now d"
proof -
  have "tx_id T = i"
    using txs_okD[OF assms(1,2)] by (simp add: tx_ok_def)
  then show ?thesis
    using assms(2-4) tx_step_ts[OF assms] by (auto simp: delta_ok_def tx_step_def split: option.splits)
qed

lemma tx_step_over:
  assumes "txs_ok A h now next_id" and "A i = Some T" and "tx_step T h T' h'" and "delta_ok A h now d" and "delta_ok A h now e"
    and "over A h d e"
  shows "over (A(i \<mapsto> T')) h' d e"
  using assms(2,3,6) tx_step_ts[OF assms(1-4)] tx_step_ts[OF assms(1-3,5)]
  by (auto simp: over_def tx_step_def split: option.splits if_splits)

lemma tx_step_chain_ok:
  assumes "txs_ok A h now next_id" and "A i = Some T" and "tx_step T h T' h'" and "chain_ok A h now ds"
  shows "chain_ok (A(i \<mapsto> T')) h' now ds"
  using assms(4) tx_step_delta_ok[OF assms(1-3)] unfolding chain_ok_def
  by (auto elim!: sorted_wrt_mono_rel[rotated] intro: tx_step_over[OF assms(1-3)])

text \<open>Pushing deltas on a chain that the transaction may write.\<close>

definition pushed :: "transaction \<Rightarrow> delta_heap \<Rightarrow> transaction \<Rightarrow> delta_heap \<Rightarrow> delta list \<Rightarrow> bool" where
  "pushed T h T' h' new \<longleftrightarrow> tx_step T h T' h' \<and> tx_commit_info T' = Some (tx_id T) \<and> distinct (map d_uid new) \<and>
    (\<forall>d \<in> set new. d_commit_info d = tx_id T \<and> d_command_id d \<le> tx_command_id T' \<and> \<not> IsDeltaNonSequential d \<and>
       h_next_delta h \<le> d_uid d \<and> d_uid d < h_next_delta h')"

lemma chain_ok_push:
  assumes inv: "txs_ok A h now next_id" and T: "A i = Some T" and p: "pushed T h T' h' new" and ds: "chain_ok A h now ds"
    and w: "writable h T ds"
  shows "chain_ok (A(i \<mapsto> T')) h' now (new @ ds)"
proof -
  have step: "tx_step T h T' h'" and i: "tx_id T = i" and T': "tx_start T' = tx_start T"
    using p txs_okD[OF inv T] by (auto simp: pushed_def tx_ok_def tx_step_def)
  have old: "chain_ok (A(i \<mapsto> T')) h' now ds"
    by (rule tx_step_chain_ok[OF inv T step ds])
  have new: "delta_ok (A(i \<mapsto> T')) h' now d" if "d \<in> set new" for d
    using p that i by (auto simp: pushed_def delta_ok_def)
  have "over (A(i \<mapsto> T')) h' d e" if "d \<in> set new" "e \<in> set ds" for d e
  proof -
    have "d_commit_info d = i" and "delta_ok A h now e"
      using p that i ds by (auto simp: pushed_def chain_ok_def)
    then show ?thesis
      using writable_below[OF inv ds T w that(2)] tx_step_ts[OF inv T step, of e] T' T by (auto simp: over_def)
  qed
  moreover have "over (A(i \<mapsto> T')) h' d e" if "d \<in> set new" "e \<in> set new" for d e
    using p that by (simp add: pushed_def over_def)
  then have "sorted_wrt (over (A(i \<mapsto> T')) h') new"
    by (metis sorted_wrt_iff_nth_less nth_mem order_less_trans)
  moreover have "d_uid d \<noteq> d_uid e" if "d \<in> set new" "e \<in> set ds" for d e
    using p ds that unfolding pushed_def chain_ok_def delta_ok_def by (metis leD)
  ultimately show ?thesis
    using old new p unfolding chain_ok_def by (auto simp: sorted_wrt_append pushed_def)
qed

section \<open>What the others see\<close>

lemma delta_visible_cong:
  "ts h' d = ts h d \<Longrightarrow> own_timestamp h' u = own_timestamp h u \<Longrightarrow> delta_visible h' u view d = delta_visible h u view d"
  by (simp add: delta_visible_def)

lemma selected_cong: "(\<And>d. d \<in> set ds \<Longrightarrow> V' d = V d) \<Longrightarrow> selected V' ds = selected V ds"
  by (induction ds) auto

lemma deltas_for_step:
  assumes "txs_ok A h now next_id" and "A i = Some T" and "tx_step T h T' h'" and "chain_ok A h now ds"
    and "A j = Some u" and "j \<noteq> i"
  shows "deltas_for h' u view ds = deltas_for h u view ds"
proof -
  have ok': "tx_ok h' now next_id j u"
    using txs_okD[OF tx_step_txs_ok[OF assms(1-3)], of j u] assms(5,6) by simp
  have "own_timestamp h' u = own_timestamp h u"
    using own_timestamp_ok[OF ok'] own_timestamp_ok[OF txs_okD[OF assms(1,5)]] by simp
  then show ?thesis
    using tx_step_ts[OF assms(1-3)] assms(4)
    unfolding deltas_for_def chain_ok_def by (auto intro!: selected_cong delta_visible_cong)
qed

lemma deltas_for_push:
  assumes inv: "txs_ok A h now next_id" and T: "A i = Some T" and p: "pushed T h T' h' new" and ds: "chain_ok A h now ds"
    and u: "A j = Some u" "j \<noteq> i" "tx_isolation_level u \<noteq> READ_UNCOMMITTED"
  shows "deltas_for h' u view (new @ ds) = new @ deltas_for h u view ds"
proof -
  have step: "tx_step T h T' h'" and i: "tx_id T = i"
    using p txs_okD[OF inv T] by (auto simp: pushed_def tx_ok_def)
  note inv' = tx_step_txs_ok[OF inv T step]
  have "\<not> delta_visible h' u view d" if "d \<in> set new" for d
    using delta_visible_iff[OF inv', of d j u view] p that i u by (auto simp: pushed_def delta_ok_def)
  then have "selected (delta_visible h' u view) (new @ ds) = new @ selected (delta_visible h' u view) ds"
    by (intro selected_append_visible) auto
  then show ?thesis
    using deltas_for_step[OF inv T step ds u(1,2), of view] u(3) by (simp add: deltas_for_def)
qed

end
