(* ===== verification/Snapshots.thy ===== *)
theory Snapshots
  imports Chains
begin

text \<open>
  The multi-version store as an abstract machine: objects with their current content and delta
  chain, the active transactions, the heap of commit infos and the timestamp counters of the storage.
  Its steps are the pushing of deltas, the creation of objects, commit, abort and the discarding
  of chains.  What a transaction sees is stable under the steps of the others.
\<close>

section \<open>The machine\<close>

record mv =
  mv_active :: actives
  mv_heap :: delta_heap
  mv_now :: nat
  mv_next_id :: nat
  mv_objs :: "delta_owner \<rightharpoonup> aversion \<times> delta list"

definition creation :: "delta_op \<Rightarrow> bool" where
  "creation op \<longleftrightarrow> op = DELETE_OBJECT \<or> op = DELETE_DESERIALIZED_OBJECT"

text \<open>What a transaction sees of an object: nothing when the object does not exist for it or is deleted.\<close>

definition alive :: "aversion \<Rightarrow> aversion option" where
  "alive a = (if a_exists a \<and> \<not> a_deleted a then Some a else None)"

definition sees :: "mv \<Rightarrow> transaction \<Rightarrow> View \<Rightarrow> delta_owner \<rightharpoonup> aversion" where
  "sees m u view o' = (case mv_objs m o' of None \<Rightarrow> None
     | Some (a, ds) \<Rightarrow> alive (undo_all (deltas_for (mv_heap m) u view ds) a))"

definition own_block :: "nat \<Rightarrow> delta list \<Rightarrow> delta list" where
  "own_block i ds = takeWhile (\<lambda>d. d_commit_info d = i) ds"

definition below_block :: "nat \<Rightarrow> delta list \<Rightarrow> delta list" where
  "below_block i ds = dropWhile (\<lambda>d. d_commit_info d = i) ds"

lemma block_split: "own_block i ds @ below_block i ds = ds"
  by (simp add: own_block_def below_block_def)

text \<open>An object after the abort of a transaction.\<close>

definition rolled_back :: "nat \<Rightarrow> (aversion \<times> delta list) option \<Rightarrow> (aversion \<times> delta list) option" where
  "rolled_back i x = (case x of None \<Rightarrow> None
     | Some (a, ds) \<Rightarrow> if \<exists>d \<in> set (own_block i ds). creation (d_op d) then None
                      else Some (undo_all (own_block i ds) a, below_block i ds))"

text \<open>What garbage collection leaves of an object: a chain without deltas that every transaction sees, or nothing when
  the object is deleted.\<close>

definition obsolete :: "mv \<Rightarrow> delta \<Rightarrow> bool" where
  "obsolete m d \<longleftrightarrow> mv_active m (d_commit_info d) = None \<and> (\<forall>j U. mv_active m j = Some U \<longrightarrow> ts (mv_heap m) d < tx_start U)"

definition pruned :: "mv \<Rightarrow> (aversion \<times> delta list) option \<Rightarrow> (aversion \<times> delta list) option \<Rightarrow> bool" where
  "pruned m x y \<longleftrightarrow> (case x of None \<Rightarrow> y = None
     | Some (a, ds) \<Rightarrow> \<exists>new old. ds = new @ old \<and> (\<forall>d \<in> set old. obsolete m d) \<and>
         (y = Some (a, new) \<or> y = None \<and> new = [] \<and> a_deleted a))"

lemma prunedD: "pruned m x (Some (a, ds)) \<Longrightarrow> \<exists>old. x = Some (a, ds @ old) \<and> (\<forall>d \<in> set old. obsolete m d)"
  by (auto simp: pruned_def split: option.splits)

datatype event = Begin | Work | Write | Commit | Abort_tx | Internal

inductive mv_step :: "event \<Rightarrow> nat \<Rightarrow> mv \<Rightarrow> mv \<Rightarrow> bool" where
  begin_tx: "\<lbrakk>i = mv_next_id m; tx_ok (mv_heap m) (mv_now m + 1) (mv_next_id m + 1) i T; tx_start T = mv_now m;
    tx_commit_info T = None; tx_deltas T = []; mv_now m < kTransactionInitialId\<rbrakk>
   \<Longrightarrow> mv_step Begin i m (m\<lparr>mv_active := (mv_active m)(i \<mapsto> T), mv_now := mv_now m + 1, mv_next_id := mv_next_id m + 1\<rparr>)"
| local: "\<lbrakk>mv_active m i = Some T; tx_step T (mv_heap m) T' h'; tx_deltas T' = tx_deltas T\<rbrakk>
   \<Longrightarrow> mv_step Work i m (m\<lparr>mv_active := (mv_active m)(i \<mapsto> T'), mv_heap := h'\<rparr>)"
| push: "\<lbrakk>mv_active m i = Some T; mv_objs m o' = Some (a, ds); writable (mv_heap m) T ds; pushed T (mv_heap m) T' h' new;
    set (tx_deltas T') = set (tx_deltas T) \<union> (\<lambda>d. (o', d_uid d)) ` set new;
    undoable_all new a'; undo_all new a' = a; a_exists a'; \<not> a_deleted a\<rbrakk>
   \<Longrightarrow> mv_step Write i m (m\<lparr>mv_active := (mv_active m)(i \<mapsto> T'), mv_heap := h', mv_objs := (mv_objs m)(o' \<mapsto> (a', new @ ds))\<rparr>)"
| create: "\<lbrakk>mv_active m i = Some T; mv_objs m o' = None; pushed T (mv_heap m) T' h' [d]; d_op d = DELETE_OBJECT;
    set (tx_deltas T') = insert (o', d_uid d) (set (tx_deltas T)); a_exists a'\<rbrakk>
   \<Longrightarrow> mv_step Write i m (m\<lparr>mv_active := (mv_active m)(i \<mapsto> T'), mv_heap := h', mv_objs := (mv_objs m)(o' \<mapsto> (a', [d]))\<rparr>)"
| tick: "mv_now m < kTransactionInitialId \<Longrightarrow> mv_step Internal i m (m\<lparr>mv_now := mv_now m + 1\<rparr>)"
| commit: "\<lbrakk>mv_active m i = Some T; tx_commit_info T = Some i; mv_now m < kTransactionInitialId;
    ci_timestamp (h_commit_infos h' i) = mv_now m;
    \<forall>k. k \<noteq> i \<longrightarrow> ci_timestamp (h_commit_infos h' k) = ci_timestamp (h_commit_infos (mv_heap m) k);
    h_next_delta h' = h_next_delta (mv_heap m)\<rbrakk>
   \<Longrightarrow> mv_step Commit i m (m\<lparr>mv_active := (mv_active m)(i := None), mv_heap := h', mv_now := mv_now m + 1\<rparr>)"
| abort: "\<lbrakk>mv_active m i = Some T; \<forall>k. k \<noteq> i \<longrightarrow> ci_timestamp (h_commit_infos h' k) = ci_timestamp (h_commit_infos (mv_heap m) k);
    h_next_delta h' = h_next_delta (mv_heap m)\<rbrakk>
   \<Longrightarrow> mv_step Abort_tx i m (m\<lparr>mv_active := (mv_active m)(i := None), mv_heap := h', mv_objs := (\<lambda>o'. rolled_back i (mv_objs m o'))\<rparr>)"
| prune: "\<lbrakk>\<forall>o'. pruned m (mv_objs m o') (objs' o')\<rbrakk>
   \<Longrightarrow> mv_step Internal i m (m\<lparr>mv_objs := objs'\<rparr>)"

text \<open>The invariant: the chains are well-formed and can be undone, and each active transaction knows its deltas.\<close>

definition obj_ok :: "mv \<Rightarrow> delta_owner \<Rightarrow> aversion \<Rightarrow> delta list \<Rightarrow> bool" where
  "obj_ok m o' a ds \<longleftrightarrow> chain_ok (mv_active m) (mv_heap m) (mv_now m) ds \<and> undoable_all ds a \<and> a_exists a \<and>
    (\<forall>d \<in> set ds. d_commit_info d < mv_next_id m) \<and>
    (\<forall>d \<in> set ds. \<forall>T. mv_active m (d_commit_info d) = Some T \<longrightarrow> (o', d_uid d) \<in> set (tx_deltas T))"

definition mv_inv :: "mv \<Rightarrow> bool" where
  "mv_inv m \<longleftrightarrow> txs_ok (mv_active m) (mv_heap m) (mv_now m) (mv_next_id m) \<and>
    (\<forall>o' a ds. mv_objs m o' = Some (a, ds) \<longrightarrow> obj_ok m o' a ds)"

lemma mv_invD: "mv_inv m \<Longrightarrow> txs_ok (mv_active m) (mv_heap m) (mv_now m) (mv_next_id m)"
  "mv_inv m \<Longrightarrow> mv_objs m o' = Some (a, ds) \<Longrightarrow> obj_ok m o' a ds"
  by (auto simp: mv_inv_def)

lemma mv_invI:
  "txs_ok (mv_active m) (mv_heap m) (mv_now m) (mv_next_id m) \<Longrightarrow>
   (\<And>o' a ds. mv_objs m o' = Some (a, ds) \<Longrightarrow> obj_ok m o' a ds) \<Longrightarrow> mv_inv m"
  by (simp add: mv_inv_def)

lemma obj_okD:
  assumes "obj_ok m o' a ds"
  shows "chain_ok (mv_active m) (mv_heap m) (mv_now m) ds" "undoable_all ds a" "a_exists a"
    "d \<in> set ds \<Longrightarrow> delta_ok (mv_active m) (mv_heap m) (mv_now m) d"
    "d \<in> set ds \<Longrightarrow> d_commit_info d < mv_next_id m"
    "d \<in> set ds \<Longrightarrow> mv_active m (d_commit_info d) = Some T \<Longrightarrow> (o', d_uid d) \<in> set (tx_deltas T)"
  using assms by (auto simp: obj_ok_def chain_ok_def)

section \<open>Preservation of the invariant\<close>

lemma obj_ok_step:
  assumes inv: "mv_inv m" and T: "mv_active m i = Some T" and step: "tx_step T (mv_heap m) T' h'"
    and deltas: "set (tx_deltas T) \<subseteq> set (tx_deltas T')" and ok: "obj_ok m o' a ds"
    and m': "mv_active m' = (mv_active m)(i \<mapsto> T')" "mv_heap m' = h'" "mv_now m' = mv_now m" "mv_next_id m' = mv_next_id m"
  shows "obj_ok m' o' a ds"
  using ok tx_step_chain_ok[OF mv_invD(1)[OF inv] T step obj_okD(1)[OF ok]] T deltas m'
  unfolding obj_ok_def by auto

lemma txs_ok_mono: "txs_ok A h now n \<Longrightarrow> now \<le> now' \<Longrightarrow> now' \<le> kTransactionInitialId \<Longrightarrow> n \<le> n' \<Longrightarrow> txs_ok A h now' n'"
  unfolding txs_ok_def tx_ok_def by fastforce

lemma delta_ok_mono: "delta_ok A h now d \<Longrightarrow> now \<le> now' \<Longrightarrow> delta_ok A h now' d"
  by (auto simp: delta_ok_def split: option.splits)

lemma chain_ok_mono: "chain_ok A h now ds \<Longrightarrow> now \<le> now' \<Longrightarrow> chain_ok A h now' ds"
  by (auto simp: chain_ok_def intro: delta_ok_mono)

text \<open>The end of a transaction: its deltas leave the chain or become committed ones.\<close>

lemma txs_ok_end:
  assumes "txs_ok A h now n" and "\<forall>k. k \<noteq> i \<longrightarrow> ci_timestamp (h_commit_infos h' k) = ci_timestamp (h_commit_infos h k)"
  shows "txs_ok (A(i := None)) h' now n"
  using assms unfolding txs_ok_def tx_ok_def by auto

lemma delta_ok_commit:
  assumes inv: "txs_ok A h now n" and T: "A i = Some T" and d: "delta_ok A h now d"
    and h': "ci_timestamp (h_commit_infos h' i) = now"
      "\<forall>k. k \<noteq> i \<longrightarrow> ci_timestamp (h_commit_infos h' k) = ci_timestamp (h_commit_infos h k)"
      "h_next_delta h' = h_next_delta h"
  shows "delta_ok (A(i := None)) h' (now + 1) d"
  using d h' by (cases "d_commit_info d = i") (auto simp: delta_ok_def ts_def split: option.splits)

lemma over_commit:
  assumes inv: "txs_ok A h now n" and T: "A i = Some T" and d: "delta_ok A h now d" "delta_ok A h now e"
    and h': "ci_timestamp (h_commit_infos h' i) = now"
      "\<forall>k. k \<noteq> i \<longrightarrow> ci_timestamp (h_commit_infos h' k) = ci_timestamp (h_commit_infos h k)"
    and "over A h d e"
  shows "over (A(i := None)) h' d e"
  using assms txs_okD[OF inv T]
  by (cases "d_commit_info d = i"; cases "d_commit_info e = i") (auto simp: over_def delta_ok_def ts_def tx_ok_def split: option.splits)

lemma chain_ok_commit:
  assumes inv: "txs_ok A h now n" and T: "A i = Some T" and ds: "chain_ok A h now ds"
    and h': "ci_timestamp (h_commit_infos h' i) = now"
      "\<forall>k. k \<noteq> i \<longrightarrow> ci_timestamp (h_commit_infos h' k) = ci_timestamp (h_commit_infos h k)"
      "h_next_delta h' = h_next_delta h"
  shows "chain_ok (A(i := None)) h' (now + 1) ds"
  using ds delta_ok_commit[OF inv T _ h'] unfolding chain_ok_def
  by (auto elim!: sorted_wrt_mono_rel[rotated] intro: over_commit[OF inv T _ _ h'(1,2)])

text \<open>The deltas of an active transaction are the newest ones of a chain.\<close>

lemma below_block_other:
  assumes "chain_ok A h now ds" and "A i = Some T" and "d \<in> set (below_block i ds)"
  shows "d_commit_info d \<noteq> i"
  using assms
proof (induction ds)
  case (Cons e ds)
  have ok: "chain_ok A h now ds"
    using Cons.prems(1) by (simp add: chain_ok_def)
  show ?case
  proof (cases "d_commit_info e = i")
    case True
    then show ?thesis
      using Cons ok by (simp add: below_block_def)
  next
    case False
    then show ?thesis
      using Cons.prems by (auto simp: below_block_def chain_ok_def over_def)
  qed
qed (simp add: below_block_def)

lemma own_blockD: "d \<in> set (own_block i ds) \<Longrightarrow> d_commit_info d = i \<and> d \<in> set ds"
  by (auto simp: own_block_def dest: set_takeWhileD)

lemma chain_ok_abort:
  assumes ds: "chain_ok A h now ds" and T: "A i = Some T"
    and h': "\<forall>k. k \<noteq> i \<longrightarrow> ci_timestamp (h_commit_infos h' k) = ci_timestamp (h_commit_infos h k)"
      "h_next_delta h' = h_next_delta h"
  shows "chain_ok (A(i := None)) h' now (below_block i ds)"
proof -
  let ?r = "below_block i ds"
  have other: "d_commit_info d \<noteq> i" if "d \<in> set ?r" for d
    by (rule below_block_other[OF ds T that])
  have sub: "chain_ok A h now ?r"
    using ds arg_cong[OF block_split[of i ds], of "chain_ok A h now"] by (auto simp: chain_ok_def[of _ _ _ "_ @ _"] chain_ok_def[of _ _ _ ?r] sorted_wrt_append)
  have "delta_ok (A(i := None)) h' now d" if "d \<in> set ?r" for d
    using sub that other[OF that] h' by (auto simp: chain_ok_def delta_ok_def ts_def split: option.splits)
  moreover have "over (A(i := None)) h' d e" if "d \<in> set ?r" "e \<in> set ?r" "over A h d e" for d e
    using that other h' by (auto simp: over_def ts_def split: option.splits)
  ultimately show ?thesis
    using sub unfolding chain_ok_def by (auto elim!: sorted_wrt_mono_rel[rotated])
qed

lemma a_exists_undo_all: "a_exists (undo_all ds a) \<longleftrightarrow> a_exists a \<and> (\<forall>d \<in> set ds. \<not> creation (d_op d))"
proof (induction ds arbitrary: a)
  case (Cons d ds)
  then show ?case
    by (cases "d_op d") (auto simp: aundo_def creation_def)
qed simp

lemma rolled_back_SomeD:
  assumes "rolled_back i (mv_objs m o') = Some (a, ds)"
  obtains a0 ds0 where "mv_objs m o' = Some (a0, ds0)" "a = undo_all (own_block i ds0) a0" "ds = below_block i ds0"
    "\<forall>d \<in> set (own_block i ds0). \<not> creation (d_op d)"
  using assms by (auto simp: rolled_back_def split: option.splits if_splits)

theorem mv_step_inv:
  assumes "mv_step ev i m m'" and "mv_inv m"
  shows "mv_inv m'"
  using assms
proof (induction rule: mv_step.induct)
  case (begin_tx i m T)
  note ok = mv_invD(1)[OF begin_tx.prems]
  have fresh: "mv_active m i = None"
    using ok begin_tx(1) by (cases "mv_active m i") (auto simp: txs_ok_def tx_ok_def)
  have txs: "txs_ok ((mv_active m)(i \<mapsto> T)) (mv_heap m) (mv_now m + 1) (mv_next_id m + 1)"
    using txs_ok_mono[OF ok, of "mv_now m + 1" "mv_next_id m + 1"] begin_tx by (simp add: txs_ok_def)
  have "obj_ok (m\<lparr>mv_active := (mv_active m)(i \<mapsto> T), mv_now := mv_now m + 1, mv_next_id := mv_next_id m + 1\<rparr>) o' a ds"
    if o: "mv_objs m o' = Some (a, ds)" for o' a ds
  proof -
    note old = mv_invD(2)[OF begin_tx.prems o]
    have other: "d_commit_info d \<noteq> i" if "d \<in> set ds" for d
      using obj_okD(5)[OF old that] begin_tx(1) by simp
    have "chain_ok ((mv_active m)(i \<mapsto> T)) (mv_heap m) (mv_now m + 1) ds"
      using chain_ok_mono[OF obj_okD(1)[OF old], of "mv_now m + 1"] other unfolding chain_ok_def
      by (auto simp: delta_ok_def over_def elim!: sorted_wrt_mono_rel[rotated])
    moreover have "d_commit_info d < mv_next_id m + 1" if "d \<in> set ds" for d
      using obj_okD(5)[OF old that] by simp
    ultimately show ?thesis
      using old[unfolded obj_ok_def] other unfolding obj_ok_def by simp
  qed
  then show ?case
    using txs by (intro mv_invI) simp_all
next
  case (local m i T T' h')
  show ?case
  proof (rule mv_invI, goal_cases)
    case 1
    then show ?case
      using tx_step_txs_ok[OF mv_invD(1)[OF local.prems] local(1,2)] by simp
  next
    case (2 o' a ds)
    then show ?case
      using local(3) by (intro obj_ok_step[OF local.prems local(1,2) _ mv_invD(2)[OF local.prems]]) simp_all
  qed
next
  case (push m i T o' a ds T' h' new a')
  note ok = mv_invD(1)[OF push.prems]
  have step: "tx_step T (mv_heap m) T' h'"
    using push(4) by (simp add: pushed_def)
  let ?m = "m\<lparr>mv_active := (mv_active m)(i \<mapsto> T'), mv_heap := h', mv_objs := (mv_objs m)(o' \<mapsto> (a', new @ ds))\<rparr>"
  have i: "tx_id T = i" "i < mv_next_id m"
    using txs_okD[OF ok push(1)] by (auto simp: tx_ok_def)
  have others: "obj_ok ?m p b es" if "mv_objs m p = Some (b, es)" for p b es
    by (rule obj_ok_step[OF push.prems push(1) step _ mv_invD(2)[OF push.prems that]]) (use push(5) in simp_all)
  have "chain_ok ((mv_active m)(i \<mapsto> T')) h' (mv_now m) (new @ ds)"
    by (rule chain_ok_push[OF ok push(1,4) obj_okD(1)[OF mv_invD(2)[OF push.prems push(2)]] push(3)])
  moreover have "d_commit_info d = i" if "d \<in> set new" for d
    using push(4) that i by (simp add: pushed_def)
  ultimately have "obj_ok ?m o' a' (new @ ds)"
    using others[OF push(2), unfolded obj_ok_def] push(5-8) i(2) unfolding obj_ok_def by (auto simp: undoable_all_append)
  then show ?case
    using others tx_step_txs_ok[OF ok push(1) step] by (intro mv_invI) (simp_all split: if_splits)
next
  case (create m i T o' T' h' d a')
  note ok = mv_invD(1)[OF create.prems]
  have step: "tx_step T (mv_heap m) T' h'"
    using create(3) by (simp add: pushed_def)
  let ?m = "m\<lparr>mv_active := (mv_active m)(i \<mapsto> T'), mv_heap := h', mv_objs := (mv_objs m)(o' \<mapsto> (a', [d]))\<rparr>"
  have i: "d_commit_info d = i" "i < mv_next_id m"
    using txs_okD[OF ok create(1)] create(3) by (auto simp: tx_ok_def pushed_def)
  have others: "obj_ok ?m p b es" if "mv_objs m p = Some (b, es)" for p b es
    by (rule obj_ok_step[OF create.prems create(1) step _ mv_invD(2)[OF create.prems that]]) (use create(5) in auto)
  have "chain_ok ((mv_active m)(i \<mapsto> T')) h' (mv_now m) ([d] @ [])"
    by (rule chain_ok_push[OF ok create(1,3)]) (auto simp: chain_ok_def writable_def)
  then have "obj_ok ?m o' a' [d]"
    using create(4-6) i by (simp add: obj_ok_def undoable_def)
  then show ?case
    using others tx_step_txs_ok[OF ok create(1) step] by (intro mv_invI) (simp_all split: if_splits)
next
  case (tick m i)
  have "obj_ok (m\<lparr>mv_now := mv_now m + 1\<rparr>) o' a ds" if "mv_objs m o' = Some (a, ds)" for o' a ds
    using mv_invD(2)[OF tick.prems that, unfolded obj_ok_def] chain_ok_mono[of "mv_active m" "mv_heap m" "mv_now m" ds "mv_now m + 1"]
    unfolding obj_ok_def by simp
  then show ?case
    using txs_ok_mono[OF mv_invD(1)[OF tick.prems], of "mv_now m + 1" "mv_next_id m"] tick(1) by (intro mv_invI) simp_all
next
  case (commit m i T h')
  note ok = mv_invD(1)[OF commit.prems]
  have "txs_ok ((mv_active m)(i := None)) h' (mv_now m + 1) (mv_next_id m)"
    using txs_ok_mono[OF txs_ok_end[OF ok commit(5)]] commit(3) by simp
  moreover have "obj_ok (m\<lparr>mv_active := (mv_active m)(i := None), mv_heap := h', mv_now := mv_now m + 1\<rparr>) p b es"
    if "mv_objs m p = Some (b, es)" for p b es
    using mv_invD(2)[OF commit.prems that, unfolded obj_ok_def] chain_ok_commit[OF ok commit(1) _ commit(4-6), of es]
    unfolding obj_ok_def by auto
  ultimately show ?case
    by (intro mv_invI) simp_all
next
  case (abort m i T h')
  note ok = mv_invD(1)[OF abort.prems]
  have "obj_ok (m\<lparr>mv_active := (mv_active m)(i := None), mv_heap := h', mv_objs := (\<lambda>o'. rolled_back i (mv_objs m o'))\<rparr>) p b es"
    if r: "rolled_back i (mv_objs m p) = Some (b, es)" for p b es
  proof -
    obtain b0 es0 where o: "mv_objs m p = Some (b0, es0)" "b = undo_all (own_block i es0) b0" "es = below_block i es0"
      "\<forall>d \<in> set (own_block i es0). \<not> creation (d_op d)"
      by (rule rolled_back_SomeD[OF r])
    note old = obj_okD[OF mv_invD(2)[OF abort.prems o(1)]]
    have "undoable_all es b"
      using old(2) undoable_all_append[of "own_block i es0" es b0] o(2,3) by (simp add: block_split)
    moreover have "set es \<subseteq> set es0"
      unfolding o(3) below_block_def by (auto dest: set_dropWhileD)
    ultimately show ?thesis
      using chain_ok_abort[OF old(1) abort(1-3)] o(2-4) mv_invD(2)[OF abort.prems o(1), unfolded obj_ok_def]
      unfolding obj_ok_def by (auto simp: a_exists_undo_all subset_iff)
  qed
  then show ?case
    using txs_ok_end[OF ok abort(2)] by (intro mv_invI) simp_all
next
  case (prune m objs' i)
  have "obj_ok (m\<lparr>mv_objs := objs'\<rparr>) p b es" if r: "objs' p = Some (b, es)" for p b es
  proof -
    obtain old where o: "mv_objs m p = Some (b, es @ old)"
      using prunedD[of m "mv_objs m p" b es] prune(1)[rule_format, of p] r by auto
    show ?thesis
      using mv_invD(2)[OF prune.prems o, unfolded obj_ok_def] unfolding obj_ok_def
      by (auto simp: chain_ok_def sorted_wrt_append undoable_all_append)
  qed
  then show ?case
    using mv_invD(1)[OF prune.prems] by (intro mv_invI) simp_all
qed

section \<open>What the transactions see\<close>

lemma sees_eqI:
  "mv_objs m' o' = mv_objs m o' \<Longrightarrow>
   (\<And>a ds. mv_objs m o' = Some (a, ds) \<Longrightarrow> deltas_for (mv_heap m') u view ds = deltas_for (mv_heap m) u view ds) \<Longrightarrow>
   sees m' u view o' = sees m u view o'"
  by (auto simp: sees_def split: option.splits)

lemma sees_step:
  assumes "mv_inv m" and "mv_active m i = Some T" and "tx_step T (mv_heap m) T' h'"
    and "mv_active m j = Some u" and "j \<noteq> i"
    and "mv_heap m' = h'" and "mv_objs m' o' = mv_objs m o'"
  shows "sees m' u view o' = sees m u view o'"
  using assms(6,7) deltas_for_step[OF mv_invD(1)[OF assms(1)] assms(2,3) obj_okD(1)[OF mv_invD(2)[OF assms(1)]] assms(4,5)]
  by (intro sees_eqI) simp_all

text \<open>The end of another transaction changes no timestamp a reader could see.\<close>

lemma deltas_for_end:
  assumes inv: "txs_ok A h now n" and T: "A i = Some T" and u: "A j = Some u" "j \<noteq> i"
    and h': "\<forall>k. k \<noteq> i \<longrightarrow> ci_timestamp (h_commit_infos h' k) = ci_timestamp (h_commit_infos h k)"
    and ds: "\<forall>d \<in> set ds. delta_ok A h now d"
    and own: "\<forall>d \<in> set ds. d_commit_info d = i \<longrightarrow> \<not> delta_visible h' u view d"
  shows "deltas_for h' u view ds = deltas_for h u view ds"
proof -
  have "own_timestamp h' u = j" "own_timestamp h u = j"
    using own_timestamp_ok txs_okD[OF txs_ok_end[OF inv h'], of j u] txs_okD[OF inv u(1)] u by (fastforce+)
  then have "delta_visible h' u view d = delta_visible h u view d" if "d_commit_info d \<noteq> i" for d
    using that h' by (intro delta_visible_cong) (auto simp: ts_def)
  moreover have "\<not> delta_visible h u view d" if "d \<in> set ds" "d_commit_info d = i" for d
    using delta_visible_iff[OF inv _ u(1), of d view] that ds u(2) T by auto
  ultimately have "delta_visible h' u view d = delta_visible h u view d" if "d \<in> set ds" for d
    using that own by (cases "d_commit_info d = i") auto
  then show ?thesis
    unfolding deltas_for_def by (simp add: selected_cong[of ds "delta_visible h' u view" "delta_visible h u view"])
qed

lemma deltas_for_block:
  assumes inv: "txs_ok A h now n" and T: "A i = Some T" and u: "A j = Some u" "j \<noteq> i" "tx_isolation_level u \<noteq> READ_UNCOMMITTED"
    and ds: "\<forall>d \<in> set ds. delta_ok A h now d"
  shows "deltas_for h u view ds = own_block i ds @ deltas_for h u view (below_block i ds)"
proof -
  have "\<not> delta_visible h u view d" if "d \<in> set (own_block i ds)" for d
    using own_blockD[OF that] delta_visible_iff[OF inv _ u(1), of d view] ds u(2) T by auto
  then have "selected (delta_visible h u view) (own_block i ds @ below_block i ds) =
      own_block i ds @ selected (delta_visible h u view) (below_block i ds)"
    by (intro selected_append_visible) simp
  then show ?thesis
    using u(3) by (simp add: deltas_for_def block_split)
qed

lemma selected_takeWhile: "\<forall>d \<in> set ds. \<not> IsDeltaNonSequential d \<Longrightarrow> selected V ds = takeWhile (\<lambda>d. \<not> V d) ds"
  by (induction ds) auto

lemma takeWhile_append_Nil: "takeWhile P ys = [] \<Longrightarrow> takeWhile P (xs @ ys) = takeWhile P xs"
  by (induction xs) auto

lemma takeWhile_eq: "(\<And>d. d \<in> set ds \<Longrightarrow> P d = Q d) \<Longrightarrow> takeWhile P ds = takeWhile Q ds"
  by (induction ds) auto

lemma deltas_for_takeWhile:
  assumes "chain_ok A h now ds" and "tx_isolation_level u \<noteq> READ_UNCOMMITTED"
  shows "deltas_for h u view ds = takeWhile (\<lambda>d. \<not> delta_visible h u view d) ds"
  using assms selected_takeWhile[of ds "delta_visible h u view"] by (simp add: deltas_for_def chain_ok_def delta_ok_def)

lemma obsolete_unseen:
  assumes inv: "mv_inv m" and o: "mv_objs m o' = Some (a, new @ old)" and u: "mv_active m j = Some u" "tx_isolation_level u \<noteq> READ_UNCOMMITTED"
    and obs: "\<forall>d \<in> set old. obsolete m d"
  shows "deltas_for (mv_heap m) u view (new @ old) = deltas_for (mv_heap m) u view new"
proof -
  note ok = obj_okD[OF mv_invD(2)[OF inv o]]
  have vis: "delta_visible (mv_heap m) u view d" if "d \<in> set old" for d
    using delta_visible_iff[OF mv_invD(1)[OF inv] ok(4) u(1), of d view] that obs u by (cases "tx_isolation_level u") (auto simp: obsolete_def)
  have chain: "chain_ok (mv_active m) (mv_heap m) (mv_now m) new"
    using ok(1) by (auto simp: chain_ok_def sorted_wrt_append)
  have "takeWhile (\<lambda>d. \<not> delta_visible (mv_heap m) u view d) old = []"
    using vis by (cases old) auto
  then have "takeWhile (\<lambda>d. \<not> delta_visible (mv_heap m) u view d) (new @ old) = takeWhile (\<lambda>d. \<not> delta_visible (mv_heap m) u view d) new"
    by (rule takeWhile_append_Nil)
  then show ?thesis
    using deltas_for_takeWhile[OF ok(1) u(2)] deltas_for_takeWhile[OF chain u(2)] by simp
qed

theorem mv_step_stable:
  assumes "mv_step ev i m m'" and "mv_inv m" and "mv_active m j = Some u" and "j \<noteq> i"
    and "tx_isolation_level u = SNAPSHOT_ISOLATION \<or> tx_isolation_level u = READ_COMMITTED \<and> ev \<noteq> Commit"
  shows "mv_active m' j = Some u \<and> sees m' u view o' = sees m u view o'"
  using assms
proof (induction rule: mv_step.induct)
  case (begin_tx i m T)
  then show ?case
    by (auto intro!: sees_eqI)
next
  case (local m i T T' h')
  then show ?case
    by (simp add: sees_step[OF local.prems(1) local(1,2) local.prems(2,3)])
next
  case (push m i T p a ds T' h' new a')
  note inv = mv_invD(1)[OF push.prems(1)]
  have step: "tx_step T (mv_heap m) T' h'" and iso: "tx_isolation_level u \<noteq> READ_UNCOMMITTED"
    using push by (auto simp: pushed_def)
  show ?case
  proof (cases "o' = p")
    case True
    then show ?thesis
      using deltas_for_push[OF inv push(1,4) obj_okD(1)[OF mv_invD(2)[OF push.prems(1) push(2)]] push.prems(2,3) iso, of view]
        push by (simp add: sees_def)
  next
    case False
    then show ?thesis
      using push.prems by (simp add: sees_step[OF push.prems(1) push(1) step push.prems(2,3)])
  qed
next
  case (create m i T p T' h' d a')
  note inv = mv_invD(1)[OF create.prems(1)]
  have step: "tx_step T (mv_heap m) T' h'" and iso: "tx_isolation_level u \<noteq> READ_UNCOMMITTED"
    using create by (auto simp: pushed_def)
  show ?case
  proof (cases "o' = p")
    case True
    have "deltas_for h' u view ([d] @ []) = [d] @ deltas_for (mv_heap m) u view []"
      by (rule deltas_for_push[OF inv create(1,3) _ create.prems(2,3) iso]) (simp add: chain_ok_def)
    then show ?thesis
      using True create by (simp add: sees_def aundo_def deltas_for_def alive_def)
  next
    case False
    then show ?thesis
      using create.prems by (simp add: sees_step[OF create.prems(1) create(1) step create.prems(2,3)])
  qed
next
  case (tick m i)
  then show ?case
    by (auto intro!: sees_eqI)
next
  case (commit m i T h')
  note inv = mv_invD(1)[OF commit.prems(1)]
  have si: "tx_isolation_level u = SNAPSHOT_ISOLATION"
    using commit.prems(4) by simp
  have u: "tx_start u < mv_now m" "own_timestamp h' u = j" "kTransactionInitialId \<le> j"
    using txs_okD[OF inv commit.prems(2)] own_timestamp_ok txs_okD[OF txs_ok_end[OF inv commit(5)], of j u] commit.prems(2,3)
    by (auto simp: tx_ok_def)
  then have "\<not> delta_visible h' u view d" if "d_commit_info d = i" for d
    using that commit(3,4) si by (simp add: delta_visible_def ts_def)
  then have "deltas_for h' u view ds = deltas_for (mv_heap m) u view ds" if "mv_objs m o' = Some (a, ds)" for a ds
    using obj_okD(4)[OF mv_invD(2)[OF commit.prems(1) that]]
    by (intro deltas_for_end[OF inv commit(1) commit.prems(2,3) commit(5)]) auto
  then show ?case
    using commit.prems by (auto intro!: sees_eqI)
next
  case (abort m i T h')
  note inv = mv_invD(1)[OF abort.prems(1)]
  have iso: "tx_isolation_level u \<noteq> READ_UNCOMMITTED"
    using abort.prems(4) by auto
  have "sees (m\<lparr>mv_active := (mv_active m)(i := None), mv_heap := h', mv_objs := \<lambda>o'. rolled_back i (mv_objs m o')\<rparr>) u view o' =
      sees m u view o'"
  proof (cases "mv_objs m o'")
    case None
    then show ?thesis
      by (simp add: sees_def rolled_back_def)
  next
    case (Some p)
    obtain a ds where o: "mv_objs m o' = Some (a, ds)"
      using Some by (cases p) auto
    note old = mv_invD(2)[OF abort.prems(1) o]
    have ds: "\<forall>d \<in> set ds. delta_ok (mv_active m) (mv_heap m) (mv_now m) d"
      using obj_okD(4)[OF old] by simp
    have "d_commit_info d \<noteq> i" if "d \<in> set (below_block i ds)" for d
      by (rule below_block_other[OF obj_okD(1)[OF old] abort(1) that])
    moreover have "set (below_block i ds) \<subseteq> set ds"
      unfolding below_block_def by (auto dest: set_dropWhileD)
    ultimately have "deltas_for h' u view (below_block i ds) = deltas_for (mv_heap m) u view (below_block i ds)"
      using ds by (intro deltas_for_end[OF inv abort(1) abort.prems(2,3) abort(2)]) auto
    then show ?thesis
      using o deltas_for_block[OF inv abort(1) abort.prems(2,3) iso ds, of view]
      by (auto simp: sees_def rolled_back_def alive_def a_exists_undo_all)
  qed
  then show ?case
    using abort.prems by simp
next
  case (prune m objs' i)
  have iso: "tx_isolation_level u \<noteq> READ_UNCOMMITTED"
    using prune.prems(4) by auto
  have "sees (m\<lparr>mv_objs := objs'\<rparr>) u view o' = sees m u view o'"
  proof (cases "mv_objs m o'")
    case None
    then show ?thesis
      using prune(1)[rule_format, of o'] by (simp add: sees_def pruned_def)
  next
    case (Some p)
    obtain a ds where o: "mv_objs m o' = Some (a, ds)"
      using Some by (cases p) auto
    then obtain new old where no: "ds = new @ old" "\<forall>d \<in> set old. obsolete m d" "objs' o' = Some (a, new) \<or> objs' o' = None \<and> new = [] \<and> a_deleted a"
      using prune(1)[rule_format, of o'] by (auto simp: pruned_def)
    have "deltas_for (mv_heap m) u view ds = deltas_for (mv_heap m) u view new"
      unfolding no(1) using obsolete_unseen[OF prune.prems(1) _ prune.prems(2) iso no(2)] o no(1) by simp
    then show ?thesis
      using o no(3) by (auto simp: sees_def alive_def deltas_for_def)
  qed
  then show ?case
    using prune.prems by simp
qed

section \<open>The committed state\<close>

text \<open>What a transaction that starts now would see: the state without the deltas of active transactions.\<close>

definition uncommitted :: "mv \<Rightarrow> delta list \<Rightarrow> delta list" where
  "uncommitted m ds = takeWhile (\<lambda>d. mv_active m (d_commit_info d) \<noteq> None) ds"

definition committed :: "mv \<Rightarrow> delta_owner \<rightharpoonup> aversion" where
  "committed m o' = (case mv_objs m o' of None \<Rightarrow> None
     | Some (a, ds) \<Rightarrow> alive (undo_all (uncommitted m ds) a))"

text \<open>The uncommitted deltas of a chain are those of one transaction.\<close>

lemma uncommitted_block:
  assumes ds: "chain_ok (mv_active m) h now ds" and d: "d \<in> set ds" and T: "mv_active m (d_commit_info d) = Some T"
  shows "uncommitted m ds = own_block (d_commit_info d) ds"
  using ds d
proof (induction ds)
  case (Cons e ds)
  have e: "d_commit_info e = d_commit_info d"
    using Cons.prems T by (auto simp: chain_ok_def over_def)
  show ?case
  proof (cases "d \<in> set ds")
    case True
    then show ?thesis
      using Cons e T by (simp add: uncommitted_def own_block_def chain_ok_def)
  next
    case False
    then have "d = e"
      using Cons.prems by simp
    moreover have "takeWhile (\<lambda>x. \<exists>y. mv_active m (d_commit_info x) = Some y) ds = takeWhile (\<lambda>x. d_commit_info x = d_commit_info d) ds"
      using Cons.prems \<open>d = e\<close> T by (intro takeWhile_eq) (auto simp: chain_ok_def over_def)
    ultimately show ?thesis
      using T by (simp add: uncommitted_def own_block_def)
  qed
qed simp

lemma uncommitted_Nil:
  assumes "\<forall>d \<in> set ds. mv_active m (d_commit_info d) = None"
  shows "uncommitted m ds = []"
  using assms by (cases ds) (auto simp: uncommitted_def)

lemma own_block_Nil_iff:
  assumes "chain_ok A h now ds" and "A i = Some T"
  shows "own_block i ds = [] \<longleftrightarrow> (\<forall>d \<in> set ds. d_commit_info d \<noteq> i)"
  using below_block_other[OF assms] block_split[of i ds] by (metis append_Nil own_blockD list.set_intros(1) neq_Nil_conv)

text \<open>A transaction that has just begun sees the committed state.\<close>

theorem begin_sees_committed:
  assumes "mv_inv m" and "tx_ok (mv_heap m) (mv_now m + 1) (mv_next_id m + 1) (mv_next_id m) T" and "tx_start T = mv_now m"
    and "tx_commit_info T = None" and "tx_isolation_level T \<noteq> READ_UNCOMMITTED"
  shows "sees m T view o' = committed m o'"
proof (cases "mv_objs m o'")
  case (Some p)
  obtain a ds where o: "mv_objs m o' = Some (a, ds)"
    using Some by (cases p) auto
  note old = mv_invD(2)[OF assms(1) o] and inv = mv_invD(1)[OF assms(1)]
  have now: "mv_now m \<le> kTransactionInitialId"
    using inv by (simp add: txs_ok_def)
  have "delta_visible (mv_heap m) T view d \<longleftrightarrow> mv_active m (d_commit_info d) = None" if d: "d \<in> set ds" for d
  proof (cases "mv_active m (d_commit_info d)")
    case None
    then show ?thesis
      using obj_okD(4)[OF old d] assms(3,5) inv by (cases "tx_isolation_level T") (auto simp: delta_ok_def delta_visible_def txs_ok_def)
  next
    case (Some U)
    then have "ts (mv_heap m) d = d_commit_info d" "kTransactionInitialId \<le> d_commit_info d" "d_commit_info d < mv_next_id m"
      using ts_active[OF inv obj_okD(4)[OF old d]] txs_okD[OF inv Some] by (auto simp: tx_ok_def)
    then show ?thesis
      using Some assms(2-4) now by (auto simp: delta_visible_def own_timestamp_def tx_ok_def)
  qed
  then have "deltas_for (mv_heap m) T view ds = uncommitted m ds"
    unfolding deltas_for_takeWhile[OF obj_okD(1)[OF old] assms(5)] uncommitted_def by (intro takeWhile_eq) auto
  then show ?thesis
    using o by (simp add: sees_def committed_def)
qed (simp add: sees_def committed_def)

text \<open>A transaction sees its own writes: what it wrote is the current content.\<close>

lemma own_write_seen:
  assumes "mv_inv m" and T: "mv_active m i = Some T" and o: "mv_objs m o' = Some (a, ds)" and "d \<in> set ds" "d_commit_info d = i"
  shows "sees m T NEW o' = alive a"
proof -
  note old = mv_invD(2)[OF assms(1) o] and inv = mv_invD(1)[OF assms(1)]
  have "own_block i ds \<noteq> []"
    using own_block_Nil_iff[OF obj_okD(1)[OF old] T] assms(4,5) by auto
  then obtain e es where ds: "ds = e # es" and e: "d_commit_info e = i"
    by (cases ds) (auto simp: own_block_def split: if_splits)
  have ok: "delta_ok (mv_active m) (mv_heap m) (mv_now m) e"
    using obj_okD(4)[OF old] ds by simp
  then have "delta_visible (mv_heap m) T NEW e \<and> \<not> IsDeltaNonSequential e"
    using delta_visible_iff[OF inv ok T, of NEW] e T by (simp add: delta_ok_def)
  then have "deltas_for (mv_heap m) T NEW ds = []"
    by (simp add: deltas_for_def ds)
  then show ?thesis
    using o by (simp add: sees_def)
qed

definition written_by :: "mv \<Rightarrow> nat \<Rightarrow> delta_owner \<Rightarrow> bool" where
  "written_by m i o' = (case mv_objs m o' of None \<Rightarrow> False | Some (a, ds) \<Rightarrow> list_ex (\<lambda>d. d_commit_info d = i) ds)"

lemma committed_eqI:
  "mv_objs m' o' = mv_objs m o' \<Longrightarrow>
   (\<And>a ds. mv_objs m o' = Some (a, ds) \<Longrightarrow> uncommitted m' ds = uncommitted m ds) \<Longrightarrow> committed m' o' = committed m o'"
  by (auto simp: committed_def split: option.splits)

lemma uncommitted_active:
  assumes "mv_active m' = (mv_active m)(i \<mapsto> T')" and "mv_active m i = Some T \<or> (\<forall>d \<in> set ds. d_commit_info d \<noteq> i)"
  shows "uncommitted m' ds = uncommitted m ds"
  unfolding uncommitted_def using assms by (intro takeWhile_eq) auto

text \<open>The commit of a transaction installs everything it wrote, as the transaction saw it, and nothing else.\<close>

theorem commit_installs:
  assumes "mv_step Commit i m m'" and inv: "mv_inv m" and T: "mv_active m i = Some T"
  shows "committed m' o' = (if written_by m i o' then sees m T NEW o' else committed m o')"
proof (cases "mv_objs m o'")
  case None
  moreover have "mv_objs m' = mv_objs m"
    using assms(1) by (cases rule: mv_step.cases) simp
  ultimately show ?thesis
    by (simp add: committed_def written_by_def)
next
  case (Some p)
  obtain a ds where o: "mv_objs m o' = Some (a, ds)"
    using Some by (cases p) auto
  have m': "mv_objs m' = mv_objs m" "mv_active m' = (mv_active m)(i := None)"
    using assms(1) by (cases rule: mv_step.cases; simp)+
  note old = mv_invD(2)[OF inv o]
  show ?thesis
  proof (cases "written_by m i o'")
    case True
    then obtain d where d: "d \<in> set ds" "d_commit_info d = i"
      using o by (auto simp: written_by_def list_ex_iff)
    have "mv_active m' (d_commit_info e) = None" if "e \<in> set ds" for e
    proof (cases "mv_active m (d_commit_info e)")
      case (Some U)
      have "uncommitted m ds = own_block (d_commit_info e) ds" "uncommitted m ds = own_block i ds"
        using uncommitted_block[OF obj_okD(1)[OF old] that Some] uncommitted_block[OF obj_okD(1)[OF old] d(1)] T d(2) by auto
      moreover have "own_block i ds \<noteq> []"
        using own_block_Nil_iff[OF obj_okD(1)[OF old] T] d by auto
      ultimately have "d_commit_info e = i"
        by (metis own_blockD list.set_intros(1) neq_Nil_conv)
      then show ?thesis
        using m' by simp
    qed (use m' in auto)
    then have "uncommitted m' ds = []"
      by (intro uncommitted_Nil) simp
    then have "committed m' o' = alive a"
      using o m' by (simp add: committed_def)
    then show ?thesis
      using own_write_seen[OF inv T o d] True by simp
  next
    case False
    then have "d_commit_info d \<noteq> i" if "d \<in> set ds" for d
      using o that by (auto simp: written_by_def list_ex_iff)
    then have "uncommitted m' ds = uncommitted m ds"
      unfolding uncommitted_def using m' by (intro takeWhile_eq) auto
    then show ?thesis
      using o m' False by (simp add: committed_def)
  qed
qed

text \<open>No other step changes the committed state: not the writes, and not the abort.\<close>

theorem committed_stable:
  assumes "mv_step ev i m m'" and "mv_inv m" and "ev \<noteq> Commit"
  shows "committed m' o' = committed m o'"
  using assms
proof (induction rule: mv_step.induct)
  case (begin_tx i m T)
  have "d_commit_info d \<noteq> i" if "mv_objs m o' = Some (a, ds)" "d \<in> set ds" for a ds d
    using obj_okD(5)[OF mv_invD(2)[OF begin_tx.prems(1) that(1)] that(2)] begin_tx(1) by simp
  then show ?case
    by (intro committed_eqI uncommitted_active[where T' = T]) auto
next
  case (local m i T T' h')
  then show ?case
    by (intro committed_eqI uncommitted_active[where T' = T']) auto
next
  case (push m i T p a ds T' h' new a')
  let ?m = "m\<lparr>mv_active := (mv_active m)(i \<mapsto> T'), mv_heap := h', mv_objs := (mv_objs m)(p \<mapsto> (a', new @ ds))\<rparr>"
  have i: "tx_id T = i"
    using txs_okD[OF mv_invD(1)[OF push.prems(1)] push(1)] by (simp add: tx_ok_def)
  show ?case
  proof (cases "o' = p")
    case True
    have "uncommitted ?m (new @ ds) = new @ uncommitted ?m ds"
      unfolding uncommitted_def using push(4) i by (subst takeWhile_append2) (auto simp: pushed_def)
    moreover have "uncommitted ?m ds = uncommitted m ds"
      using push(1) by (intro uncommitted_active[where T' = T']) auto
    ultimately show ?thesis
      using True push(2,7) by (simp add: committed_def)
  next
    case False
    then show ?thesis
      using push(1) by (intro committed_eqI uncommitted_active[where T' = T']) auto
  qed
next
  case (create m i T p T' h' d a')
  have i: "d_commit_info d = i"
    using txs_okD[OF mv_invD(1)[OF create.prems(1)] create(1)] create(3) by (simp add: tx_ok_def pushed_def)
  show ?case
  proof (cases "o' = p")
    case True
    then show ?thesis
      using create(2,4) i by (simp add: committed_def uncommitted_def aundo_def alive_def)
  next
    case False
    then show ?thesis
      using create(1) by (intro committed_eqI uncommitted_active[where T' = T']) auto
  qed
next
  case (tick m i)
  then show ?case
    by (intro committed_eqI) (simp_all add: uncommitted_def)
next
  case (commit m i T h')
  then show ?case
    by simp
next
  case (abort m i T h')
  let ?m = "m\<lparr>mv_active := (mv_active m)(i := None), mv_heap := h', mv_objs := \<lambda>o'. rolled_back i (mv_objs m o')\<rparr>"
  show ?case
  proof (cases "mv_objs m o'")
    case (Some p)
    obtain a ds where o: "mv_objs m o' = Some (a, ds)"
      using Some by (cases p) auto
    note old = mv_invD(2)[OF abort.prems(1) o]
    have same: "uncommitted ?m (below_block i ds) = uncommitted m (below_block i ds)"
      unfolding uncommitted_def using below_block_other[OF obj_okD(1)[OF old] abort(1)] by (intro takeWhile_eq) auto
    have "uncommitted m (own_block i ds @ below_block i ds) = own_block i ds @ uncommitted m (below_block i ds)"
      unfolding uncommitted_def using abort(1) by (subst takeWhile_append2) (auto dest: own_blockD)
    then have "uncommitted m ds = own_block i ds @ uncommitted m (below_block i ds)"
      by (simp add: block_split)
    then show ?thesis
      using o same by (auto simp: committed_def rolled_back_def alive_def a_exists_undo_all)
  qed (simp add: committed_def rolled_back_def)
next
  case (prune m objs' i)
  show ?case
  proof (cases "mv_objs m o'")
    case None
    then show ?thesis
      using prune(1)[rule_format, of o'] by (simp add: committed_def pruned_def)
  next
    case (Some p)
    obtain a ds where o: "mv_objs m o' = Some (a, ds)"
      using Some by (cases p) auto
    then obtain new old where no: "ds = new @ old" "\<forall>d \<in> set old. obsolete m d" "objs' o' = Some (a, new) \<or> objs' o' = None \<and> new = [] \<and> a_deleted a"
      using prune(1)[rule_format, of o'] by (auto simp: pruned_def)
    have "uncommitted m old = []"
      using no(2) by (intro uncommitted_Nil) (simp add: obsolete_def)
    then have "uncommitted m ds = uncommitted m new"
      unfolding no(1) uncommitted_def by (rule takeWhile_append_Nil)
    then show ?thesis
      using o no(3) by (auto simp: committed_def alive_def uncommitted_def)
  qed
qed

section \<open>Deltas and their transactions\<close>

text \<open>The deltas with the addresses \<open>D\<close>, as far as they are still in a chain, belong to one transaction.\<close>

definition owned :: "mv \<Rightarrow> nat \<Rightarrow> (delta_owner \<times> nat) set \<Rightarrow> bool" where
  "owned m ci D \<longleftrightarrow> (\<forall>(o', uid) \<in> D. uid < h_next_delta (mv_heap m) \<and>
    (\<forall>a ds d. mv_objs m o' = Some (a, ds) \<longrightarrow> d \<in> set ds \<longrightarrow> d_uid d = uid \<longrightarrow> d_commit_info d = ci))"

lemma ownedI:
  "(\<And>o' uid. (o', uid) \<in> D \<Longrightarrow> uid < h_next_delta (mv_heap m)) \<Longrightarrow>
   (\<And>o' a ds d. (o', d_uid d) \<in> D \<Longrightarrow> mv_objs m o' = Some (a, ds) \<Longrightarrow> d \<in> set ds \<Longrightarrow> d_commit_info d = ci) \<Longrightarrow> owned m ci D"
  by (auto simp: owned_def)

lemma ownedD:
  "owned m ci D \<Longrightarrow> (o', uid) \<in> D \<Longrightarrow> uid < h_next_delta (mv_heap m)"
  "owned m ci D \<Longrightarrow> (o', d_uid d) \<in> D \<Longrightarrow> mv_objs m o' = Some (a, ds) \<Longrightarrow> d \<in> set ds \<Longrightarrow> d_commit_info d = ci"
  by (auto simp: owned_def)

lemma owned_Un: "owned m ci (D \<union> E) \<longleftrightarrow> owned m ci D \<and> owned m ci E"
  unfolding owned_def by (simp only: ball_Un)

text \<open>The deltas of each active transaction.\<close>

definition own_deltas :: "mv \<Rightarrow> bool" where
  "own_deltas m \<longleftrightarrow> (\<forall>i T. mv_active m i = Some T \<longrightarrow> owned m i (set (tx_deltas T)))"

lemma owned_change:
  assumes D: "owned m ci D" and grow: "h_next_delta (mv_heap m) \<le> h_next_delta (mv_heap m')"
    and chains: "\<And>o' a ds d. mv_objs m' o' = Some (a, ds) \<Longrightarrow> d \<in> set ds \<Longrightarrow>
      h_next_delta (mv_heap m) \<le> d_uid d \<or> (\<exists>b es. mv_objs m o' = Some (b, es) \<and> d \<in> set es)"
  shows "owned m' ci D"
proof (rule ownedI)
  show "uid < h_next_delta (mv_heap m')" if "(o', uid) \<in> D" for o' uid
    using ownedD(1)[OF D that] grow by simp
  show "d_commit_info d = ci" if "(o', d_uid d) \<in> D" "mv_objs m' o' = Some (a, ds)" "d \<in> set ds" for o' a ds d
    using chains[OF that(2,3)] ownedD(1)[OF D that(1)] ownedD(2)[OF D that(1)] by auto
qed

lemma mv_step_owned:
  assumes "mv_step ev i m m'" and "owned m ci D"
  shows "owned m' ci D"
proof (rule owned_change[OF assms(2)])
  show "h_next_delta (mv_heap m) \<le> h_next_delta (mv_heap m')"
    using assms(1) by (cases rule: mv_step.cases) (auto simp: pushed_def tx_step_def)
next
  fix o' a ds d
  assume o: "mv_objs m' o' = Some (a, ds)" and d: "d \<in> set ds"
  show "h_next_delta (mv_heap m) \<le> d_uid d \<or> (\<exists>b es. mv_objs m o' = Some (b, es) \<and> d \<in> set es)"
    using assms(1)
  proof (cases rule: mv_step.cases)
    case (push T p b es T' h' new a')
    then show ?thesis
      using o d by (auto simp: pushed_def split: if_splits)
  next
    case (create T p T' h' e a')
    then show ?thesis
      using o d by (auto simp: pushed_def split: if_splits)
  next
    case (abort T h')
    then have "rolled_back i (mv_objs m o') = Some (a, ds)"
      using o by simp
    then obtain a0 ds0 where "mv_objs m o' = Some (a0, ds0)" "ds = below_block i ds0"
      by (rule rolled_back_SomeD)
    then show ?thesis
      using d by (auto simp: below_block_def dest: set_dropWhileD)
  next
    case (prune objs')
    have "objs' o' = Some (a, ds)"
      using o prune(2) by simp
    then have "pruned m (mv_objs m o') (Some (a, ds))"
      using prune(3) by metis
    then show ?thesis
      using d by (auto dest: prunedD)
  qed (use o d in auto)
qed

lemma mv_step_own_deltas:
  assumes "mv_step ev i m m'" and "mv_inv m" and "own_deltas m"
  shows "own_deltas m'"
proof -
  have old: "owned m' j (set (tx_deltas U))" if "mv_active m j = Some U" for j U
    using mv_step_owned[OF assms(1)] assms(3) that by (simp add: own_deltas_def)
  show ?thesis
    using assms(1)
  proof (cases rule: mv_step.cases)
    case (begin_tx T)
    then show ?thesis
      using old by (auto simp: own_deltas_def owned_def)
  next
    case (local T T' h')
    then show ?thesis
      using old by (auto simp: own_deltas_def)
  next
    case (push T p a ds T' h' new a')
    have i: "tx_id T = i"
      using txs_okD[OF mv_invD(1)[OF assms(2)] push(3)] by (simp add: tx_ok_def)
    have "owned m' i ((\<lambda>d. (p, d_uid d)) ` set new)"
    proof (rule ownedI)
      show "uid < h_next_delta (mv_heap m')" if "(o', uid) \<in> (\<lambda>d. (p, d_uid d)) ` set new" for o' uid
        using push(2,6) that by (auto simp: pushed_def)
    next
      fix o' b es d
      assume d: "(o', d_uid d) \<in> (\<lambda>d. (p, d_uid d)) ` set new" "mv_objs m' o' = Some (b, es)" "d \<in> set es"
      then have "o' = p" "es = new @ ds" and old: "h_next_delta (mv_heap m) \<le> d_uid d"
        using push(2,6) by (auto simp: pushed_def)
      moreover have "d \<notin> set ds"
        using obj_okD(4)[OF mv_invD(2)[OF assms(2) push(4)], of d] old by (auto simp: delta_ok_def)
      ultimately show "d_commit_info d = i"
        using push(6) i d(3) by (simp add: pushed_def)
    qed
    then show ?thesis
      using old push by (auto simp: own_deltas_def owned_Un)
  next
    case (create T p T' h' d a')
    have "owned m' i {(p, d_uid d)}"
      using create(2,5) txs_okD[OF mv_invD(1)[OF assms(2)] create(3)] by (auto simp: owned_def pushed_def tx_ok_def)
    then show ?thesis
      using old[of i T] old create owned_Un[of m' i "{(p, d_uid d)}" "set (tx_deltas T)"] by (auto simp: own_deltas_def)
  qed (use old in \<open>auto simp: own_deltas_def\<close>)
qed

text \<open>The timestamp of a finished transaction stays.\<close>

lemma mv_step_finished:
  assumes "mv_step ev i m m'" and "mv_inv m" and "mv_active m ci = None" and "ci < mv_next_id m"
  shows "mv_active m' ci = None \<and> ci < mv_next_id m' \<and> ci_timestamp (h_commit_infos (mv_heap m') ci) = ci_timestamp (h_commit_infos (mv_heap m) ci)"
  using assms
proof (induction rule: mv_step.induct)
  case (local m i T T' h')
  then show ?case
    using txs_okD[OF mv_invD(1)[OF local.prems(1)] local(1)] by (auto simp: tx_step_def tx_ok_def)
next
  case (push m i T p a ds T' h' new a')
  then show ?case
    using txs_okD[OF mv_invD(1)[OF push.prems(1)] push(1)] by (auto simp: pushed_def tx_step_def tx_ok_def)
next
  case (create m i T p T' h' d a')
  then show ?case
    using txs_okD[OF mv_invD(1)[OF create.prems(1)] create(1)] by (auto simp: pushed_def tx_step_def tx_ok_def)
qed auto

end
