(* ===== verification/Simulation.thy ===== *)
theory Simulation
  imports Snapshots CacheCoherence Transactions
begin

text \<open>
  The storage as an instance of the abstract multi-version machine: its vertices and edges are the objects.
  The invariant of the store adds what the machine does not know: the vectors and property
  stores are well-formed, edge references are unique, the commit log counts exactly the finished
  timestamps, and no vertex carries the flag of non-sequential deltas.
\<close>

section \<open>The abstraction\<close>

definition abs_edge :: "edge \<Rightarrow> aversion" where
  "abs_edge x = \<lparr>a_exists = True, a_deleted = e_deleted x, a_labels = {}, a_props = (\<lambda>p. GetProperty p (e_properties x)),
     a_in = {}, a_out = {}\<rparr>"

definition objs :: "db \<Rightarrow> delta_owner \<rightharpoonup> aversion \<times> delta list" where
  "objs db o' = (case o' of
     Owner_vertex g \<Rightarrow> map_option (\<lambda>v. (abs_vertex v, v_deltas v)) (db_vertices db g)
   | Owner_edge e \<Rightarrow> map_option (\<lambda>x. (abs_edge x, e_deltas x)) (db_edges db e))"

definition mv_of :: "actives \<Rightarrow> db \<Rightarrow> mv" where
  "mv_of A db = \<lparr>mv_active = A, mv_heap = db_heap db, mv_now = db_timestamp db, mv_next_id = db_transaction_id db, mv_objs = objs db\<rparr>"

lemma mv_of_simps [simp]:
  "mv_active (mv_of A db) = A" "mv_heap (mv_of A db) = db_heap db" "mv_now (mv_of A db) = db_timestamp db"
  "mv_next_id (mv_of A db) = db_transaction_id db" "mv_objs (mv_of A db) = objs db"
  by (simp_all add: mv_of_def)

lemma objs_simps [simp]:
  "db_vertices db g = Some v \<Longrightarrow> objs db (Owner_vertex g) = Some (abs_vertex v, v_deltas v)"
  "db_vertices db g = None \<Longrightarrow> objs db (Owner_vertex g) = None"
  "db_edges db e = Some x \<Longrightarrow> objs db (Owner_edge e) = Some (abs_edge x, e_deltas x)"
  "db_edges db e = None \<Longrightarrow> objs db (Owner_edge e) = None"
  by (simp_all add: objs_def)

lemma objs_eqI: "db_vertices db' = db_vertices db \<Longrightarrow> db_edges db' = db_edges db \<Longrightarrow> objs db' = objs db"
  by (auto simp: objs_def fun_eq_iff split: delta_owner.splits)

lemma objs_put_vertex:
  "db_vertices db' = (db_vertices db)(g \<mapsto> v) \<Longrightarrow> db_edges db' = db_edges db \<Longrightarrow>
   objs db' = (objs db)(Owner_vertex g \<mapsto> (abs_vertex v, v_deltas v))"
  by (auto simp: objs_def fun_eq_iff split: delta_owner.splits)

lemma objs_put_edge:
  "db_edges db' = (db_edges db)(e \<mapsto> x) \<Longrightarrow> db_vertices db' = db_vertices db \<Longrightarrow>
   objs db' = (objs db)(Owner_edge e \<mapsto> (abs_edge x, e_deltas x))"
  by (auto simp: objs_def fun_eq_iff split: delta_owner.splits)

section \<open>The store\<close>

text \<open>The entry of an edge vector a delta is about, and the entry an edge creation puts there.\<close>

definition in_entry :: "delta_op \<Rightarrow> edge_entry option" where
  "in_entry op = (case op of ADD_IN_EDGE t w e _ \<Rightarrow> Some (t, w, e) | REMOVE_IN_EDGE t w e _ \<Rightarrow> Some (t, w, e) | _ \<Rightarrow> None)"

definition out_entry :: "delta_op \<Rightarrow> edge_entry option" where
  "out_entry op = (case op of ADD_OUT_EDGE t w e _ \<Rightarrow> Some (t, w, e) | REMOVE_OUT_EDGE t w e _ \<Rightarrow> Some (t, w, e) | _ \<Rightarrow> None)"

definition creates_entry :: "(delta_op \<Rightarrow> edge_entry option) \<Rightarrow> delta_op \<Rightarrow> edge_entry option" where
  "creates_entry entry op = (if CanBeNonSequential op then entry op else None)"

text \<open>All entries a vector has had since its oldest delta; the edge names the entry, and is created once.\<close>

definition all_entries :: "(delta_op \<Rightarrow> edge_entry option) \<Rightarrow> edge_entry list \<Rightarrow> delta list \<Rightarrow> edge_entry set" where
  "all_entries entry es ds = set es \<union> {x. \<exists>d \<in> set ds. entry (d_op d) = Some x}"

definition vector_ok :: "(delta_op \<Rightarrow> edge_entry option) \<Rightarrow> nat \<Rightarrow> edge_entry list \<Rightarrow> delta list \<Rightarrow> bool" where
  "vector_ok entry n es ds \<longleftrightarrow> inj_on (snd \<circ> snd) (all_entries entry es ds) \<and>
    (\<forall>x \<in> all_entries entry es ds. snd (snd x) < n) \<and>
    sorted_wrt (\<lambda>d d'. \<forall>x. creates_entry entry (d_op d) = Some x \<longrightarrow> entry (d_op d') \<noteq> Some x) ds"

definition vertex_ok :: "nat \<Rightarrow> gid \<Rightarrow> vertex \<Rightarrow> bool" where
  "vertex_ok n g v \<longleftrightarrow> v_gid v = g \<and> vertex_wf v \<and> \<not> v_has_uncommitted_non_sequential_deltas v \<and>
    vector_ok in_entry n (v_in_edges v) (v_deltas v) \<and> vector_ok out_entry n (v_out_edges v) (v_deltas v)"

definition edge_op :: "delta_op \<Rightarrow> bool" where
  "edge_op op \<longleftrightarrow> (case op of SET_PROPERTY _ _ _ \<Rightarrow> True | DELETE_OBJECT \<Rightarrow> True | DELETE_DESERIALIZED_OBJECT \<Rightarrow> True
     | RECREATE_OBJECT \<Rightarrow> True | _ \<Rightarrow> False)"

definition edge_ok :: "gid \<Rightarrow> edge \<Rightarrow> bool" where
  "edge_ok e x \<longleftrightarrow> e_gid x = e \<and> props_ok (e_properties x) \<and> (\<forall>d \<in> set (e_deltas x). edge_op (d_op d))"

definition store_ok :: "db \<Rightarrow> bool" where
  "store_ok db \<longleftrightarrow>
    (\<forall>g v. db_vertices db g = Some v \<longrightarrow> vertex_ok (db_edge_id db) g v \<and> g < db_vertex_id db) \<and>
    (\<forall>e x. db_edges db e = Some x \<longrightarrow> edge_ok e x \<and> e < db_edge_id db) \<and>
    (cfg_enable_edges_metadata (db_config db) \<longrightarrow> dom (db_edges db) \<subseteq> dom (db_edges_metadata db))"

text \<open>The commit log: the start timestamps of the active transactions are not finished, and differ.\<close>

definition log_ok :: "actives \<Rightarrow> db \<Rightarrow> bool" where
  "log_ok A db \<longleftrightarrow> cl_inv (db_commit_log db) \<and> finished (db_commit_log db) \<subseteq> {..<db_timestamp db} \<and>
    (\<forall>i T. A i = Some T \<longrightarrow> tx_start T \<notin> finished (db_commit_log db)) \<and>
    (\<forall>i T j U. A i = Some T \<longrightarrow> A j = Some U \<longrightarrow> i \<noteq> j \<longrightarrow> tx_start T \<noteq> tx_start U)"

definition db_ok :: "actives \<Rightarrow> db \<Rightarrow> bool" where
  "db_ok A db \<longleftrightarrow> mv_inv (mv_of A db) \<and> store_ok db \<and> log_ok A db"

lemma vertex_wf_of: "store_ok db \<Longrightarrow> db_vertices db g = Some v \<Longrightarrow> vertex_ok (db_edge_id db) g v"
  by (simp add: store_ok_def)

lemma db_ok_chain:
  assumes "db_ok A db" and "db_vertices db g = Some v"
  shows "chain_ok A (db_heap db) (db_timestamp db) (v_deltas v)" "undoable_all (v_deltas v) (abs_vertex v)"
  using assms obj_okD(1,2)[OF mv_invD(2), of "mv_of A db" "Owner_vertex g"] by (auto simp: db_ok_def)

lemma db_ok_edge_chain:
  assumes "db_ok A db" and "db_edges db e = Some x"
  shows "chain_ok A (db_heap db) (db_timestamp db) (e_deltas x)" "undoable_all (e_deltas x) (abs_edge x)"
  using assms obj_okD(1,2)[OF mv_invD(2), of "mv_of A db" "Owner_edge e"] by (auto simp: db_ok_def)

lemma db_ok_tx: "db_ok A db \<Longrightarrow> A i = Some T \<Longrightarrow> tx_ok (db_heap db) (db_timestamp db) (db_transaction_id db) i T"
  using txs_okD[OF mv_invD(1), of "mv_of A db"] by (simp add: db_ok_def)

section \<open>Progress of one transaction\<close>

text \<open>The transaction goes from \<open>T\<close> to \<open>T'\<close> and the storage from \<open>db\<close> to \<open>db'\<close> by steps of the machine.\<close>

definition own_step :: "nat \<Rightarrow> mv \<Rightarrow> mv \<Rightarrow> bool" where
  "own_step i m m' \<longleftrightarrow> mv_step Work i m m' \<or> mv_step Write i m m'"

text \<open>What the garbage collector still works with.\<close>

definition gc_core :: "gc_state \<Rightarrow> gc_deltas list \<times> gc_deltas list \<times> gid list \<times> gid list" where
  "gc_core gc = (gc_committed_transactions gc, gc_waiting_deltas gc, gc_deleted_vertices gc, gc_deleted_edges gc)"

lemma gc_core_garbage [simp]: "gc_core (gc\<lparr>gc_garbage_undo_buffers := bs\<rparr>) = gc_core gc"
  by (simp add: gc_core_def)

definition progress :: "nat \<Rightarrow> actives \<Rightarrow> db \<Rightarrow> transaction \<Rightarrow> db \<Rightarrow> bool" where
  "progress i A db T' db' \<longleftrightarrow> (own_step i)\<^sup>*\<^sup>* (mv_of A db) (mv_of (A(i \<mapsto> T')) db') \<and> store_ok db' \<and>
    db_commit_log db' = db_commit_log db \<and> db_timestamp db' = db_timestamp db \<and> db_transaction_id db' = db_transaction_id db \<and>
    gc_core (db_gc db') = gc_core (db_gc db)"

lemma own_steps_inv: "(own_step i)\<^sup>*\<^sup>* m m' \<Longrightarrow> mv_inv m \<Longrightarrow> mv_inv m'"
  by (induction rule: rtranclp_induct) (auto simp: own_step_def intro: mv_step_inv)

lemma own_stepE:
  assumes "own_step i m m'"
  obtains T T' where "mv_active m i = Some T" "mv_active m' = (mv_active m)(i \<mapsto> T')" "tx_start T' = tx_start T"
    "tx_isolation_level T' = tx_isolation_level T" "tx_id T' = tx_id T"
  using assms unfolding own_step_def
  by (elim disjE mv_step.cases) (auto simp: pushed_def tx_step_def)

lemma own_step_start:
  assumes "own_step i m m'" and "mv_active m j = Some T"
  shows "\<exists>T'. mv_active m' j = Some T' \<and> tx_start T' = tx_start T"
  using assms by (elim own_stepE) (cases "j = i"; simp)

lemma own_steps_start:
  assumes "(own_step i)\<^sup>*\<^sup>* m m'" and "mv_active m j = Some T"
  shows "\<exists>T'. mv_active m' j = Some T' \<and> tx_start T' = tx_start T"
  using assms
proof (induction rule: rtranclp_induct)
  case (step m1 m2)
  then obtain T1 where "mv_active m1 j = Some T1" "tx_start T1 = tx_start T"
    by auto
  then show ?case
    using own_step_start[OF step(2), of j T1] by auto
qed simp

lemma progress_db_ok:
  assumes "db_ok A db" and "A i = Some T" and "progress i A db T' db'"
  shows "db_ok (A(i \<mapsto> T')) db'"
proof -
  have inv: "mv_inv (mv_of (A(i \<mapsto> T')) db')"
    using own_steps_inv assms by (auto simp: progress_def db_ok_def)
  have start: "tx_start T' = tx_start T"
    using own_steps_start[of i "mv_of A db" "mv_of (A(i \<mapsto> T')) db'" i T] assms by (auto simp: progress_def)
  have "log_ok (A(i \<mapsto> T')) db'"
    using assms start unfolding db_ok_def log_ok_def progress_def by auto
  then show ?thesis
    using inv assms(3) by (simp add: db_ok_def progress_def)
qed

lemma progress_trans:
  assumes "progress i A db T' db'" and "progress i (A(i \<mapsto> T')) db' T'' db''"
  shows "progress i A db T'' db''"
  using assms unfolding progress_def by (auto intro: rtranclp_trans)

definition frame :: "db \<Rightarrow> db \<Rightarrow> bool" where
  "frame db db' \<longleftrightarrow> db_commit_log db' = db_commit_log db \<and> db_timestamp db' = db_timestamp db \<and>
    db_transaction_id db' = db_transaction_id db \<and> db_vertex_id db' = db_vertex_id db \<and> db_edge_id db' = db_edge_id db \<and>
    db_config db' = db_config db \<and> db_edges_metadata db' = db_edges_metadata db \<and> gc_core (db_gc db') = gc_core (db_gc db)"

lemma frame_refl [simp]: "frame db db"
  by (simp add: frame_def)

lemma frame_trans: "frame db db' \<Longrightarrow> frame db' db'' \<Longrightarrow> frame db db''"
  by (simp add: frame_def)

text \<open>Steps that change only the record of the transaction and the heap.\<close>

lemma progress_local:
  assumes "db_ok A db" and "A i = Some T" and "tx_step T (db_heap db) T' (db_heap db')" and "tx_deltas T' = tx_deltas T"
    and "frame db db'" and "db_vertices db' = db_vertices db" and "db_edges db' = db_edges db"
  shows "progress i A db T' db'"
proof -
  have "mv_of (A(i \<mapsto> T')) db' = (mv_of A db)\<lparr>mv_active := A(i \<mapsto> T'), mv_heap := db_heap db'\<rparr>"
    using assms(5-7) objs_eqI[OF assms(6,7)] by (simp add: mv_of_def frame_def)
  then have "own_step i (mv_of A db) (mv_of (A(i \<mapsto> T')) db')"
    using mv_step.local[of "mv_of A db" i T T' "db_heap db'"] assms(2-4) by (simp add: own_step_def)
  moreover have "store_ok db'"
    using assms(1,5-7) by (simp add: db_ok_def store_ok_def frame_def)
  ultimately show ?thesis
    using assms(5) by (auto simp: progress_def frame_def)
qed

lemma progress_tx:
  assumes "db_ok A db" and "A i = Some T" and "tx_id T' = tx_id T" "tx_start T' = tx_start T"
    "tx_isolation_level T' = tx_isolation_level T" "tx_storage_mode T' = tx_storage_mode T" "tx_command_id T \<le> tx_command_id T'"
    "tx_commit_info T' = tx_commit_info T" "tx_deltas T' = tx_deltas T"
    and "frame db db'" and "db_vertices db' = db_vertices db" "db_edges db' = db_edges db" "db_heap db' = db_heap db"
  shows "progress i A db T' db'"
proof (rule progress_local[OF assms(1,2) _ assms(9-12)])
  show "tx_step T (db_heap db) T' (db_heap db')"
    using db_ok_tx[OF assms(1,2)] assms(3-8,13) by (auto simp: tx_step_def tx_ok_def)
qed

text \<open>A write to a vertex: deltas pushed on its chain, and a new content from which they lead back.\<close>

lemma progress_vertex:
  assumes "db_ok A db" and T: "A i = Some T" and v: "db_vertices db g = Some v" "\<not> v_deleted v" and w: "writable (db_heap db) T (v_deltas v)"
    and p: "pushed T (db_heap db) T' (db_heap db') new"
    and deltas: "set (tx_deltas T') = set (tx_deltas T) \<union> (\<lambda>d. (Owner_vertex g, d_uid d)) ` set new"
    and v': "v_deltas v' = new @ v_deltas v" "undoable_all new (abs_vertex v')" "undo_all new (abs_vertex v') = abs_vertex v"
      "vertex_ok (db_edge_id db) g v'"
    and db': "frame db db'" "db_vertices db' = (db_vertices db)(g \<mapsto> v')" "db_edges db' = db_edges db"
  shows "progress i A db T' db'"
proof -
  have "mv_of (A(i \<mapsto> T')) db' = (mv_of A db)\<lparr>mv_active := A(i \<mapsto> T'), mv_heap := db_heap db',
      mv_objs := (objs db)(Owner_vertex g \<mapsto> (abs_vertex v', new @ v_deltas v))\<rparr>"
    using db'(1) objs_put_vertex[OF db'(2,3)] v'(1) by (simp add: mv_of_def frame_def)
  moreover have "a_exists (abs_vertex v')" "\<not> a_deleted (abs_vertex v)"
    using v(2) by (simp_all add: abs_vertex_def)
  ultimately have "own_step i (mv_of A db) (mv_of (A(i \<mapsto> T')) db')"
    using mv_step.push[of "mv_of A db" i T "Owner_vertex g" "abs_vertex v" "v_deltas v" T' "db_heap db'" new "abs_vertex v'"]
      T v w p deltas v'(2,3) by (simp add: own_step_def)
  moreover have "store_ok db'"
    using assms(1) v v'(4) db' by (auto simp: db_ok_def store_ok_def frame_def)
  ultimately show ?thesis
    using db'(1) by (auto simp: progress_def frame_def)
qed

lemma progress_edge:
  assumes "db_ok A db" and T: "A i = Some T" and x: "db_edges db e = Some x" "\<not> e_deleted x" and w: "writable (db_heap db) T (e_deltas x)"
    and p: "pushed T (db_heap db) T' (db_heap db') new"
    and deltas: "set (tx_deltas T') = set (tx_deltas T) \<union> (\<lambda>d. (Owner_edge e, d_uid d)) ` set new"
    and x': "e_deltas x' = new @ e_deltas x" "undoable_all new (abs_edge x')" "undo_all new (abs_edge x') = abs_edge x" "edge_ok e x'"
    and db': "frame db db'" "db_edges db' = (db_edges db)(e \<mapsto> x')" "db_vertices db' = db_vertices db"
  shows "progress i A db T' db'"
proof -
  have "mv_of (A(i \<mapsto> T')) db' = (mv_of A db)\<lparr>mv_active := A(i \<mapsto> T'), mv_heap := db_heap db',
      mv_objs := (objs db)(Owner_edge e \<mapsto> (abs_edge x', new @ e_deltas x))\<rparr>"
    using db'(1) objs_put_edge[OF db'(2,3)] x'(1) by (simp add: mv_of_def frame_def)
  moreover have "a_exists (abs_edge x')" "\<not> a_deleted (abs_edge x)"
    using x(2) by (simp_all add: abs_edge_def)
  ultimately have "own_step i (mv_of A db) (mv_of (A(i \<mapsto> T')) db')"
    using mv_step.push[of "mv_of A db" i T "Owner_edge e" "abs_edge x" "e_deltas x" T' "db_heap db'" new "abs_edge x'"]
      T x w p deltas x'(2,3) by (simp add: own_step_def)
  moreover have "store_ok db'"
    using assms(1) x x'(4) db' by (auto simp: db_ok_def store_ok_def frame_def)
  ultimately show ?thesis
    using db'(1) by (auto simp: progress_def frame_def)
qed

section \<open>Linking deltas\<close>

definition sequential_op :: "delta_op \<Rightarrow> bool" where
  "sequential_op op \<longleftrightarrow> \<not> (CanBeNonSequential op \<and> op_state op = Some NON_SEQUENTIAL)"

text \<open>What linking leaves of a transaction: the deltas are added, the commit info exists, the rest is the same.\<close>

definition tx_core :: "transaction \<Rightarrow> transaction" where
  "tx_core T = T\<lparr>tx_commit_info := None, tx_deltas := [], tx_cache := empty_cache, tx_edge_set_property_info := Map.empty\<rparr>"

lemma tx_coreD:
  assumes "tx_core T' = tx_core T"
  shows "tx_id T' = tx_id T" "tx_start T' = tx_start T" "tx_command_id T' = tx_command_id T"
    "tx_has_serialization_error T' = tx_has_serialization_error T" "tx_isolation_level T' = tx_isolation_level T"
    "tx_storage_mode T' = tx_storage_mode T" "tx_edge_import_mode_active T' = tx_edge_import_mode_active T"
    "tx_parallel_execution T' = tx_parallel_execution T" "tx_type_constraints T' = tx_type_constraints T"
  using arg_cong[OF assms, of tx_id] arg_cong[OF assms, of tx_start] arg_cong[OF assms, of tx_command_id]
    arg_cong[OF assms, of tx_has_serialization_error] arg_cong[OF assms, of tx_isolation_level] arg_cong[OF assms, of tx_storage_mode]
    arg_cong[OF assms, of tx_edge_import_mode_active] arg_cong[OF assms, of tx_parallel_execution] arg_cong[OF assms, of tx_type_constraints]
  by (simp_all add: tx_core_def)

definition linked :: "delta_owner \<Rightarrow> transaction \<Rightarrow> delta_heap \<Rightarrow> transaction \<Rightarrow> delta_heap \<Rightarrow> delta list \<Rightarrow> bool" where
  "linked o' T h T' h' new \<longleftrightarrow> pushed T h T' h' new \<and>
    tx_deltas T' = tx_deltas T @ map (\<lambda>d. (o', d_uid d)) (rev new) \<and>
    tx_core T' = tx_core T"

lemma CreateAndLinkDelta_linked:
  assumes "tx_ok h now n i T" and "sequential_op op"
  shows "\<exists>d T' h'. CreateAndLinkDelta o' op T h ds = (T', h', d # ds) \<and> d_op d = op \<and> linked o' T h T' h' [d] \<and>
    tx_cache T' = tx_cache T"
proof -
  obtain T1 h1 where e: "EnsureCommitInfoExists T h = (T1, h1)"
    by (cases "EnsureCommitInfoExists T h")
  have T1: "tx_commit_info T1 = Some i" "tx_step T h T1 h1" "tx_deltas T1 = tx_deltas T" "h_next_delta h1 = h_next_delta h"
    "T1 = T\<lparr>tx_commit_info := Some i\<rparr>" "tx_id T = i" "tx_storage_mode T1 = IN_MEMORY_TRANSACTIONAL"
    using e assms(1) by (auto simp: EnsureCommitInfoExists_def tx_ok_def tx_step_def split: option.splits)
  let ?d = "new_delta T1 h1 op"
  have ns: "\<not> IsDeltaNonSequential ?d"
    using assms(2) by (simp add: IsDeltaNonSequential_def new_delta_def sequential_op_def)
  then have up: "upgrade_head ?d ds h2 = (ds, h2)" for h2
    by (cases ds) (simp_all add: upgrade_head_def)
  let ?T = "T1\<lparr>tx_deltas := tx_deltas T1 @ [(o', d_uid ?d)]\<rparr>" and ?h = "h1\<lparr>h_next_delta := h_next_delta h1 + 1\<rparr>"
  have "CreateAndLinkDelta o' op T h ds = (?T, ?h, ?d # ds)"
    using assms(1) e up by (simp add: CreateAndLinkDelta_def tx_ok_def Let_def)
  moreover have "tx_step T h ?T ?h"
    using T1(2,4) by (simp add: tx_step_def)
  then have "pushed T h ?T ?h [?d]"
    using T1 ns by (auto simp: pushed_def new_delta_def)
  then have "linked o' T h ?T ?h [?d]"
    using T1(3,5) by (simp add: linked_def tx_core_def)
  ultimately show ?thesis
    using T1(5) by (auto simp: new_delta_def)
qed

lemma linked_Nil: "tx_ok h now n i T \<Longrightarrow> tx_commit_info T = Some i \<Longrightarrow> linked o' T h (T\<lparr>tx_cache := c\<rparr>) h []"
  by (auto simp: linked_def pushed_def tx_step_def tx_ok_def tx_core_def)

lemma linked_append:
  assumes "linked o' T h T1 h1 ds" and "linked o' T1 h1 T2 h2 es"
  shows "linked o' T h T2 h2 (es @ ds)"
proof -
  have p: "pushed T h T1 h1 ds" "pushed T1 h1 T2 h2 es"
    using assms by (auto simp: linked_def)
  have "d_uid d \<noteq> d_uid e" if "d \<in> set es" "e \<in> set ds" for d e
    using p that unfolding pushed_def by (metis leD)
  then have "pushed T h T2 h2 (es @ ds)"
    using p tx_step_trans[of T h T1 h1 T2 h2] unfolding pushed_def by (auto simp: tx_step_def)
  then show ?thesis
    using assms unfolding linked_def by simp
qed

lemma tx_step_cache [simp]: "tx_step T h (T1\<lparr>tx_cache := c\<rparr>) h1 = tx_step T h T1 h1"
  by (simp add: tx_step_def)

lemma tx_step_info [simp]: "tx_step T h (T1\<lparr>tx_edge_set_property_info := f\<rparr>) h1 = tx_step T h T1 h1"
  by (simp add: tx_step_def)

lemma linked_info: "linked o' T h T1 h1 ds \<Longrightarrow> linked o' T h (T1\<lparr>tx_edge_set_property_info := f\<rparr>) h1 ds"
  by (simp add: linked_def pushed_def tx_core_def)

lemma linked_cache: "linked o' T h T1 h1 ds \<Longrightarrow> linked o' T h (T1\<lparr>tx_cache := c\<rparr>) h1 ds"
  by (simp add: linked_def pushed_def tx_core_def)

lemma link_vertex_delta_linked:
  assumes "tx_ok (db_heap db) now n i T" and "sequential_op op"
  shows "\<exists>d T' db'. link_vertex_delta v op T db = (v\<lparr>v_deltas := d # v_deltas v\<rparr>, T', db') \<and> d_op d = op \<and>
    linked (Owner_vertex (v_gid v)) T (db_heap db) T' (db_heap db') [d] \<and> tx_cache T' = tx_cache T \<and> frame db db' \<and>
    db_vertices db' = (db_vertices db)(v_gid v \<mapsto> v\<lparr>v_deltas := d # v_deltas v\<rparr>) \<and> db_edges db' = db_edges db"
proof -
  obtain d T' h' where l: "CreateAndLinkDelta (Owner_vertex (v_gid v)) op T (db_heap db) (v_deltas v) = (T', h', d # v_deltas v)"
    "d_op d = op" "linked (Owner_vertex (v_gid v)) T (db_heap db) T' h' [d]" "tx_cache T' = tx_cache T"
    using CreateAndLinkDelta_linked[OF assms, of "Owner_vertex (v_gid v)" "v_deltas v"] by blast
  then show ?thesis
    by (intro exI[of _ d] exI[of _ T'] exI[of _ "put_vertex (v\<lparr>v_deltas := d # v_deltas v\<rparr>) (db\<lparr>db_heap := h'\<rparr>)"])
       (simp add: link_vertex_delta_def frame_def Let_def)
qed

lemma link_edge_delta_linked:
  assumes "tx_ok (db_heap db) now n i T" and "sequential_op op"
  shows "\<exists>d T' db'. link_edge_delta x op T db = (x\<lparr>e_deltas := d # e_deltas x\<rparr>, T', db') \<and> d_op d = op \<and>
    linked (Owner_edge (e_gid x)) T (db_heap db) T' (db_heap db') [d] \<and> tx_cache T' = tx_cache T \<and> frame db db' \<and>
    db_edges db' = (db_edges db)(e_gid x \<mapsto> x\<lparr>e_deltas := d # e_deltas x\<rparr>) \<and> db_vertices db' = db_vertices db"
proof -
  obtain d T' h' where l: "CreateAndLinkDelta (Owner_edge (e_gid x)) op T (db_heap db) (e_deltas x) = (T', h', d # e_deltas x)"
    "d_op d = op" "linked (Owner_edge (e_gid x)) T (db_heap db) T' h' [d]" "tx_cache T' = tx_cache T"
    using CreateAndLinkDelta_linked[OF assms, of "Owner_edge (e_gid x)" "e_deltas x"] by blast
  then show ?thesis
    by (intro exI[of _ d] exI[of _ T'] exI[of _ "put_edge (x\<lparr>e_deltas := d # e_deltas x\<rparr>) (db\<lparr>db_heap := h'\<rparr>)"])
       (simp add: link_edge_delta_def frame_def Let_def)
qed

section \<open>Creating objects\<close>

lemma progress_create:
  assumes "A i = Some T" and "objs db o' = None" and "pushed T (db_heap db) T' (db_heap db') [d]" and "d_op d = DELETE_OBJECT"
    and "set (tx_deltas T') = insert (o', d_uid d) (set (tx_deltas T))" and "objs db' = (objs db)(o' \<mapsto> (a', [d]))" and "a_exists a'"
    and "store_ok db'" "db_commit_log db' = db_commit_log db" "db_timestamp db' = db_timestamp db"
      "db_transaction_id db' = db_transaction_id db" "gc_core (db_gc db') = gc_core (db_gc db)"
  shows "progress i A db T' db'"
proof -
  have "mv_of (A(i \<mapsto> T')) db' = (mv_of A db)\<lparr>mv_active := A(i \<mapsto> T'), mv_heap := db_heap db', mv_objs := (objs db)(o' \<mapsto> (a', [d]))\<rparr>"
    using assms(6,10,11) by (simp add: mv_of_def)
  then have "own_step i (mv_of A db) (mv_of (A(i \<mapsto> T')) db')"
    using mv_step.create[of "mv_of A db" i T o' T' "db_heap db'" d a'] assms(1-5,7) by (simp add: own_step_def)
  then show ?thesis
    using assms(8-12) by (auto simp: progress_def)
qed

lemma CreateDeleteObjectDelta_linked:
  assumes "tx_ok h now n i T"
  shows "\<exists>d T' h'. CreateDeleteObjectDelta o' T h = ([d], T', h') \<and> d_op d = DELETE_OBJECT \<and> linked o' T h T' h' [d] \<and>
    tx_cache T' = tx_cache T"
proof -
  obtain d T' h' where l: "CreateAndLinkDelta o' DELETE_OBJECT T h [] = (T', h', d # [])" "d_op d = DELETE_OBJECT"
    "linked o' T h T' h' [d]" "tx_cache T' = tx_cache T"
    using CreateAndLinkDelta_linked[OF assms, of DELETE_OBJECT o' "[]"] by (auto simp: sequential_op_def CanBeNonSequential_def)
  then have "CreateDeleteObjectDelta o' T h = ([d], T', h')"
    by (auto simp: CreateDeleteObjectDelta_def CreateAndLinkDelta_def new_delta_def upgrade_head_def Let_def split: if_splits prod.splits)
  then show ?thesis
    using l by blast
qed

end
