(* ===== verification/WriteSteps.thy ===== *)
theory WriteSteps
  imports Simulation
begin

text \<open>
  The writes of the vertex accessor are steps of the multi-version machine: whatever they return, the
  transaction has pushed deltas that lead back from the new content of the vertex to the old one.
\<close>

section \<open>Writing one vertex\<close>

lemma progress_linked:
  assumes "db_ok A db" and "A i = Some T" and "db_vertices db g = Some v" "\<not> v_deleted v" and "writable (db_heap db) T (v_deltas v)"
    and "linked (Owner_vertex g) T (db_heap db) T' (db_heap db') new"
    and "v_deltas v' = new @ v_deltas v" "undoable_all new (abs_vertex v')" "undo_all new (abs_vertex v') = abs_vertex v"
      "vertex_ok (db_edge_id db) g v'"
    and "frame db db'" "db_vertices db' = (db_vertices db)(g \<mapsto> v')" "db_edges db' = db_edges db"
  shows "progress i A db T' db'"
  using assms(6) by (intro progress_vertex[OF assms(1-5) _ _ assms(7-13)]) (auto simp: linked_def)

lemma progress_refl:
  assumes "db_ok A db" and "A i = Some T"
  shows "progress i A db T db"
  using assms by (intro progress_tx[OF assms]) simp_all

lemma progress_error:
  assumes "db_ok A db" and "A i = Some T"
  shows "progress i A db (T\<lparr>tx_has_serialization_error := b\<rparr>) db"
  using assms by (intro progress_tx[OF assms]) simp_all

lemma vector_ok_other:
  assumes "\<forall>d \<in> set new. entry (d_op d) = None"
  shows "vector_ok entry n es (new @ ds) \<longleftrightarrow> vector_ok entry n es ds"
proof -
  have "all_entries entry es (new @ ds) = all_entries entry es ds"
    using assms by (auto simp: all_entries_def)
  moreover have "sorted_wrt (\<lambda>d d'. \<forall>x. creates_entry entry (d_op d) = Some x \<longrightarrow> entry (d_op d') \<noteq> Some x) (new @ ds) \<longleftrightarrow>
      sorted_wrt (\<lambda>d d'. \<forall>x. creates_entry entry (d_op d) = Some x \<longrightarrow> entry (d_op d') \<noteq> Some x) ds"
  proof -
    have "creates_entry entry (d_op d) = None" if "d \<in> set new" for d
      using assms that by (simp add: creates_entry_def)
    then show ?thesis
      using assms by (induction new) auto
  qed
  ultimately show ?thesis
    by (simp add: vector_ok_def)
qed

text \<open>A vertex whose labels, properties or deleted mark change keeps its edge vectors.\<close>

lemma vertex_ok_change:
  assumes "vertex_ok n g v" and "v_gid v' = v_gid v" "v_in_edges v' = v_in_edges v" "v_out_edges v' = v_out_edges v"
    "v_has_uncommitted_non_sequential_deltas v' = v_has_uncommitted_non_sequential_deltas v" "v_deltas v' = new @ v_deltas v"
    and "\<forall>d \<in> set new. in_entry (d_op d) = None \<and> out_entry (d_op d) = None"
    and "distinct (v_labels v')" "props_ok (v_properties v')"
  shows "vertex_ok n g v'"
  using assms by (simp add: vertex_ok_def vertex_wf_def vector_ok_other)

section \<open>The checks before a write\<close>

lemma vertex_flag:
  "db_ok A db \<Longrightarrow> db_vertices db g = Some v \<Longrightarrow> \<not> v_has_uncommitted_non_sequential_deltas v"
  using vertex_wf_of[of db g v] by (simp add: db_ok_def vertex_ok_def)

lemma prepare_write_cases:
  assumes "db_ok A db" and "db_vertices db g = Some v"
  shows "prepare_write v T db =
    (if writable (db_heap db) T (v_deltas v) then (if v_deleted v then Some DELETED_OBJECT else None, T)
     else (Some SERIALIZATION_ERROR, T\<lparr>tx_has_serialization_error := True\<rparr>))"
  using PrepareForWrite_writable[OF db_ok_chain(1)[OF assms], of T] vertex_flag[OF assms]
    PrepareForWrite_tx[of "db_heap db" T "v_deltas v" False]
  by (cases "PrepareForWrite (db_heap db) T (v_deltas v) False") (auto simp: prepare_write_def split: bool.splits)

lemma lock_vertex_cases:
  assumes "db_ok A db"
  obtains (error) e b where "lock_vertex acc T db = (Inl e, T\<lparr>tx_has_serialization_error := b\<rparr>)"
  | (locked) v where "lock_vertex acc T db = (Inr v, T)" "db_vertices db (va_vertex acc) = Some v"
      "writable (db_heap db) T (v_deltas v)" "\<not> v_deleted v"
proof (cases "tx_edge_import_mode_active T \<or> db_vertices db (va_vertex acc) = None")
  case True
  then have "lock_vertex acc T db = (Inl (if tx_edge_import_mode_active T then Ex_edge_import_mode else Dangling_pointer), T)"
    by (auto simp: lock_vertex_def)
  then show ?thesis
    using error[of _ "tx_has_serialization_error T"] by simp
next
  case False
  then obtain v where v: "db_vertices db (va_vertex acc) = Some v"
    by auto
  show ?thesis
  proof (cases "writable (db_heap db) T (v_deltas v)")
    case True
    then show ?thesis
      using False v error[of DELETED_OBJECT "tx_has_serialization_error T"] locked[of v] prepare_write_cases[OF assms v, of T]
      by (cases "v_deleted v") (simp_all add: lock_vertex_def)
  next
    case w: False
    then show ?thesis
      using False v error[of SERIALIZATION_ERROR True] prepare_write_cases[OF assms v, of T] by (simp add: lock_vertex_def)
  qed
qed

lemma lock_vertex_for_label_cases:
  assumes "db_ok A db"
  obtains (error) e b where "lock_vertex_for_label acc T db = (Inl e, T\<lparr>tx_has_serialization_error := b\<rparr>)"
  | (locked) v where "lock_vertex_for_label acc T db = (Inr v, T)" "db_vertices db (va_vertex acc) = Some v"
      "writable (db_heap db) T (v_deltas v)" "\<not> v_deleted v"
proof (cases rule: lock_vertex_cases[OF assms, of acc T])
  case (1 e b)
  then show ?thesis
    using error[of e b] by (simp add: lock_vertex_for_label_def)
next
  case (2 v)
  then show ?thesis
    using locked[of v] prepare_write_cases[OF assms 2(2), of T] by (simp add: lock_vertex_for_label_def)
qed

section \<open>Labels\<close>

lemma sequential_ops [simp]:
  "sequential_op (REMOVE_LABEL l)" "sequential_op (ADD_LABEL l)" "sequential_op (SET_PROPERTY p w g)" "sequential_op RECREATE_OBJECT"
  by (simp_all add: sequential_op_def CanBeNonSequential_def)

lemma entry_simps [simp]:
  "in_entry (REMOVE_LABEL l) = None" "in_entry (ADD_LABEL l) = None" "in_entry (SET_PROPERTY p w g) = None"
  "in_entry RECREATE_OBJECT = None" "in_entry DELETE_OBJECT = None"
  "out_entry (REMOVE_LABEL l) = None" "out_entry (ADD_LABEL l) = None" "out_entry (SET_PROPERTY p w g) = None"
  "out_entry RECREATE_OBJECT = None" "out_entry DELETE_OBJECT = None"
  by (simp_all add: in_entry_def out_entry_def)

lemma frame_simps [simp]:
  "frame db (calls cs db') = frame db db'" "frame db (put_vertex v db') = frame db db'" "frame db (put_edge x db') = frame db db'"
  "frame db (UpdateLabelCount l k db') = frame db db'"
  by (simp_all add: frame_def)

text \<open>One delta linked and one change of the labels or properties, with any bookkeeping around it.\<close>

definition wrote :: "nat \<Rightarrow> actives \<Rightarrow> db \<Rightarrow> gid \<Rightarrow> vertex \<Rightarrow> transaction \<Rightarrow> delta_heap \<Rightarrow> bool" where
  "wrote i A db g v' T1 h1 \<longleftrightarrow> (\<forall>c db'. db_vertices db' = (db_vertices db)(g \<mapsto> v') \<longrightarrow> db_edges db' = db_edges db \<longrightarrow>
     frame db db' \<longrightarrow> db_heap db' = h1 \<longrightarrow> progress i A db (T1\<lparr>tx_cache := c\<rparr>) db')"

lemma wroteD:
  assumes "wrote i A db g v' T1 h1" and "db_vertices db' = (db_vertices db)(g \<mapsto> v')" "db_edges db' = db_edges db" "frame db db'"
    "db_heap db' = h1"
  shows "progress i A db (T1\<lparr>tx_cache := c\<rparr>) db'" "progress i A db T1 db'"
proof -
  show p: "progress i A db (T1\<lparr>tx_cache := c\<rparr>) db'" for c
    using assms by (simp add: wrote_def)
  show "progress i A db T1 db'"
    using p[of "tx_cache T1"] by simp
qed

lemma write_vertex:
  assumes ok: "db_ok A db" and T: "A i = Some T" and v: "db_vertices db g = Some v" and w: "writable (db_heap db) T (v_deltas v)"
    and alive: "\<not> v_deleted v"
    and op: "sequential_op op" "in_entry op = None" "out_entry op = None"
    and V: "\<And>d. v_gid (V d) = v_gid v \<and> v_in_edges (V d) = v_in_edges v \<and> v_out_edges (V d) = v_out_edges v \<and>
        v_deltas (V d) = d # v_deltas v \<and>
        v_has_uncommitted_non_sequential_deltas (V d) = v_has_uncommitted_non_sequential_deltas v"
      "\<And>d. distinct (v_labels (V d))" "\<And>d. props_ok (v_properties (V d))"
      "\<And>d. undoable op (abs_vertex (V d))" "\<And>d. aundo op (abs_vertex (V d)) = abs_vertex v"
  shows "\<exists>d T1 db1. link_vertex_delta v op T db = (v\<lparr>v_deltas := d # v_deltas v\<rparr>, T1, db1) \<and> frame db db1 \<and>
    db_vertices db1 = (db_vertices db)(g \<mapsto> v\<lparr>v_deltas := d # v_deltas v\<rparr>) \<and> db_edges db1 = db_edges db \<and>
    wrote i A db g (V d) T1 (db_heap db1)"
proof -
  have vok: "vertex_ok (db_edge_id db) g v"
    using vertex_wf_of v ok by (simp add: db_ok_def)
  then have g: "v_gid v = g"
    by (simp add: vertex_ok_def)
  obtain d T1 db1 where l: "link_vertex_delta v op T db = (v\<lparr>v_deltas := d # v_deltas v\<rparr>, T1, db1)" "tx_cache T1 = tx_cache T"
    "d_op d = op" "linked (Owner_vertex g) T (db_heap db) T1 (db_heap db1) [d]" "frame db db1"
    "db_vertices db1 = (db_vertices db)(g \<mapsto> v\<lparr>v_deltas := d # v_deltas v\<rparr>)" "db_edges db1 = db_edges db"
    using link_vertex_delta_linked[OF db_ok_tx[OF ok T] op(1), of v] g by auto
  have "vertex_ok (db_edge_id db) g (V d)"
    by (rule vertex_ok_change[OF vok, where new = "[d]"]) (use V(1-3)[of d] l(3) op in simp_all)
  moreover have "undoable_all [d] (abs_vertex (V d))" "undo_all [d] (abs_vertex (V d)) = abs_vertex v"
    using V(4,5) l(3) by simp_all
  moreover have "v_deltas (V d) = [d] @ v_deltas v"
    using V(1) by simp
  ultimately have "wrote i A db g (V d) T1 (db_heap db1)"
    unfolding wrote_def using linked_cache[OF l(4)]
    by (auto intro!: progress_linked[OF ok T v alive w, where new = "[d]" and v' = "V d"])
  then show ?thesis
    using l by blast
qed

lemma AddLabel_progress:
  assumes ok: "db_ok A db" and T: "A i = Some T"
  shows "case AddLabel l acc T db of (r, T', db') \<Rightarrow> progress i A db T' db'"
proof (cases rule: lock_vertex_for_label_cases[OF ok, of acc T])
  case (1 e b)
  then show ?thesis
    using progress_error[OF ok T] by (simp add: AddLabel_def)
next
  case (2 v)
  have wf: "vertex_wf v" "v_gid v = va_vertex acc"
    using vertex_wf_of[of db "va_vertex acc" v] 2(2) ok by (auto simp: db_ok_def vertex_ok_def)
  show ?thesis
  proof (cases "l \<in> set (v_labels v)")
    case True
    then show ?thesis
      using 2 progress_refl[OF ok T] by (simp add: AddLabel_def)
  next
    case False
    obtain d T1 db1 where "link_vertex_delta v (REMOVE_LABEL l) T db = (v\<lparr>v_deltas := d # v_deltas v\<rparr>, T1, db1)" "frame db db1"
      "db_vertices db1 = (db_vertices db)(va_vertex acc \<mapsto> v\<lparr>v_deltas := d # v_deltas v\<rparr>)" "db_edges db1 = db_edges db"
      and wr: "wrote i A db (va_vertex acc) (v\<lparr>v_deltas := d # v_deltas v, v_labels := v_labels v @ [l]\<rparr>) T1 (db_heap db1)"
      using write_vertex[OF ok T 2(2-4), where op = "REMOVE_LABEL l" and V = "\<lambda>d. v\<lparr>v_deltas := d # v_deltas v, v_labels := v_labels v @ [l]\<rparr>"]
        wf False by (auto simp: vertex_wf_def undoable_def aundo_def abs_vertex_def)
    then show ?thesis
      using 2 False wf wroteD[OF wr] by (auto simp: AddLabel_def Let_def UpdateOnChangeLabel_def split: option.splits)
  qed
qed

lemma RemoveLabel_progress:
  assumes ok: "db_ok A db" and T: "A i = Some T"
  shows "case RemoveLabel l acc T db of (r, T', db') \<Rightarrow> progress i A db T' db'"
proof (cases rule: lock_vertex_for_label_cases[OF ok, of acc T])
  case (1 e b)
  then show ?thesis
    using progress_error[OF ok T] by (simp add: RemoveLabel_def)
next
  case (2 v)
  have wf: "vertex_wf v" "v_gid v = va_vertex acc"
    using vertex_wf_of[of db "va_vertex acc" v] 2(2) ok by (auto simp: db_ok_def vertex_ok_def)
  show ?thesis
  proof (cases "swap_remove l (v_labels v)")
    case None
    then show ?thesis
      using 2 progress_refl[OF ok T] by (simp add: RemoveLabel_def)
  next
    case (Some ls)
    have ls: "distinct ls" "set ls = set (v_labels v) - {l}" "l \<in> set (v_labels v)"
      using swap_remove_distinct[OF Some] wf(1) swap_remove_None_iff[of l "v_labels v"] Some by (auto simp: vertex_wf_def)
    obtain d T1 db1 where "link_vertex_delta v (ADD_LABEL l) T db = (v\<lparr>v_deltas := d # v_deltas v\<rparr>, T1, db1)" "frame db db1"
      "db_vertices db1 = (db_vertices db)(va_vertex acc \<mapsto> v\<lparr>v_deltas := d # v_deltas v\<rparr>)" "db_edges db1 = db_edges db"
      and wr: "wrote i A db (va_vertex acc) (v\<lparr>v_deltas := d # v_deltas v, v_labels := ls\<rparr>) T1 (db_heap db1)"
      using write_vertex[OF ok T 2(2-4), where op = "ADD_LABEL l" and V = "\<lambda>d. v\<lparr>v_deltas := d # v_deltas v, v_labels := ls\<rparr>"]
        wf ls by (auto simp: vertex_wf_def undoable_def aundo_def abs_vertex_def)
    then show ?thesis
      using 2 Some wf wroteD[OF wr] by (auto simp: RemoveLabel_def Let_def UpdateOnChangeLabel_def)
  qed
qed

section \<open>Properties\<close>

lemma SetProperty_progress:
  assumes ok: "db_ok A db" and T: "A i = Some T"
  shows "case VertexAccessor_SetProperty p w acc T db of (r, T', db') \<Rightarrow> progress i A db T' db'"
proof (cases rule: lock_vertex_cases[OF ok, of acc T])
  case (1 e b)
  then show ?thesis
    using progress_error[OF ok T] by (simp add: VertexAccessor_SetProperty_def)
next
  case (2 v)
  have wf: "vertex_wf v" "v_gid v = va_vertex acc"
    using vertex_wf_of[of db "va_vertex acc" v] 2(2) ok by (auto simp: db_ok_def vertex_ok_def)
  let ?w = "converted_value db (va_vertex acc) p w" and ?old = "GetProperty p (v_properties v)"
  have "(\<lambda>q. GetProperty q (set_prop p ?w (v_properties v)))(p := ?old) = (\<lambda>q. GetProperty q (v_properties v))"
    using wf(1) by (auto simp: vertex_wf_def ps.get_put fun_eq_iff)
  then obtain d T1 db1 where "link_vertex_delta v (SET_PROPERTY p ?old None) T db = (v\<lparr>v_deltas := d # v_deltas v\<rparr>, T1, db1)"
    "frame db db1" "db_vertices db1 = (db_vertices db)(va_vertex acc \<mapsto> v\<lparr>v_deltas := d # v_deltas v\<rparr>)" "db_edges db1 = db_edges db"
    and wr: "wrote i A db (va_vertex acc) (v\<lparr>v_deltas := d # v_deltas v, v_properties := set_prop p ?w (v_properties v)\<rparr>) T1 (db_heap db1)"
    using write_vertex[OF ok T 2(2-4), where op = "SET_PROPERTY p ?old None"
        and V = "\<lambda>d. v\<lparr>v_deltas := d # v_deltas v, v_properties := set_prop p ?w (v_properties v)\<rparr>"]
      wf by (auto simp: vertex_wf_def undoable_def aundo_def abs_vertex_def intro: wf_intros)
  then show ?thesis
    using 2 wf wroteD[OF wr] progress_refl[OF ok T]
    by (auto simp: VertexAccessor_SetProperty_def Let_def UpdateOnSetProperty_def split: option.splits)
qed

text \<open>Several deltas linked to one vertex of the store, with bookkeeping in between.\<close>

definition linked_all :: "gid \<Rightarrow> delta_op list \<Rightarrow> vertex \<Rightarrow> transaction \<Rightarrow> db \<Rightarrow> vertex \<Rightarrow> transaction \<Rightarrow> db \<Rightarrow> bool" where
  "linked_all g ops v T db v' T' db' \<longleftrightarrow> (\<exists>new. v' = v\<lparr>v_deltas := new @ v_deltas v\<rparr> \<and> map d_op new = rev ops \<and>
    (new = [] \<and> T' = T \<and> db_heap db' = db_heap db \<or> linked (Owner_vertex g) T (db_heap db) T' (db_heap db') new) \<and>
    frame db db' \<and> db_vertices db' = (db_vertices db)(g \<mapsto> v') \<and> db_edges db' = db_edges db)"

lemma linked_tx_ok: "linked o' T h T' h' new \<Longrightarrow> tx_ok h now n i T \<Longrightarrow> tx_ok h' now n i T'"
  by (auto simp: linked_def pushed_def tx_step_def tx_ok_def)

lemma linked_all_Nil: "db_vertices db g = Some v \<Longrightarrow> linked_all g [] v T db v T db"
  by (auto simp: linked_all_def)

lemma linked_all_Cons:
  assumes "tx_ok (db_heap db) now n i T" and "sequential_op op" and "v_gid v = g"
    and "link_vertex_delta v op T db = (v1, T1, db1)"
    and db2: "frame db1 db2" "db_vertices db2 = db_vertices db1" "db_edges db2 = db_edges db1" "db_heap db2 = db_heap db1"
    and rest: "tx_ok (db_heap db2) now n i (T1\<lparr>tx_cache := c\<rparr>) \<Longrightarrow> v_gid v1 = g \<Longrightarrow> db_vertices db2 g = Some v1 \<Longrightarrow>
      linked_all g ops v1 (T1\<lparr>tx_cache := c\<rparr>) db2 v' T' db'"
  shows "linked_all g (op # ops) v T db v' T' db'"
proof -
  obtain d where l: "v1 = v\<lparr>v_deltas := d # v_deltas v\<rparr>" "d_op d = op" "linked (Owner_vertex g) T (db_heap db) T1 (db_heap db1) [d]"
    "frame db db1" "db_vertices db1 = (db_vertices db)(g \<mapsto> v1)" "db_edges db1 = db_edges db"
    using link_vertex_delta_linked[OF assms(1,2), of v] assms(3,4) by auto
  let ?T = "T1\<lparr>tx_cache := c\<rparr>"
  have l1: "linked (Owner_vertex g) T (db_heap db) ?T (db_heap db2) [d]"
    using linked_cache[OF l(3)] db2(4) by simp
  have "linked_all g ops v1 ?T db2 v' T' db'"
    using l1 linked_tx_ok[OF l1 assms(1)] l db2(2) assms(3) by (intro rest) auto
  then obtain new where new: "v' = v1\<lparr>v_deltas := new @ v_deltas v1\<rparr>" "map d_op new = rev ops"
    "new = [] \<and> T' = ?T \<and> db_heap db' = db_heap db2 \<or> linked (Owner_vertex g) ?T (db_heap db2) T' (db_heap db') new"
    "frame db2 db'" "db_vertices db' = (db_vertices db2)(g \<mapsto> v')" "db_edges db' = db_edges db2"
    by (auto simp: linked_all_def)
  have "linked (Owner_vertex g) T (db_heap db) T' (db_heap db') (new @ [d])"
    using new(3) l1 linked_append[OF l1, of T' "db_heap db'" new] by auto
  moreover have "frame db db'"
    using l(4) db2(1) new(4) frame_trans by blast
  ultimately show ?thesis
    using new l db2 unfolding linked_all_def by (intro exI[of _ "new @ [d]"]) simp
qed

lemma init_loop_linked:
  assumes "tx_ok (db_heap db) now n i T" and "v_gid v = g" and "db_vertices db g = Some v"
    and "init_loop ps v T db = (v', T', db')"
  shows "linked_all g (map (\<lambda>(p, w). SET_PROPERTY p PV_Null None) ps) v T db v' T' db'"
  using assms
proof (induction ps arbitrary: v T db)
  case Nil
  then show ?case
    by (simp add: linked_all_Nil)
next
  case (Cons pw ps)
  obtain p w where pw: "pw = (p, w)"
    by (cases pw)
  obtain v1 T1 db1 where l: "link_vertex_delta v (SET_PROPERTY p PV_Null None) T db = (v1, T1, db1)"
    by (cases "link_vertex_delta v (SET_PROPERTY p PV_Null None) T db") auto
  let ?c = "Invalidate_property (v_gid v) p (tx_cache T1)"
  obtain db2 where step: "init_loop ps v1 (T1\<lparr>tx_cache := ?c\<rparr>) db2 = (v', T', db')"
    and db2: "frame db1 db2" "db_vertices db2 = db_vertices db1" "db_edges db2 = db_edges db1" "db_heap db2 = db_heap db1"
    using l Cons.prems(4) pw by (auto simp: UpdateOnSetProperty_def Let_def)
  note rest = Cons.IH[OF _ _ _ step]
  show ?case
    unfolding pw list.map prod.case by (rule linked_all_Cons[OF Cons.prems(1) _ Cons.prems(2) l db2]) (simp, erule (2) rest)
qed

lemma clear_loop_linked:
  assumes "tx_ok (db_heap db) now n i T" and "v_gid v = g" and "db_vertices db g = Some v"
    and "clear_loop ps v T db = (v', T', db')"
  shows "linked_all g (map (\<lambda>(p, old). SET_PROPERTY p old None) ps) v T db v' T' db'"
  using assms
proof (induction ps arbitrary: v T db)
  case Nil
  then show ?case
    by (simp add: linked_all_Nil)
next
  case (Cons pw ps)
  obtain p old where pw: "pw = (p, old)"
    by (cases pw)
  obtain v1 T1 db1 where l: "link_vertex_delta v (SET_PROPERTY p old None) T db = (v1, T1, db1)"
    by (cases "link_vertex_delta v (SET_PROPERTY p old None) T db") auto
  let ?c = "Invalidate_property (v_gid v) p (tx_cache T1)"
  obtain db2 where step: "clear_loop ps v1 (T1\<lparr>tx_cache := ?c\<rparr>) db2 = (v', T', db')"
    and db2: "frame db1 db2" "db_vertices db2 = db_vertices db1" "db_edges db2 = db_edges db1" "db_heap db2 = db_heap db1"
    using l Cons.prems(4) pw by (auto simp: UpdateOnSetProperty_def Let_def)
  note rest = Cons.IH[OF _ _ _ step]
  show ?case
    unfolding pw list.map prod.case by (rule linked_all_Cons[OF Cons.prems(1) _ Cons.prems(2) l db2]) (simp, erule (2) rest)
qed

definition changed :: "db \<Rightarrow> property_id \<times> pv \<times> pv \<Rightarrow> bool" where
  "changed db c = (case c of (p, old, new) \<Rightarrow>
     \<not> (cfg_delta_on_identical_property_update (db_config db) \<and> cfg_value_eq (db_config db) old new))"

lemma update_loop_linked:
  assumes "tx_ok (db_heap db) now n i T" and "v_gid v = g" and "db_vertices db g = Some v"
    and "update_loop cs v T db = (None, v', T', db')"
  shows "linked_all g (map (\<lambda>(p, old, new). SET_PROPERTY p old None) (filter (changed db) cs)) v T db v' T' db'"
  using assms
proof (induction cs arbitrary: v T db)
  case Nil
  then show ?case
    by (simp add: linked_all_Nil)
next
  case (Cons c cs)
  obtain p old new where c: "c = (p, old, new)"
    by (cases c)
  show ?case
  proof (cases "changed db c")
    case False
    then show ?thesis
      using Cons.IH[OF Cons.prems(1-3)] Cons.prems(4) c by (simp add: changed_def)
  next
    case True
    obtain v1 T1 db1 where l: "link_vertex_delta v (SET_PROPERTY p old None) T db = (v1, T1, db1)"
      by (cases "link_vertex_delta v (SET_PROPERTY p old None) T db") auto
    let ?c = "Invalidate_property (v_gid v) p (tx_cache T1)"
    obtain db2 where step: "update_loop cs v1 (T1\<lparr>tx_cache := ?c\<rparr>) db2 = (None, v', T', db')"
      and db2: "frame db1 db2" "db_vertices db2 = db_vertices db1" "db_edges db2 = db_edges db1" "db_heap db2 = db_heap db1"
      using l Cons.prems(4) c True by (auto simp: UpdateOnSetProperty_def Let_def changed_def split: option.splits)
    have "db_config db2 = db_config db"
      using link_vertex_delta_linked[OF Cons.prems(1), of "SET_PROPERTY p old None" v] l db2(1) by (auto simp: frame_def)
    then have "changed db2 = changed db"
      by (simp add: fun_eq_iff changed_def)
    then have rest: "linked_all g (map (\<lambda>(p, old, new). SET_PROPERTY p old None) (filter (changed db) cs)) v1 (T1\<lparr>tx_cache := ?c\<rparr>) db2 v' T' db'"
      if "tx_ok (db_heap db2) now n i (T1\<lparr>tx_cache := ?c\<rparr>)" "v_gid v1 = g" "db_vertices db2 g = Some v1"
      using Cons.IH[OF that step] by simp
    have "map (\<lambda>(p, old, new). SET_PROPERTY p old None) (filter (changed db) (c # cs)) =
        SET_PROPERTY p old None # map (\<lambda>(p, old, new). SET_PROPERTY p old None) (filter (changed db) cs)"
      using True c by simp
    then show ?thesis
      by (simp only:) (rule linked_all_Cons[OF Cons.prems(1) _ Cons.prems(2) l db2 rest], simp)
  qed
qed

text \<open>Deltas that write back the old values of some properties.\<close>

lemma undo_props:
  assumes "\<forall>d \<in> set new. \<exists>p o'. d_op d = SET_PROPERTY p (f p) o'"
    and "\<And>q. (\<forall>d \<in> set new. \<forall>w o'. d_op d \<noteq> SET_PROPERTY q w o') \<Longrightarrow> a_props a q = f q"
  shows "undo_all new a = a\<lparr>a_props := f\<rparr>"
  using assms
proof (induction new arbitrary: a)
  case Nil
  then have "a_props a = f"
    by auto
  then show ?case
    by auto
next
  case (Cons d new)
  obtain p o' where d: "d_op d = SET_PROPERTY p (f p) o'"
    using Cons.prems(1) by auto
  have "undo_all new (aundo (d_op d) a) = (aundo (d_op d) a)\<lparr>a_props := f\<rparr>"
    using Cons.prems d by (intro Cons.IH) (auto simp: aundo_def)
  then show ?case
    by (simp add: d aundo_def)
qed

lemma undoable_props: "\<forall>d \<in> set new. \<exists>p w o'. d_op d = SET_PROPERTY p w o' \<Longrightarrow> undoable_all new a"
  by (induction new arbitrary: a) (auto simp: undoable_def)

text \<open>The property writes of several properties at once.\<close>

lemma write_properties:
  assumes ok: "db_ok A db" and T: "A i = Some T" and v: "db_vertices db g = Some v" and w: "writable (db_heap db) T (v_deltas v)"
    and alive: "\<not> v_deleted v"
    and l: "linked_all g ops (v\<lparr>v_properties := s0\<rparr>) T (put_vertex (v\<lparr>v_properties := s0\<rparr>) db) v1 T' db1"
    and ops: "\<forall>op \<in> set ops. \<exists>p. op = SET_PROPERTY p (GetProperty p (v_properties v)) None"
      "\<And>q. (\<forall>w. SET_PROPERTY q w None \<notin> set ops) \<Longrightarrow> GetProperty q s = GetProperty q (v_properties v)"
    and s: "props_ok s" and db': "frame db1 db'" "db_heap db' = db_heap db1" "db_edges db' = db_edges db1"
      "db_vertices db' = (db_vertices db1)(g \<mapsto> v1\<lparr>v_properties := s\<rparr>)"
  shows "progress i A db T' db'"
proof -
  have vok: "vertex_ok (db_edge_id db) g v"
    using vertex_wf_of v ok by (simp add: db_ok_def)
  then have g: "v_gid v = g"
    by (simp add: vertex_ok_def)
  obtain new where new: "v1 = v\<lparr>v_properties := s0, v_deltas := new @ v_deltas v\<rparr>" "map d_op new = rev ops"
    "new = [] \<and> T' = T \<and> db_heap db1 = db_heap db \<or> linked (Owner_vertex g) T (db_heap db) T' (db_heap db1) new"
    "frame db db1" "db_vertices db1 = (db_vertices db)(g \<mapsto> v1)" "db_edges db1 = db_edges db"
    using l g by (auto simp: linked_all_def frame_def)
  let ?v = "v\<lparr>v_properties := s, v_deltas := new @ v_deltas v\<rparr>"
  have set_ops: "d_op ` set new = set ops"
    using arg_cong[OF new(2), of set] by simp
  have d: "\<forall>d \<in> set new. \<exists>p. d_op d = SET_PROPERTY p (GetProperty p (v_properties v)) None"
    using ops(1) unfolding set_ops[symmetric] by simp
  have V: "v1\<lparr>v_properties := s\<rparr> = ?v" and frame: "frame db db'"
    using new(1,4) db'(1) frame_trans by auto
  have "undo_all new (abs_vertex ?v) = (abs_vertex ?v)\<lparr>a_props := (\<lambda>p. GetProperty p (v_properties v))\<rparr>"
  proof (rule undo_props)
    show "\<forall>d \<in> set new. \<exists>p o'. d_op d = SET_PROPERTY p (GetProperty p (v_properties v)) o'"
      using d by blast
    fix q
    assume "\<forall>d \<in> set new. \<forall>w o'. d_op d \<noteq> SET_PROPERTY q w o'"
    then have "\<forall>w. SET_PROPERTY q w None \<notin> set ops"
      unfolding set_ops[symmetric] by (auto simp: image_iff dest: sym)
    then show "a_props (abs_vertex ?v) q = GetProperty q (v_properties v)"
      using ops(2) by (simp add: abs_vertex_def)
  qed
  then have undo: "undo_all new (abs_vertex ?v) = abs_vertex v"
    by (simp add: abs_vertex_def)
  show ?thesis
  proof (cases "new = []")
    case True
    then have "ops = []"
      using new(2) by simp
    then have "s = v_properties v"
      using ops(2) s vok by (intro GetProperty_inject) (auto simp: vertex_ok_def vertex_wf_def)
    then have "?v = v"
      using True by simp
    then have same: "db_vertices db' = db_vertices db"
      using db'(4) new(5) V v by (simp add: fun_upd_idem)
    have "tx_step T (db_heap db) T' (db_heap db')" "tx_deltas T' = tx_deltas T"
      using new(3) True db'(2) tx_step_refl[OF db_ok_tx[OF ok T]] by (auto simp: linked_def pushed_def)
    then show ?thesis
      using same new(6) db'(3) frame by (intro progress_local[OF ok T]) simp_all
  next
    case False
    have vok': "vertex_ok (db_edge_id db) g ?v"
      by (rule vertex_ok_change[OF vok, where new = new]) (use s vok d in \<open>auto simp: vertex_ok_def vertex_wf_def\<close>)
    have lk: "linked (Owner_vertex g) T (db_heap db) T' (db_heap db') new"
      using new(3) False db'(2) by simp
    have dbv: "db_vertices db' = (db_vertices db)(g \<mapsto> ?v)" "db_edges db' = db_edges db"
      using db'(3,4) new(5,6) V by simp_all
    have "undoable_all new (abs_vertex ?v)"
      using d by (intro undoable_props) blast
    then show ?thesis
      by (intro progress_linked[OF ok T v alive w lk _ _ undo vok' frame dbv]) simp_all
  qed
qed

lemma converted_ordered: "ordered_map ps \<Longrightarrow> ordered_map (map (\<lambda>(p, w). (p, converted_value db g p w)) ps)"
  by (simp add: ordered_map_def comp_def case_prod_unfold)

lemma InitProperties_progress:
  assumes ok: "db_ok A db" and T: "A i = Some T" and ps: "ordered_map ps"
  shows "case VertexAccessor_InitProperties ps acc T db of (r, T', db') \<Rightarrow> progress i A db T' db'"
proof (cases rule: lock_vertex_cases[OF ok, of acc T])
  case (1 e b)
  then show ?thesis
    using progress_error[OF ok T] by (simp add: VertexAccessor_InitProperties_def)
next
  case (2 v)
  let ?ps = "map (\<lambda>(p, w). (p, converted_value db (va_vertex acc) p w)) ps"
  let ?s = "filter (\<lambda>(p, w). w \<noteq> PV_Null) ?ps" and ?g = "va_vertex acc"
  let ?v = "v\<lparr>v_properties := ?s\<rparr>"
  have g: "v_gid v = ?g"
    using vertex_wf_of[of db ?g v] 2(2) ok by (simp add: db_ok_def vertex_ok_def)
  show ?thesis
  proof (cases "v_properties v = []")
    case False
    then show ?thesis
      using 2 progress_refl[OF ok T] by (simp add: VertexAccessor_InitProperties_def InitProperties_def Let_def)
  next
    case True
    obtain v2 T2 db2 where l: "init_loop ?ps ?v T (put_vertex ?v db) = (v2, T2, db2)"
      by (cases "init_loop ?ps ?v T (put_vertex ?v db)") auto
    have all: "linked_all ?g (map (\<lambda>(p, w). SET_PROPERTY p PV_Null None) ?ps) ?v T (put_vertex ?v db) v2 T2 db2"
      by (rule init_loop_linked[OF _ _ _ l]) (use db_ok_tx[OF ok T] g in auto)
    have os: "ordered_map ?ps"
      by (rule converted_ordered[OF ps])
    have v2: "db_vertices db2 = (db_vertices db2)(?g \<mapsto> v2\<lparr>v_properties := ?s\<rparr>)"
    proof -
      have "db_vertices db2 ?g = Some v2" "v_properties v2 = ?s"
        using all by (auto simp: linked_all_def)
      then show ?thesis
        by (simp add: fun_upd_idem)
    qed
    have "GetProperty q ?s = GetProperty q (v_properties v)" if "\<forall>w. SET_PROPERTY q w None \<notin> set (map (\<lambda>(p, w). SET_PROPERTY p PV_Null None) ?ps)" for q
    proof -
      have "q \<notin> fst ` set ?ps"
        using that by force
      then show ?thesis
        unfolding GetProperty_filter_nonnull[OF os] True by (simp add: GetProperty_def map_of_eq_None_iff[THEN iffD2])
    qed
    then have "progress i A db T2 db2"
      using True by (intro write_properties[OF ok T 2(2-4) all _ _ props_ok_filter_nonnull[OF os] _ _ _ v2]) (auto simp: GetProperty_def)
    then show ?thesis
      using 2 True l by (simp add: VertexAccessor_InitProperties_def InitProperties_def Let_def split: option.splits)
  qed
qed

lemma ClearProperties_progress:
  assumes ok: "db_ok A db" and T: "A i = Some T"
  shows "case VertexAccessor_ClearProperties acc T db of (r, T', db') \<Rightarrow> progress i A db T' db'"
proof (cases rule: lock_vertex_cases[OF ok, of acc T])
  case (1 e b)
  then show ?thesis
    using progress_error[OF ok T] by (simp add: VertexAccessor_ClearProperties_def)
next
  case (2 v)
  let ?ps = "v_properties v" and ?g = "va_vertex acc"
  have g: "v_gid v = ?g" and po: "ordered_map ?ps"
    using vertex_wf_of[of db ?g v] 2(2) ok by (auto simp: db_ok_def vertex_ok_def vertex_wf_def props_ok_def)
  obtain v2 T2 db2 where l: "clear_loop ?ps v T db = (v2, T2, db2)"
    by (cases "clear_loop ?ps v T db") auto
  have same: "put_vertex (v\<lparr>v_properties := ?ps\<rparr>) db = db"
    using 2(2) g by (simp add: put_vertex_def fun_upd_idem)
  have "linked_all ?g (map (\<lambda>(p, old). SET_PROPERTY p old None) ?ps) v T db v2 T2 db2"
    by (rule clear_loop_linked[OF db_ok_tx[OF ok T] g 2(2) l])
  then have all: "linked_all ?g (map (\<lambda>(p, old). SET_PROPERTY p old None) ?ps) (v\<lparr>v_properties := ?ps\<rparr>) T
      (put_vertex (v\<lparr>v_properties := ?ps\<rparr>) db) v2 T2 db2"
    unfolding same by simp
  have v2: "v_gid v2 = ?g"
    using all g by (auto simp: linked_all_def)
  have old: "old = GetProperty p ?ps" if "(p, old) \<in> set ?ps" for p old
    using that ordered_map_distinct[OF po] by (simp add: GetProperty_def)
  have "GetProperty q [] = GetProperty q ?ps" if "\<forall>w. SET_PROPERTY q w None \<notin> set (map (\<lambda>(p, old). SET_PROPERTY p old None) ?ps)" for q
  proof -
    have "q \<notin> fst ` set ?ps"
      using that by force
    then show ?thesis
      by (simp add: GetProperty_def map_of_eq_None_iff[THEN iffD2])
  qed
  then have "progress i A db T2 db'" if "frame db2 db'" "db_heap db' = db_heap db2" "db_edges db' = db_edges db2"
    "db_vertices db' = (db_vertices db2)(?g \<mapsto> v2\<lparr>v_properties := []\<rparr>)" for db'
    using that old by (intro write_properties[OF ok T 2(2-4) all _ _ _ that]) auto
  then show ?thesis
    using 2 l v2 by (auto simp: VertexAccessor_ClearProperties_def ClearProperties_def Let_def)
qed

text \<open>An update of several properties that raises no violation, where only identical values compare as equal.\<close>

lemma UpdateProperties_progress:
  assumes ok: "db_ok A db" and T: "A i = Some T" and ps: "ordered_map ps"
    and eq: "\<forall>a b. cfg_value_eq (db_config db) a b \<longrightarrow> a = b"
  shows "case VertexAccessor_UpdateProperties ps acc T db of (Inr _, T', db') \<Rightarrow> progress i A db T' db' | _ \<Rightarrow> True"
proof (cases rule: lock_vertex_cases[OF ok, of acc T])
  case (1 e b)
  then show ?thesis
    by (simp add: VertexAccessor_UpdateProperties_def)
next
  case (2 v)
  let ?ps = "map (\<lambda>(p, w). (p, converted_value db (va_vertex acc) p w)) ps" and ?g = "va_vertex acc"
  have g: "v_gid v = ?g" and po: "props_ok (v_properties v)"
    using vertex_wf_of[of db ?g v] 2(2) ok by (auto simp: db_ok_def vertex_ok_def vertex_wf_def)
  obtain ch s where u: "UpdateProperties ?ps (v_properties v) = (ch, s)"
    by (cases "UpdateProperties ?ps (v_properties v)")
  note spec = UpdateProperties_spec[OF u converted_ordered[OF ps] po]
  let ?v = "v\<lparr>v_properties := s\<rparr>"
  obtain r v2 T2 db2 where l: "update_loop ch ?v T (put_vertex ?v db) = (r, v2, T2, db2)"
    by (cases "update_loop ch ?v T (put_vertex ?v db)") auto
  show ?thesis
  proof (cases r)
    case (Some e)
    then show ?thesis
      using 2 u l by (simp add: VertexAccessor_UpdateProperties_def Let_def)
  next
    case None
    let ?ops = "map (\<lambda>(p, old, new). SET_PROPERTY p old None) (filter (changed (put_vertex ?v db)) ch)"
    have all: "linked_all ?g ?ops ?v T (put_vertex ?v db) v2 T2 db2"
      by (rule update_loop_linked[OF _ _ _ l[unfolded None]]) (use db_ok_tx[OF ok T] g in auto)
    have v2: "db_vertices db2 = (db_vertices db2)(?g \<mapsto> v2\<lparr>v_properties := s\<rparr>)"
    proof -
      have "db_vertices db2 ?g = Some v2" "v_properties v2 = s"
        using all by (auto simp: linked_all_def)
      then show ?thesis
        by (simp add: fun_upd_idem)
    qed
    have "GetProperty q s = GetProperty q (v_properties v)" if q: "\<forall>w. SET_PROPERTY q w None \<notin> set ?ops" for q
    proof (cases "q \<in> fst ` set ch")
      case True
      then obtain old new where c: "(q, old, new) \<in> set ch"
        by auto
      then have "\<not> changed (put_vertex ?v db) (q, old, new)"
        using q by force
      then show ?thesis
        using spec(2)[OF c] eq[rule_format, of old new] by (simp add: changed_def)
    next
      case False
      then show ?thesis
        by (rule spec(3))
    qed
    then have "progress i A db T2 db2"
      using spec(2) by (intro write_properties[OF ok T 2(2-4) all _ _ spec(1) _ _ _ v2]) auto
    then show ?thesis
      using 2 u l None by (simp add: VertexAccessor_UpdateProperties_def Let_def)
  qed
qed

end
