(* ===== verification/EdgeSteps.thy ===== *)
theory EdgeSteps
  imports WriteSteps
begin

text \<open>
  The creation of vertices and edges and the property writes of the edge accessor are steps of the multi-version
  machine.  An edge is created at a vertex only when no other transaction has an uncommitted or later
  edge there; the code would otherwise add a non-sequential delta.
\<close>

section \<open>Creating a vertex\<close>

lemma frame_heap [simp]: "frame db (db'\<lparr>db_heap := h\<rparr>) = frame db db'"
  by (simp add: frame_def)

lemma vector_ok_mono: "vector_ok entry n es ds \<Longrightarrow> n \<le> n' \<Longrightarrow> vector_ok entry n' es ds"
  by (auto simp: vector_ok_def)

lemma vertex_ok_mono: "vertex_ok n g v \<Longrightarrow> n \<le> n' \<Longrightarrow> vertex_ok n' g v"
  by (auto simp: vertex_ok_def intro: vector_ok_mono)

lemma vertex_ok_new: "d_op d = DELETE_OBJECT \<Longrightarrow> vertex_ok n g (new_vertex g [d])"
  by (simp add: vertex_ok_def new_vertex_def vertex_wf_def vector_ok_def all_entries_def)

lemma progress_trans_ok:
  assumes "db_ok A db" and "A i = Some T" and "progress i A db T1 db1"
    and "db_ok (A(i \<mapsto> T1)) db1 \<Longrightarrow> progress i (A(i \<mapsto> T1)) db1 T2 db2"
  shows "progress i A db T2 db2"
  using progress_trans[OF assms(3) assms(4)[OF progress_db_ok[OF assms(1-3)]]] .

lemma insert_vertex_progress:
  assumes ok: "db_ok A db" and T: "A i = Some T" and g: "g < db_vertex_id db" "db_vertices db g = None"
  shows "case insert_vertex g T db of (r, T', db') \<Rightarrow> progress i A db T' db'"
proof -
  obtain d T' h' where l: "CreateDeleteObjectDelta (Owner_vertex g) T (db_heap db) = ([d], T', h')" "d_op d = DELETE_OBJECT"
    "linked (Owner_vertex g) T (db_heap db) T' h' [d]"
    using CreateDeleteObjectDelta_linked[OF db_ok_tx[OF ok T], of "Owner_vertex g"] by auto
  let ?v = "new_vertex g [d]"
  have "progress i A db T' db'" if "db_vertices db' = (db_vertices db)(g \<mapsto> ?v)" "db_edges db' = db_edges db" "frame db db'"
    "db_heap db' = h'" for db'
  proof (rule progress_create[where A = A and i = i, OF T])
    show "objs db' = (objs db)(Owner_vertex g \<mapsto> (abs_vertex ?v, [d]))"
      using objs_put_vertex[OF that(1,2)] by (simp add: new_vertex_def)
    show "store_ok db'"
      using ok that g vertex_ok_new[OF l(2)] by (auto simp: db_ok_def store_ok_def frame_def)
  qed (use l that g in \<open>auto simp: linked_def frame_def abs_vertex_def\<close>)
  then show ?thesis
    using l g by (auto simp: insert_vertex_def action_defs create_delete_delta_def schema_call_def record_calls_def schema_calls_def new_vertex_def
        split: if_splits)
qed

lemma progress_ids:
  assumes "db_ok A db" and "A i = Some T" and "db_vertex_id db \<le> nv" "db_edge_id db \<le> ne"
  shows "progress i A db T (db\<lparr>db_vertex_id := nv, db_edge_id := ne\<rparr>)"
proof -
  have "store_ok (db\<lparr>db_vertex_id := nv, db_edge_id := ne\<rparr>)"
    using assms vertex_ok_mono[OF _ assms(4)] unfolding db_ok_def store_ok_def by fastforce
  moreover have "mv_of (A(i \<mapsto> T)) (db\<lparr>db_vertex_id := nv, db_edge_id := ne\<rparr>) = mv_of A db"
    using assms(2) objs_eqI[of "db\<lparr>db_vertex_id := nv, db_edge_id := ne\<rparr>" db] by (simp add: mv_of_def map_upd_triv)
  ultimately show ?thesis
    by (simp add: progress_def)
qed

lemma fresh_vertex: "db_ok A db \<Longrightarrow> db_vertices db (db_vertex_id db) = None"
  by (cases "db_vertices db (db_vertex_id db)") (auto simp: db_ok_def store_ok_def)

lemma CreateVertex_progress:
  assumes ok: "db_ok A db" and T: "A i = Some T"
  shows "case CreateVertex T db of (r, T', db') \<Rightarrow> progress i A db T' db'"
proof -
  let ?g = "db_vertex_id db" and ?db = "db\<lparr>db_vertex_id := db_vertex_id db + 1\<rparr>"
  have p: "progress i A db T ?db"
    using progress_ids[OF ok T, of "db_vertex_id db + 1" "db_edge_id db"] by simp
  obtain r T' db' where r: "insert_vertex ?g T ?db = (r, T', db')"
    by (cases "insert_vertex ?g T ?db")
  have "progress i (A(i \<mapsto> T)) ?db T' db'"
    using insert_vertex_progress[OF progress_db_ok[OF ok T p], of i T ?g] fresh_vertex[OF ok] r by simp
  then have "progress i A db T' db'"
    by (rule progress_trans[OF p])
  then show ?thesis
    using r by (auto simp: CreateVertex_def action_defs split: sum.splits option.splits)
qed

section \<open>Edge properties\<close>

lemma lock_edge_cases:
  assumes "db_ok A db"
  obtains (error) e b where "lock_edge acc T db = (Inl e, T\<lparr>tx_has_serialization_error := b\<rparr>)"
  | (locked) x where "lock_edge acc T db = (Inr x, T)" "db_edges db (ea_edge acc) = Some x"
      "writable (db_heap db) T (e_deltas x)" "\<not> e_deleted x"
proof (cases "\<not> cfg_properties_on_edges (db_config db) \<or> db_edges db (ea_edge acc) = None")
  case True
  then have "lock_edge acc T db = (Inl (if cfg_properties_on_edges (db_config db) then Dangling_pointer else PROPERTIES_DISABLED), T)"
    by (auto simp: lock_edge_def)
  then show ?thesis
    using error[of _ "tx_has_serialization_error T"] by simp
next
  case False
  then obtain x where x: "db_edges db (ea_edge acc) = Some x"
    by auto
  obtain b T' where p: "PrepareForWrite (db_heap db) T (e_deltas x) False = (b, T')"
    by (cases "PrepareForWrite (db_heap db) T (e_deltas x) False")
  have b: "b \<longleftrightarrow> writable (db_heap db) T (e_deltas x)" "T' = (if b then T else T\<lparr>tx_has_serialization_error := True\<rparr>)"
    using PrepareForWrite_writable[OF db_ok_edge_chain(1)[OF assms x], of T] PrepareForWrite_tx[of "db_heap db" T "e_deltas x" False] p
    by auto
  show ?thesis
  proof (cases b)
    case True
    then show ?thesis
      using False x p b error[of DELETED_OBJECT "tx_has_serialization_error T"] locked[of x] by (cases "e_deleted x") (auto simp: lock_edge_def)
  next
    case nb: False
    then show ?thesis
      using False x p b error[of SERIALIZATION_ERROR True] by (auto simp: lock_edge_def)
  qed
qed

definition edge_linked_all :: "gid \<Rightarrow> (property_id \<times> pv) list \<Rightarrow> edge \<Rightarrow> transaction \<Rightarrow> db \<Rightarrow> edge \<Rightarrow> transaction \<Rightarrow> db \<Rightarrow> bool" where
  "edge_linked_all e olds x T db x' T' db' \<longleftrightarrow> (\<exists>new. x' = x\<lparr>e_deltas := new @ e_deltas x\<rparr> \<and>
    list_all2 (\<lambda>d (p, old). \<exists>o'. d_op d = SET_PROPERTY p old o') new (rev olds) \<and>
    (new = [] \<and> T' = T \<and> db_heap db' = db_heap db \<or> linked (Owner_edge e) T (db_heap db) T' (db_heap db') new) \<and>
    frame db db' \<and> db_edges db' = (db_edges db)(e \<mapsto> x') \<and> db_vertices db' = db_vertices db)"

lemma CreateAndLinkDeltaForEdgeSetProperty_linked:
  assumes "tx_ok (db_heap db) now n i T" and "e_gid x = e"
  shows "\<exists>d T' db'. CreateAndLinkDeltaForEdgeSetProperty acc p old x T db = (x\<lparr>e_deltas := d # e_deltas x\<rparr>, T', db') \<and>
    d_op d = SET_PROPERTY p old (Some (ea_from acc)) \<and> linked (Owner_edge e) T (db_heap db) T' (db_heap db') [d] \<and> frame db db' \<and>
    db_edges db' = (db_edges db)(e \<mapsto> x\<lparr>e_deltas := d # e_deltas x\<rparr>) \<and> db_vertices db' = db_vertices db"
  using link_edge_delta_linked[OF assms(1), of "SET_PROPERTY p old (Some (ea_from acc))" x] assms(2) linked_info
  by (fastforce simp: CreateAndLinkDeltaForEdgeSetProperty_def Let_def)

lemma edge_property_calls_simps [simp]:
  "db_vertices (edge_property_calls acc p a b c db) = db_vertices db" "db_edges (edge_property_calls acc p a b c db) = db_edges db"
  "db_heap (edge_property_calls acc p a b c db) = db_heap db" "frame db0 (edge_property_calls acc p a b c db) = frame db0 db"
  by (simp_all add: edge_property_calls_def)

lemma edge_delta_loop_linked:
  assumes "tx_ok (db_heap db) now n i T" and "e_gid x = e" and "db_edges db e = Some x"
    and "edge_delta_loop cs acc x T db = (x', T', db')"
  shows "edge_linked_all e (map (\<lambda>(p, old, new). (p, old)) cs) x T db x' T' db'"
  using assms
proof (induction cs arbitrary: x T db)
  case Nil
  then show ?case
    by (auto simp: edge_linked_all_def)
next
  case (Cons c cs)
  obtain p old new where c: "c = (p, old, new)"
    by (cases c)
  obtain d T1 db1 where l: "CreateAndLinkDeltaForEdgeSetProperty acc p old x T db = (x\<lparr>e_deltas := d # e_deltas x\<rparr>, T1, db1)"
    "d_op d = SET_PROPERTY p old (Some (ea_from acc))" "linked (Owner_edge e) T (db_heap db) T1 (db_heap db1) [d]" "frame db db1"
    "db_edges db1 = (db_edges db)(e \<mapsto> x\<lparr>e_deltas := d # e_deltas x\<rparr>)" "db_vertices db1 = db_vertices db"
    using CreateAndLinkDeltaForEdgeSetProperty_linked[OF Cons.prems(1,2), of acc p old] by auto
  let ?x = "x\<lparr>e_deltas := d # e_deltas x\<rparr>" and ?db = "edge_property_calls acc p new new old db1"
  have step: "edge_delta_loop cs acc ?x T1 ?db = (x', T', db')"
    using Cons.prems(4) l(1) c by simp
  have "edge_linked_all e (map (\<lambda>(p, old, new). (p, old)) cs) ?x T1 ?db x' T' db'"
    by (rule Cons.IH[OF _ _ _ step]) (use linked_tx_ok[OF l(3) Cons.prems(1)] Cons.prems(2) l(5) in simp_all)
  then obtain ds where ds: "x' = ?x\<lparr>e_deltas := ds @ e_deltas ?x\<rparr>"
    "list_all2 (\<lambda>d (p, old). \<exists>o'. d_op d = SET_PROPERTY p old o') ds (rev (map (\<lambda>(p, old, new). (p, old)) cs))"
    "ds = [] \<and> T' = T1 \<and> db_heap db' = db_heap ?db \<or> linked (Owner_edge e) T1 (db_heap ?db) T' (db_heap db') ds"
    "frame ?db db'" "db_edges db' = (db_edges ?db)(e \<mapsto> x')" "db_vertices db' = db_vertices ?db"
    by (auto simp: edge_linked_all_def)
  have "linked (Owner_edge e) T (db_heap db) T' (db_heap db') (ds @ [d])"
    using ds(3) l(3) linked_append[OF l(3), of T' "db_heap db'" ds] by auto
  moreover have "frame db db'"
    using l(4) ds(4) by (auto simp: frame_def edge_property_calls_def)
  ultimately show ?case
    using ds l c unfolding edge_linked_all_def by (intro exI[of _ "ds @ [d]"]) (auto intro!: list_all2_appendI)
qed

lemma abs_edge_simps [simp]: "a_props (abs_edge x) q = GetProperty q (e_properties x)"
  by (simp add: abs_edge_def)

lemma list_all2_set:
  assumes "list_all2 P xs ys"
  shows "(\<forall>x \<in> set xs. \<exists>y \<in> set ys. P x y) \<and> (\<forall>y \<in> set ys. \<exists>x \<in> set xs. P x y)"
  using assms by (induction rule: list_all2_induct) auto

lemma write_edge_properties:
  assumes ok: "db_ok A db" and T: "A i = Some T" and x: "db_edges db e = Some x" and w: "writable (db_heap db) T (e_deltas x)"
    and alive: "\<not> e_deleted x"
    and l: "edge_linked_all e olds (x\<lparr>e_properties := s0\<rparr>) T (put_edge (x\<lparr>e_properties := s0\<rparr>) db) x1 T' db1"
    and olds: "\<And>p old. (p, old) \<in> set olds \<Longrightarrow> old = GetProperty p (e_properties x)"
      "\<And>q. q \<notin> fst ` set olds \<Longrightarrow> GetProperty q s = GetProperty q (e_properties x)"
    and s: "props_ok s" and db': "frame db1 db'" "db_heap db' = db_heap db1" "db_vertices db' = db_vertices db1"
      "db_edges db' = (db_edges db1)(e \<mapsto> x1\<lparr>e_properties := s\<rparr>)"
  shows "progress i A db T' db'"
proof -
  have xok: "edge_ok e x"
    using x ok by (simp add: db_ok_def store_ok_def)
  then have e: "e_gid x = e"
    by (simp add: edge_ok_def)
  obtain new where new: "x1 = x\<lparr>e_properties := s0, e_deltas := new @ e_deltas x\<rparr>"
    "list_all2 (\<lambda>d (p, old). \<exists>o'. d_op d = SET_PROPERTY p old o') new (rev olds)"
    "new = [] \<and> T' = T \<and> db_heap db1 = db_heap db \<or> linked (Owner_edge e) T (db_heap db) T' (db_heap db1) new"
    "frame db db1" "db_edges db1 = (db_edges db)(e \<mapsto> x1)" "db_vertices db1 = db_vertices db"
    using l e by (auto simp: edge_linked_all_def frame_def)
  let ?x = "x\<lparr>e_properties := s, e_deltas := new @ e_deltas x\<rparr>" and ?old = "\<lambda>p. GetProperty p (e_properties x)"
  have d: "\<forall>d \<in> set new. \<exists>p o'. d_op d = SET_PROPERTY p (?old p) o'"
    using list_all2_set[OF new(2)] olds(1) by fastforce
  have X: "x1\<lparr>e_properties := s\<rparr> = ?x" and frame: "frame db db'"
    using new(1,4) db'(1) frame_trans by auto
  have "undo_all new (abs_edge ?x) = (abs_edge ?x)\<lparr>a_props := ?old\<rparr>"
  proof (rule undo_props[OF d])
    fix q
    assume "\<forall>d \<in> set new. \<forall>w o'. d_op d \<noteq> SET_PROPERTY q w o'"
    then have "q \<notin> fst ` set olds"
      using list_all2_set[OF new(2)] by fastforce
    then show "a_props (abs_edge ?x) q = ?old q"
      using olds(2) by simp
  qed
  then have undo: "undo_all new (abs_edge ?x) = abs_edge x"
    by (simp add: abs_edge_def)
  show ?thesis
  proof (cases "new = []")
    case True
    then have "olds = []"
      using new(2) by simp
    then have "s = e_properties x"
      using olds(2) s xok by (intro GetProperty_inject) (auto simp: edge_ok_def)
    then have "db_edges db' = db_edges db"
      using db'(4) new(5) X x True by (simp add: fun_upd_idem)
    moreover have "tx_step T (db_heap db) T' (db_heap db')" "tx_deltas T' = tx_deltas T"
      using new(3) True db'(2) tx_step_refl[OF db_ok_tx[OF ok T]] by (auto simp: linked_def pushed_def)
    ultimately show ?thesis
      using new(6) db'(3) frame by (intro progress_local[OF ok T]) simp_all
  next
    case False
    have "edge_ok e ?x"
      using xok s d by (fastforce simp: edge_ok_def edge_op_def)
    moreover have lk: "linked (Owner_edge e) T (db_heap db) T' (db_heap db') new"
      using new(3) False db'(2) by simp
    moreover have "db_edges db' = (db_edges db)(e \<mapsto> ?x)" "db_vertices db' = db_vertices db"
      using db'(3,4) new(5,6) X by simp_all
    moreover have "undoable_all new (abs_edge ?x)"
      using d by (intro undoable_props) blast
    ultimately show ?thesis
      using undo frame by (intro progress_edge[OF ok T x alive w, where new = new and x' = ?x]) (auto simp: linked_def)
  qed
qed

lemma progress_frame:
  assumes "progress i A db T' db'" and "db_vertices db'' = db_vertices db'" "db_edges db'' = db_edges db'" "db_heap db'' = db_heap db'"
    "frame db' db''"
  shows "progress i A db T' db''"
proof -
  have "mv_of (A(i \<mapsto> T')) db'' = mv_of (A(i \<mapsto> T')) db'"
    using assms objs_eqI[of db'' db'] by (simp add: mv_of_def frame_def)
  then show ?thesis
    using assms by (simp add: progress_def store_ok_def frame_def)
qed

lemma put_edge_same: "db_edges db e = Some x \<Longrightarrow> e_gid x = e \<Longrightarrow> put_edge (x\<lparr>e_properties := e_properties x\<rparr>) db = db"
  by (simp add: put_edge_def fun_upd_idem)

lemma edge_loop_progress:
  assumes ok: "db_ok A db" and T: "A i = Some T" and x: "db_edges db e = Some x" and w: "writable (db_heap db) T (e_deltas x)"
    and alive: "\<not> e_deleted x"
    and l: "edge_delta_loop cs acc (x\<lparr>e_properties := s0\<rparr>) T (put_edge (x\<lparr>e_properties := s0\<rparr>) db) = (x1, T', db1)"
    and olds: "\<And>p old new. (p, old, new) \<in> set cs \<Longrightarrow> old = GetProperty p (e_properties x)"
      "\<And>q. q \<notin> fst ` set cs \<Longrightarrow> GetProperty q s = GetProperty q (e_properties x)"
    and s: "props_ok s"
  shows "progress i A db T' (put_edge (x1\<lparr>e_properties := s\<rparr>) db1)" and "s = s0 \<Longrightarrow> progress i A db T' db1"
proof -
  have e: "e_gid x = e"
    using x ok by (simp add: db_ok_def store_ok_def edge_ok_def)
  have all: "edge_linked_all e (map (\<lambda>(p, old, new). (p, old)) cs) (x\<lparr>e_properties := s0\<rparr>) T (put_edge (x\<lparr>e_properties := s0\<rparr>) db) x1 T' db1"
    by (rule edge_delta_loop_linked[OF _ _ _ l]) (use db_ok_tx[OF ok T] e in auto)
  then have x1: "db_edges db1 e = Some x1" "e_gid x1 = e" "e_properties x1 = s0"
    using e by (auto simp: edge_linked_all_def)
  have fst_eq: "fst ` set (map (\<lambda>(p, old, new). (p, old)) cs) = fst ` set cs"
    by force
  have p: "progress i A db T' db'"
    if "frame db1 db'" "db_heap db' = db_heap db1" "db_vertices db' = db_vertices db1" "db_edges db' = (db_edges db1)(e \<mapsto> x1\<lparr>e_properties := s\<rparr>)" for db'
    using olds fst_eq by (intro write_edge_properties[OF ok T x w alive all _ _ s that]) auto
  show "progress i A db T' (put_edge (x1\<lparr>e_properties := s\<rparr>) db1)"
    using x1(2) by (intro p) auto
  show "progress i A db T' db1" if "s = s0"
    using that x1 by (intro p) (auto simp: fun_upd_idem)
qed

lemma edge_SetProperty_progress:
  assumes ok: "db_ok A db" and T: "A i = Some T"
  shows "case EdgeAccessor_SetProperty p w acc T db of (r, T', db') \<Rightarrow> progress i A db T' db'"
proof (cases rule: lock_edge_cases[OF ok, of acc T])
  case (1 e b)
  then show ?thesis
    using progress_error[OF ok T] by (simp add: EdgeAccessor_SetProperty_def)
next
  case (2 x)
  let ?old = "GetProperty p (e_properties x)" and ?w = "edge_converted db acc p w"
  have wf: "e_gid x = ea_edge acc" "props_ok (e_properties x)"
    using 2(2) ok by (auto simp: db_ok_def store_ok_def edge_ok_def)
  obtain x1 T1 db1 where l: "CreateAndLinkDeltaForEdgeSetProperty acc p ?old x T db = (x1, T1, db1)"
    by (cases "CreateAndLinkDeltaForEdgeSetProperty acc p ?old x T db")
  then obtain d where x1: "x1 = x\<lparr>e_deltas := d # e_deltas x\<rparr>"
    using CreateAndLinkDeltaForEdgeSetProperty_linked[OF db_ok_tx[OF ok T] wf(1), of acc p ?old] by auto
  let ?db = "edge_property_calls acc p ?w ?w ?old db1"
  have loop: "edge_delta_loop [(p, ?old, ?w)] acc (x\<lparr>e_properties := e_properties x\<rparr>) T (put_edge (x\<lparr>e_properties := e_properties x\<rparr>) db) = (x1, T1, ?db)"
    using l put_edge_same[OF 2(2) wf(1)] by simp
  have "progress i A db T1 (put_edge (x1\<lparr>e_properties := set_prop p ?w (e_properties x)\<rparr>) ?db)"
    by (rule edge_loop_progress(1)[OF ok T 2(2-4) loop]) (use wf in \<open>auto simp: ps.get_put intro: wf_intros\<close>)
  then have "progress i A db T1 (edge_property_calls acc p ?w w ?old (put_edge (x1\<lparr>e_properties := set_prop p ?w (e_properties x1)\<rparr>) db1))"
    using x1 by (elim progress_frame) (simp_all add: frame_def edge_property_calls_def)
  then show ?thesis
    using 2 l progress_refl[OF ok T] by (simp add: EdgeAccessor_SetProperty_def Let_def)
qed

lemma edge_InitProperties_progress:
  assumes ok: "db_ok A db" and T: "A i = Some T" and ps: "ordered_map ps"
  shows "case EdgeAccessor_InitProperties ps acc T db of (r, T', db') \<Rightarrow> progress i A db T' db'"
proof (cases rule: lock_edge_cases[OF ok, of acc T])
  case (1 e b)
  then show ?thesis
    using progress_error[OF ok T] by (simp add: EdgeAccessor_InitProperties_def)
next
  case (2 x)
  let ?ps = "map (\<lambda>(p, w). (p, edge_converted db acc p w)) ps"
  let ?s = "filter (\<lambda>(p, w). w \<noteq> PV_Null) ?ps"
  have os: "ordered_map ?ps"
    using ps by (simp add: ordered_map_def comp_def case_prod_unfold)
  show ?thesis
  proof (cases "e_properties x = []")
    case False
    then show ?thesis
      using 2 progress_refl[OF ok T] by (simp add: EdgeAccessor_InitProperties_def InitProperties_def Let_def)
  next
    case True
    obtain x1 T1 db1 where l: "edge_delta_loop (map (\<lambda>(p, w). (p, PV_Null, w)) ?ps) acc (x\<lparr>e_properties := ?s\<rparr>) T
        (put_edge (x\<lparr>e_properties := ?s\<rparr>) db) = (x1, T1, db1)"
      by (cases "edge_delta_loop (map (\<lambda>(p, w). (p, PV_Null, w)) ?ps) acc (x\<lparr>e_properties := ?s\<rparr>) T (put_edge (x\<lparr>e_properties := ?s\<rparr>) db)")
    have keys: "GetProperty q ?s = GetProperty q (e_properties x)" if "q \<notin> fst ` set (map (\<lambda>(p, w). (p, PV_Null, w)) ?ps)" for q
    proof -
      have "q \<notin> fst ` set ?ps"
        using that by force
      then show ?thesis
        unfolding GetProperty_filter_nonnull[OF os] True by (simp add: GetProperty_def map_of_eq_None_iff[THEN iffD2])
    qed
    have "progress i A db T1 db1"
      by (rule edge_loop_progress(2)[OF ok T 2(2-4) l _ keys props_ok_filter_nonnull[OF os]]) (use True in \<open>auto simp: GetProperty_def\<close>)
    then show ?thesis
      using 2 True l by (simp add: EdgeAccessor_InitProperties_def InitProperties_def Let_def)
  qed
qed

lemma edge_ClearProperties_progress:
  assumes ok: "db_ok A db" and T: "A i = Some T"
  shows "case EdgeAccessor_ClearProperties acc T db of (r, T', db') \<Rightarrow> progress i A db T' db'"
proof (cases rule: lock_edge_cases[OF ok, of acc T])
  case (1 e b)
  then show ?thesis
    using progress_error[OF ok T] by (simp add: EdgeAccessor_ClearProperties_def)
next
  case (2 x)
  let ?cs = "map (\<lambda>(p, w). (p, w, PV_Null)) (e_properties x)"
  have wf: "e_gid x = ea_edge acc" "ordered_map (e_properties x)"
    using 2(2) ok by (auto simp: db_ok_def store_ok_def edge_ok_def props_ok_def)
  obtain x1 T1 db1 where l: "edge_delta_loop ?cs acc x T db = (x1, T1, db1)"
    by (cases "edge_delta_loop ?cs acc x T db")
  then have l': "edge_delta_loop ?cs acc (x\<lparr>e_properties := e_properties x\<rparr>) T (put_edge (x\<lparr>e_properties := e_properties x\<rparr>) db) = (x1, T1, db1)"
    using put_edge_same[OF 2(2) wf(1)] by simp
  have keys: "GetProperty q [] = GetProperty q (e_properties x)" if "q \<notin> fst ` set ?cs" for q
  proof -
    have "q \<notin> fst ` set (e_properties x)"
      using that by force
    then show ?thesis
      by (simp add: GetProperty_def map_of_eq_None_iff[THEN iffD2])
  qed
  have "progress i A db T1 (put_edge (x1\<lparr>e_properties := []\<rparr>) db1)"
    by (rule edge_loop_progress(1)[OF ok T 2(2-4) l' _ keys]) (use ordered_map_distinct[OF wf(2)] in \<open>auto simp: GetProperty_def\<close>)
  then show ?thesis
    using 2 l by (simp add: EdgeAccessor_ClearProperties_def ClearProperties_def Let_def)
qed

lemma edge_UpdateProperties_progress:
  assumes ok: "db_ok A db" and T: "A i = Some T" and ps: "ordered_map ps"
    and eq: "\<forall>a b. cfg_value_eq (db_config db) a b \<longrightarrow> a = b"
  shows "case EdgeAccessor_UpdateProperties ps acc T db of (r, T', db') \<Rightarrow> progress i A db T' db'"
proof (cases rule: lock_edge_cases[OF ok, of acc T])
  case (1 e b)
  then show ?thesis
    using progress_error[OF ok T] by (simp add: EdgeAccessor_UpdateProperties_def)
next
  case (2 x)
  let ?ps = "map (\<lambda>(p, w). (p, edge_converted db acc p w)) ps"
  have po: "props_ok (e_properties x)" and os: "ordered_map ?ps"
    using 2(2) ok ps by (auto simp: db_ok_def store_ok_def edge_ok_def ordered_map_def comp_def case_prod_unfold)
  obtain ch s where u: "UpdateProperties ?ps (e_properties x) = (ch, s)"
    by (cases "UpdateProperties ?ps (e_properties x)")
  note spec = UpdateProperties_spec[OF u os po]
  let ?cs = "filter (\<lambda>(p, old, new). \<not> (\<not> cfg_delta_on_identical_property_update (db_config db) \<and> cfg_value_eq (db_config db) old new)) ch"
  obtain x1 T1 db1 where l: "edge_delta_loop ?cs acc (x\<lparr>e_properties := s\<rparr>) T (put_edge (x\<lparr>e_properties := s\<rparr>) db) = (x1, T1, db1)"
    by (cases "edge_delta_loop ?cs acc (x\<lparr>e_properties := s\<rparr>) T (put_edge (x\<lparr>e_properties := s\<rparr>) db)")
  have keys: "GetProperty q s = GetProperty q (e_properties x)" if q: "q \<notin> fst ` set ?cs" for q
  proof (cases "q \<in> fst ` set ch")
    case True
    then obtain old new where c: "(q, old, new) \<in> set ch"
      by auto
    then have "cfg_value_eq (db_config db) old new"
      using q by force
    then show ?thesis
      using spec(2)[OF c] eq[rule_format, of old new] by simp
  next
    case False
    then show ?thesis
      by (rule spec(3))
  qed
  have "progress i A db T1 db1"
    by (rule edge_loop_progress(2)[OF ok T 2(2-4) l _ keys spec(1)]) (use spec(2) in auto)
  then show ?thesis
    unfolding EdgeAccessor_UpdateProperties_def Let_def by (simp only: 2(1) u l prod.case sum.case)
qed

section \<open>Creating an edge\<close>

lemma writable_step:
  assumes "db_ok A db" and "A i = Some T" and "tx_step T (db_heap db) T' h'" and "chain_ok A (db_heap db) (db_timestamp db) ds"
  shows "writable h' T' ds \<longleftrightarrow> writable (db_heap db) T ds"
proof -
  have "txs_ok A (db_heap db) (db_timestamp db) (db_transaction_id db)"
    using assms(1) mv_invD(1)[of "mv_of A db"] by (simp add: db_ok_def)
  then have "ts h' d = ts (db_heap db) d" if "d \<in> set ds" for d
    using tx_step_ts[of A "db_heap db" "db_timestamp db" "db_transaction_id db" i T T' h' d] assms(2-4) that by (auto simp: chain_ok_def)
  then show ?thesis
    using assms(3) by (cases ds) (auto simp: writable_def tx_step_def)
qed

lemma writable_own: "linked o' T h T' h' (d # new) \<Longrightarrow> writable h' T' (d # ds)"
  by (auto simp: linked_def pushed_def tx_step_def writable_def ts_def)

text \<open>The creation of an entry with a new edge.\<close>

lemma vector_ok_create:
  assumes "vector_ok entry n es ds" and "entry (d_op d) = Some x" and "snd (snd x) = n"
  shows "vector_ok entry (n + 1) (es @ [x]) (d # ds)"
proof -
  have all: "all_entries entry (es @ [x]) (d # ds) = insert x (all_entries entry es ds)"
    using assms(2) by (auto simp: all_entries_def)
  have fresh: "snd (snd y) \<noteq> n" if "y \<in> all_entries entry es ds" for y
    using assms(1) that by (auto simp: vector_ok_def)
  have "entry (d_op d') \<noteq> Some x" if "d' \<in> set ds" for d'
  proof
    assume "entry (d_op d') = Some x"
    then have "x \<in> all_entries entry es ds"
      using that by (auto simp: all_entries_def)
    then show False
      using fresh assms(3) by blast
  qed
  then show ?thesis
    using assms fresh unfolding vector_ok_def all by (auto simp: creates_entry_def inj_on_def less_Suc_eq)
qed

lemma vector_ok_skip:
  assumes "vector_ok entry n es ds" and "entry (d_op d) = None"
  shows "vector_ok entry n es (d # ds)"
  using vector_ok_other[of "[d]" entry n es ds] assms by simp

lemma vector_ok_fresh: "vector_ok entry n es ds \<Longrightarrow> snd (snd x) = n \<Longrightarrow> x \<notin> set es"
  by (auto simp: vector_ok_def all_entries_def)

definition vector_create :: "EdgeDirection \<Rightarrow> edge_type_id \<Rightarrow> gid \<Rightarrow> edge_ref \<Rightarrow> DeltaChainState \<Rightarrow> delta_op" where
  "vector_create dir t w e st = (case dir of IN_DIR \<Rightarrow> REMOVE_IN_EDGE t w e st | OUT_DIR \<Rightarrow> REMOVE_OUT_EDGE t w e st)"

lemma append_edge:
  assumes ok: "db_ok A db" and T: "A i = Some T" and v: "db_vertices db g = Some v" "\<not> v_deleted v" and w: "writable (db_heap db) T (v_deltas v)"
    and n: "vertex_ok n g v" "e = n \<or> dir = IN_DIR \<and> vector_ok in_entry e (v_in_edges v) (v_deltas v) \<and> n = e + 1" "db_edge_id db = e + 1"
    and d: "d_op d = vector_create dir t u e st" "linked (Owner_vertex g) T (db_heap db) T' (db_heap db') [d]"
    and v': "v' = (case dir of IN_DIR \<Rightarrow> v\<lparr>v_deltas := d # v_deltas v, v_in_edges := v_in_edges v @ [(t, u, e)]\<rparr>
        | OUT_DIR \<Rightarrow> v\<lparr>v_deltas := d # v_deltas v, v_out_edges := v_out_edges v @ [(t, u, e)]\<rparr>)"
    and db': "frame db db'" "db_vertices db' = (db_vertices db)(g \<mapsto> v')" "db_edges db' = db_edges db"
  shows "progress i A db T' db'" and "vertex_ok (e + 1) g v'"
proof -
  have g: "v_gid v = g"
    using n(1) by (simp add: vertex_ok_def)
  have entries: "in_entry (d_op d) = (case dir of IN_DIR \<Rightarrow> Some (t, u, e) | OUT_DIR \<Rightarrow> None)"
    "out_entry (d_op d) = (case dir of OUT_DIR \<Rightarrow> Some (t, u, e) | IN_DIR \<Rightarrow> None)"
    using d(1) by (cases dir; simp add: vector_create_def in_entry_def out_entry_def)+
  have vecs: "vector_ok in_entry n (v_in_edges v) (v_deltas v)" "vector_ok out_entry n (v_out_edges v) (v_deltas v)" "vertex_wf v"
    "\<not> v_has_uncommitted_non_sequential_deltas v"
    using n(1) by (auto simp: vertex_ok_def)
  have le: "n \<le> e + 1"
    using n(2) by auto
  have i: "vector_ok in_entry e (v_in_edges v) (v_deltas v)" if "dir = IN_DIR"
    using n(2) vecs(1) that by auto
  have o: "vector_ok out_entry e (v_out_edges v) (v_deltas v)" if "dir = OUT_DIR"
    using n(2) vecs(2) that by auto
  show vok: "vertex_ok (e + 1) g v'"
  proof (cases dir)
    case IN_DIR
    show ?thesis
      using vector_ok_create[OF i, of d "(t, u, e)"] vector_ok_mono[OF vector_ok_skip[OF vecs(2), of d] le] entries IN_DIR v' vecs(3,4) g
        vector_ok_fresh[OF i, of "(t, u, e)"] by (simp add: vertex_ok_def vertex_wf_def)
  next
    case OUT_DIR
    show ?thesis
      using vector_ok_create[OF o, of d "(t, u, e)"] vector_ok_mono[OF vector_ok_skip[OF vecs(1), of d] le] entries OUT_DIR v' vecs(3,4) g
        vector_ok_fresh[OF o, of "(t, u, e)"] by (simp add: vertex_ok_def vertex_wf_def)
  qed
  have "(t, u, e) \<notin> (case dir of IN_DIR \<Rightarrow> set (v_in_edges v) | OUT_DIR \<Rightarrow> set (v_out_edges v))"
    using vector_ok_fresh[OF i, of "(t, u, e)"] vector_ok_fresh[OF o, of "(t, u, e)"] by (cases dir) auto
  then have "undoable_all [d] (abs_vertex v')" "undo_all [d] (abs_vertex v') = abs_vertex v"
    using d(1) v' by (cases dir; auto simp: vector_create_def undoable_def aundo_def abs_vertex_def)+
  moreover have "v_deltas v' = [d] @ v_deltas v"
    using v' by (cases dir) simp_all
  ultimately show "progress i A db T' db'"
    using vok n(3) d(2) db' by (intro progress_linked[OF ok T v w, where new = "[d]" and v' = v']) simp_all
qed

text \<open>Neither end of a new edge is prepared for a non-sequential delta.\<close>

definition sequential_end :: "db \<Rightarrow> transaction \<Rightarrow> gid \<Rightarrow> bool" where
  "sequential_end db T g \<longleftrightarrow> (case db_vertices db g of None \<Rightarrow> True
     | Some v \<Rightarrow> fst (PrepareForNonSequentialWrite (db_heap db) T (v_deltas v) (v_has_uncommitted_non_sequential_deltas v)) \<noteq> WR_NON_SEQUENTIAL)"

lemma PrepareForNonSequentialWrite_error:
  "fst (PrepareForNonSequentialWrite h T ds flag) = WR_SERIALIZATION_ERROR \<Longrightarrow>
   PrepareForNonSequentialWrite h T ds flag = (WR_SERIALIZATION_ERROR, T\<lparr>tx_has_serialization_error := True\<rparr>, flag)"
  by (cases ds) (auto simp: PrepareForNonSequentialWrite_def split: if_splits)

lemma put_vertex_same: "db_vertices db (v_gid v) = Some v \<Longrightarrow> put_vertex v db = db"
  by (simp add: put_vertex_def map_upd_triv)

lemma prepare_edge_end_cases:
  assumes ok: "db_ok A db" and s: "sequential_end db T g"
  obtains (error) e b where "prepare_edge_end g T db = (Inl e, T\<lparr>tx_has_serialization_error := b\<rparr>, db)"
  | (prepared) v st where "prepare_edge_end g T db = (Inr st, T, db)" "db_vertices db g = Some v"
      "writable (db_heap db) T (v_deltas v)" "\<not> v_deleted v" "st \<noteq> NON_SEQUENTIAL"
proof (cases "db_vertices db g")
  case None
  then have "prepare_edge_end g T db = (Inl Dangling_pointer, T, db)"
    by (simp add: prepare_edge_end_def get_vertex_def action_defs)
  then show ?thesis
    using error[of _ "tx_has_serialization_error T"] by simp
next
  case (Some v)
  have flag: "\<not> v_has_uncommitted_non_sequential_deltas v" and gid: "v_gid v = g"
    using vertex_flag[OF ok Some] ok Some by (auto simp: db_ok_def store_ok_def vertex_ok_def)
  then have same: "put_vertex (v\<lparr>v_has_uncommitted_non_sequential_deltas := False\<rparr>) db = db"
    using put_vertex_same[of db v] Some by (cases v) simp
  show ?thesis
  proof (cases "writable (db_heap db) T (v_deltas v)")
    case True
    then have p: "PrepareForNonSequentialWrite (db_heap db) T (v_deltas v) False = (WR_SUCCESS, T, False)"
      using PrepareForNonSequentialWrite_writable(1)[OF db_ok_chain(1)[OF ok Some], of T] by simp
    show ?thesis
    proof (cases "v_deleted v")
      case True
      then show ?thesis
        using error[of DELETED_OBJECT "tx_has_serialization_error T"] Some p flag same
        by (simp add: prepare_edge_end_def get_vertex_def action_defs)
    next
      case False
      then show ?thesis
        using prepared[of _ v] Some p flag same True
        by (simp add: prepare_edge_end_def get_vertex_def action_defs ComputeDeltaChainState_def)
    qed
  next
    case False
    then have "fst (PrepareForNonSequentialWrite (db_heap db) T (v_deltas v) False) = WR_SERIALIZATION_ERROR"
      using PrepareForNonSequentialWrite_writable(2)[OF db_ok_chain(1)[OF ok Some], of T] s Some flag
      by (cases "fst (PrepareForNonSequentialWrite (db_heap db) T (v_deltas v) False)") (auto simp: sequential_end_def)
    then show ?thesis
      using error[of SERIALIZATION_ERROR True] PrepareForNonSequentialWrite_error[of "db_heap db" T "v_deltas v" False] Some flag same
      by (simp add: prepare_edge_end_def get_vertex_def action_defs)
  qed
qed

lemma edge_ok_new: "d_op d = DELETE_OBJECT \<Longrightarrow> edge_ok g (new_edge g [d])"
  by (simp add: edge_ok_def new_edge_def edge_op_def)

lemma insert_edge_object_progress:
  assumes ok: "db_ok A db" and T: "A i = Some T" and e: "e < db_edge_id db" "db_edges db e = None"
    and r: "insert_edge_object e g T db = (r, T', db')"
  shows "progress i A db T' db'" "tx_step T (db_heap db) T' (db_heap db')" "db_vertices db' = db_vertices db" "db_edge_id db' = db_edge_id db"
    "db_config db' = db_config db"
proof -
  have all: "progress i A db T' db' \<and> tx_step T (db_heap db) T' (db_heap db') \<and> db_vertices db' = db_vertices db \<and> db_edge_id db' = db_edge_id db \<and>
    db_config db' = db_config db"
  proof (cases "cfg_properties_on_edges (db_config db)")
    case False
    then show ?thesis
      using r progress_refl[OF ok T] tx_step_refl[OF db_ok_tx[OF ok T]] by (auto simp: insert_edge_object_def action_defs)
  next
    case True
    obtain d T1 h1 where l: "CreateDeleteObjectDelta (Owner_edge e) T (db_heap db) = ([d], T1, h1)" "d_op d = DELETE_OBJECT"
      "linked (Owner_edge e) T (db_heap db) T1 h1 [d]"
      using CreateDeleteObjectDelta_linked[OF db_ok_tx[OF ok T], of "Owner_edge e"] by auto
    let ?x = "new_edge e [d]"
    let ?framed = "\<lambda>db2. frame (db\<lparr>db_edges_metadata := db_edges_metadata db2\<rparr>) db2 \<and> dom (db_edges_metadata db) \<subseteq> dom (db_edges_metadata db2) \<and>
      (cfg_enable_edges_metadata (db_config db) \<longrightarrow> e \<in> dom (db_edges_metadata db2))"
    have p: "progress i A db T1 db2" if "db_edges db2 = (db_edges db)(e \<mapsto> ?x)" "db_vertices db2 = db_vertices db" "?framed db2"
      "db_heap db2 = h1" for db2
    proof (rule progress_create[where A = A and i = i, OF T])
      show "objs db2 = (objs db)(Owner_edge e \<mapsto> (abs_edge ?x, [d]))"
        using objs_put_edge[OF that(1,2)] by (simp add: new_edge_def)
      have "dom (db_edges db2) = insert e (dom (db_edges db))" "db_config db2 = db_config db"
        using that(1,3) by (simp_all add: frame_def)
      moreover have "cfg_enable_edges_metadata (db_config db) \<longrightarrow>
          dom (db_edges db) \<subseteq> dom (db_edges_metadata db)"
        using ok by (simp add: db_ok_def store_ok_def)
      ultimately have meta: "cfg_enable_edges_metadata (db_config db2) \<longrightarrow>
          dom (db_edges db2) \<subseteq> dom (db_edges_metadata db2)"
        using that(3) by (metis insert_subset subset_trans)
      show "store_ok db2"
        unfolding store_ok_def by (intro conjI meta) (use ok that e edge_ok_new[OF l(2)] in \<open>auto simp: db_ok_def store_ok_def frame_def\<close>)
    qed (use l that e in \<open>auto simp: linked_def frame_def abs_edge_def\<close>)
    have "T' = T1 \<and> db_edges db' = (db_edges db)(e \<mapsto> ?x) \<and> db_vertices db' = db_vertices db \<and> ?framed db' \<and> db_heap db' = h1"
      using r True l(1) e(2) by (auto simp: insert_edge_object_def action_defs create_delete_delta_def new_edge_def put_edge_def frame_def
          split: if_splits)
    then show ?thesis
      using p[of db'] l(3) by (simp add: linked_def pushed_def frame_def)
  qed
  then show "progress i A db T' db'" "tx_step T (db_heap db) T' (db_heap db')" "db_vertices db' = db_vertices db" "db_edge_id db' = db_edge_id db"
    "db_config db' = db_config db"
    by simp_all
qed

lemma frame_more [simp]:
  "frame db (call c db') = frame db db'" "frame db (db'\<lparr>db_edge_count := k\<rparr>) = frame db db'"
  by (simp_all add: frame_def)

lemma link_new_edge_progress:
  assumes ok: "db_ok A db" and T: "A i = Some T" and id: "db_edge_id db = e + 1"
    and v: "db_vertices db f = Some v" "vertex_ok e f v" "writable (db_heap db) T (v_deltas v)" "fs \<noteq> NON_SEQUENTIAL" "\<not> v_deleted v"
    and u: "db_vertices db t = Some u" "vertex_ok e t u" "writable (db_heap db) T (v_deltas u)" "us \<noteq> NON_SEQUENTIAL" "\<not> v_deleted u"
    and r: "link_new_edge e ty f t fs us T db = (r, T', db')"
  shows "progress i A db T' db'"
proof -
  have g: "v_gid v = f" "v_gid u = t"
    using v(2) u(2) by (auto simp: vertex_ok_def)
  have seq: "sequential_op (REMOVE_OUT_EDGE ty t e fs)" "sequential_op (REMOVE_IN_EDGE ty f e us)"
    using v(4) u(4) by (simp_all add: sequential_op_def op_state_def)
  obtain d T1 db1 where l1: "link_vertex_delta v (REMOVE_OUT_EDGE ty t e fs) T db = (v\<lparr>v_deltas := d # v_deltas v\<rparr>, T1, db1)"
    "d_op d = REMOVE_OUT_EDGE ty t e fs" "linked (Owner_vertex f) T (db_heap db) T1 (db_heap db1) [d]" "frame db db1"
    "db_vertices db1 = (db_vertices db)(f \<mapsto> v\<lparr>v_deltas := d # v_deltas v\<rparr>)" "db_edges db1 = db_edges db"
    using link_vertex_delta_linked[OF db_ok_tx[OF ok T] seq(1), of v] unfolding g by blast
  let ?v = "v\<lparr>v_deltas := d # v_deltas v, v_out_edges := v_out_edges v @ [(ty, t, e)]\<rparr>"
  let ?db1 = "put_vertex ?v db1"
  have p1: "progress i A db T1 ?db1" "vertex_ok (e + 1) f ?v"
    using append_edge[OF ok T v(1,5,3,2) _ id, where dir = OUT_DIR and d = d and t = ty and u = t and st = fs and db' = ?db1 and T' = T1
        and v' = ?v] l1 g by (simp_all add: vector_create_def)
  have ok1: "db_ok (A(i \<mapsto> T1)) ?db1"
    by (rule progress_db_ok[OF ok T p1(1)])
  define u1 where "u1 = (if t = f then ?v else u)"
  have u1: "db_vertices ?db1 t = Some u1" "\<not> v_deleted u1"
    using u(1,5) v(5) l1(5) g by (simp_all add: u1_def)
  have w1: "writable (db_heap ?db1) T1 (v_deltas u1)"
    using writable_own[OF l1(3), of "v_deltas v"] writable_step[OF ok T _ db_ok_chain(1)[OF ok u(1)], of T1 "db_heap db1"] l1(3) u(3)
    by (simp add: u1_def linked_def pushed_def)
  define n where "n = (if t = f then e + 1 else e)"
  have n: "vertex_ok n t u1" "e = n \<or> IN_DIR = IN_DIR \<and> vector_ok in_entry e (v_in_edges u1) (v_deltas u1) \<and> n = e + 1"
    using p1(2) u(2) v(2) l1(2) vector_ok_skip[of in_entry e "v_in_edges v" "v_deltas v" d]
    by (auto simp: u1_def n_def vertex_ok_def in_entry_def)
  then have g1: "v_gid u1 = t"
    by (simp add: vertex_ok_def)
  obtain d2 T2 db2 where l2: "link_vertex_delta u1 (REMOVE_IN_EDGE ty f e us) T1 ?db1 = (u1\<lparr>v_deltas := d2 # v_deltas u1\<rparr>, T2, db2)"
    "d_op d2 = REMOVE_IN_EDGE ty f e us" "linked (Owner_vertex t) T1 (db_heap ?db1) T2 (db_heap db2) [d2]" "frame ?db1 db2"
    "db_vertices db2 = (db_vertices ?db1)(t \<mapsto> u1\<lparr>v_deltas := d2 # v_deltas u1\<rparr>)" "db_edges db2 = db_edges ?db1"
    using link_vertex_delta_linked[OF db_ok_tx[OF ok1, of i T1] seq(2), of u1] unfolding g1 by auto
  let ?u = "u1\<lparr>v_deltas := d2 # v_deltas u1, v_in_edges := v_in_edges u1 @ [(ty, f, e)]\<rparr>"
  have id1: "db_edge_id ?db1 = e + 1"
    using l1(4) id by (simp add: frame_def)
  have p2: "progress i (A(i \<mapsto> T1)) ?db1 (T2\<lparr>tx_cache := c\<rparr>) db3"
    if "db_vertices db3 = (db_vertices db2)(t \<mapsto> ?u)" "db_edges db3 = db_edges db2" "db_heap db3 = db_heap db2" "frame db2 db3" for c db3
    by (rule append_edge(1)[OF ok1 _ u1 w1 n id1, where d = d2 and t = ty and u = f and st = us])
       (use l2 that linked_cache[OF l2(3)] frame_trans[OF l2(4)] in \<open>simp_all add: vector_create_def\<close>)
  have "\<exists>c. T' = T2\<lparr>tx_cache := c\<rparr> \<and> db_vertices db' = (db_vertices db2)(t \<mapsto> ?u) \<and> db_edges db' = db_edges db2 \<and>
      db_heap db' = db_heap db2 \<and> frame db2 db'"
    using r v(1) u1(1) l1(1,5) l2(1,5) g g1
    by (auto simp: link_new_edge_def link_vertex_def update_vertex_def get_vertex_def action_defs record_calls_def schema_call_def)
  then show ?thesis
    using progress_trans[OF p1(1) p2] by auto
qed

lemma fresh_edge: "db_ok A db \<Longrightarrow> db_edges db (db_edge_id db) = None"
  by (cases "db_edges db (db_edge_id db)") (auto simp: db_ok_def store_ok_def)

text \<open>Everything after both ends have been prepared.\<close>

lemma create_edge_rest_progress:
  assumes ok: "db_ok A db" and T: "A i = Some T" and e: "e = db_edge_id db"
    and v: "db_vertices db f = Some v" "writable (db_heap db) T (v_deltas v)" "fs \<noteq> NON_SEQUENTIAL" "\<not> v_deleted v"
    and u: "db_vertices db t = Some u" "writable (db_heap db) T (v_deltas u)" "us \<noteq> NON_SEQUENTIAL" "\<not> v_deleted u"
    and r: "bind_act (record_calls cs) (\<lambda>_. bind_act (modify_db (\<lambda>db. db\<lparr>db_edge_id := db_edge_id db + 1\<rparr>)) (\<lambda>_.
      bind_act (insert_edge_object e f) (\<lambda>_. bind_act (link_new_edge e ty f t fs us) (\<lambda>_. ret x)))) T db = (r, T', db')"
  shows "progress i A db T' db'"
proof -
  have voks: "vertex_ok e f v" "vertex_ok e t u"
    using ok v(1) u(1) e by (auto simp: db_ok_def store_ok_def)
  define db1 where "db1 = (calls cs db)\<lparr>db_edge_id := e + 1\<rparr>"
  have p1: "progress i A db T db1"
  proof -
    have "progress i A db T (calls cs db)"
      by (rule progress_tx[OF ok T]) simp_all
    moreover have "progress i (A(i \<mapsto> T)) (calls cs db) T db1"
      using progress_ids[OF progress_db_ok[OF ok T calculation], of i T "db_vertex_id db" "e + 1"] e
      by (simp add: db1_def calls_def)
    ultimately show ?thesis
      by (rule progress_trans)
  qed
  have At: "A(i \<mapsto> T) = A"
    using T by (simp add: map_upd_triv)
  have ok1: "db_ok A db1"
    using progress_db_ok[OF ok T p1] At by simp
  obtain r2 T2 db2 where ins: "insert_edge_object e f T db1 = (r2, T2, db2)"
    by (cases "insert_edge_object e f T db1")
  have e1: "e < db_edge_id db1" "db_edges db1 e = None"
    using fresh_edge[OF ok] e by (simp_all add: db1_def)
  note ip = insert_edge_object_progress[OF ok1 T e1 ins]
  have p2: "progress i A db T2 db2"
    using progress_trans[OF p1] ip(1) At by simp
  have same: "db_vertices db1 = db_vertices db" "db_heap db1 = db_heap db" "db_edge_id db1 = e + 1"
    by (simp_all add: db1_def)
  have r1: "bind_act (insert_edge_object e f) (\<lambda>_. bind_act (link_new_edge e ty f t fs us) (\<lambda>_. ret x)) T db1 = (r, T', db')"
    using r e by (simp add: bind_act_def record_calls_def modify_db_def db1_def)
  show ?thesis
  proof (cases r2)
    case (Inl er)
    then show ?thesis
      using p2 r1 ins by (simp add: bind_act_def)
  next
    case (Inr un)
    obtain r3 T3 db3 where l: "link_new_edge e ty f t fs us T2 db2 = (r3, T3, db3)"
      by (cases "link_new_edge e ty f t fs us T2 db2")
    have "writable (db_heap db2) T2 (v_deltas v)" "writable (db_heap db2) T2 (v_deltas u)"
      using writable_step[OF ok1 T ip(2)] db_ok_chain(1)[OF ok1, of f v] db_ok_chain(1)[OF ok1, of t u] v u same by simp_all
    then have "progress i (A(i \<mapsto> T2)) db2 T3 db3"
      using link_new_edge_progress[OF progress_db_ok[OF ok T p2], of i T2 e f v fs t u us ty r3 T3 db3] l ip(3,4) v u voks same by simp
    then have "progress i A db T3 db3"
      by (rule progress_trans[OF p2])
    then show ?thesis
      using r1 ins l Inr by (auto simp: bind_act_def ret_def split: sum.splits)
  qed
qed

lemma CreateEdge_progress:
  assumes ok: "db_ok A db" and T: "A i = Some T" and s: "sequential_end db T (va_vertex src)" "sequential_end db T (va_vertex dst)"
  shows "case CreateEdge src dst ty T db of (r, T', db') \<Rightarrow> progress i A db T' db'"
proof -
  define db0 where "db0 = calls [Async_TrackEdgeType ty] db"
  have p0: "progress i A db T db0"
    unfolding db0_def by (rule progress_tx[OF ok T]) simp_all
  have ok0: "db_ok A db0"
    using progress_db_ok[OF ok T p0] T by (simp add: map_upd_triv)
  have s0: "sequential_end db0 T (va_vertex src)" "sequential_end db0 T (va_vertex dst)"
    using s by (simp_all add: sequential_end_def db0_def split: option.splits)
  obtain r T' db' where r: "create_edge_with src dst ty db_edge_id (\<lambda>db. db\<lparr>db_edge_id := db_edge_id db + 1\<rparr>) T db0 = (r, T', db')"
    by (cases "create_edge_with src dst ty db_edge_id (\<lambda>db. db\<lparr>db_edge_id := db_edge_id db + 1\<rparr>) T db0")
  have "progress i A db0 T' db'"
  proof (cases rule: prepare_edge_end_cases[OF ok0 s0(1)])
    case (1 e b)
    then show ?thesis
      using r progress_error[OF ok0 T] by (auto simp: create_edge_with_def bind_act_def)
  next
    case (2 v st)
    show ?thesis
    proof (cases "va_vertex dst = va_vertex src")
      case True
      show ?thesis
        by (rule create_edge_rest_progress[OF ok0 T refl 2(2,3,5,4) 2(2,3,5,4)])
           (use r 2(1) True in \<open>simp add: create_edge_with_def bind_act_def ret_def get_db_def\<close>)
    next
      case False
      show ?thesis
      proof (cases rule: prepare_edge_end_cases[OF ok0 s0(2)])
        case (1 e b)
        then show ?thesis
          using r 2(1) False progress_error[OF ok0 T] by (auto simp: create_edge_with_def bind_act_def)
      next
        case inner: (2 u us)
        show ?thesis
          by (rule create_edge_rest_progress[OF ok0 T refl 2(2,3,5,4) inner(2,3,5,4)])
             (use r 2(1) inner(1) False in \<open>simp add: create_edge_with_def bind_act_def ret_def get_db_def\<close>)
      qed
    qed
  qed
  then show ?thesis
    using progress_trans[OF p0] r T by (simp add: CreateEdge_def bind_act_def record_calls_def modify_db_def db0_def map_upd_triv)
qed

end
