(* ===== verification/Rollback.thy ===== *)
theory Rollback
  imports EdgeSteps
begin

text \<open>
  The abort of a transaction is the abort step of the multi-version machine: the blocks of its deltas at the
  head of the chains are undone and cut, and the objects it created are removed.  The code undoes each
  block when it meets its newest delta in the list of the transaction, and collects the removals of
  edges to do them in bulk.
\<close>

section \<open>Bulk removal from an edge vector\<close>

text \<open>The vector \<open>es\<close> with the pending removals \<open>R\<close> stands for the set \<open>a\<close>, with the deltas \<open>ds\<close> still to undo.\<close>

definition pending :: "(delta_op \<Rightarrow> edge_entry option) \<Rightarrow> edge_entry set \<Rightarrow> edge_entry list \<Rightarrow> edge_ref list \<Rightarrow> delta list \<Rightarrow> edge_entry set \<Rightarrow> bool" where
  "pending entry E es R ds a \<longleftrightarrow> distinct es \<and> set es \<subseteq> E \<and> inj_on (snd \<circ> snd) E \<and> a = {x \<in> set es. snd (snd x) \<notin> set R} \<and>
    (\<forall>e \<in> set R. \<exists>x \<in> E. snd (snd x) = e \<and> (\<forall>d \<in> set ds. entry (d_op d) \<noteq> Some x)) \<and>
    (\<forall>d \<in> set ds. \<forall>x. entry (d_op d) = Some x \<longrightarrow> x \<in> E) \<and>
    sorted_wrt (\<lambda>d d'. \<forall>x. creates_entry entry (d_op d) = Some x \<longrightarrow> entry (d_op d') \<noteq> Some x) ds"

lemma pending_start:
  assumes "vector_ok entry n es (ds @ rest)" and "distinct es"
  shows "pending entry (all_entries entry es (ds @ rest)) es [] ds (set es)"
  using assms by (auto simp: pending_def vector_ok_def all_entries_def sorted_wrt_append)

lemma pending_skip: "pending entry E es R (d # ds) a \<Longrightarrow> pending entry E es R ds a"
  unfolding pending_def by auto

lemma pending_fresh:
  assumes "pending entry E es R (d # ds) a" and "entry (d_op d) = Some x"
  shows "snd (snd x) \<notin> set R"
proof
  assume "snd (snd x) \<in> set R"
  then obtain y where y: "y \<in> E" "snd (snd y) = snd (snd x)" "entry (d_op d) \<noteq> Some y"
    using assms(1) by (auto simp: pending_def)
  moreover have "x \<in> E" "inj_on (snd \<circ> snd) E"
    using assms by (simp_all add: pending_def del: split_paired_All)
  ultimately show False
    using assms(2) inj_onD[of "snd \<circ> snd" E y x] by simp
qed

lemma pending_add:
  assumes "pending entry E es R (d # ds) a" and "entry (d_op d) = Some x" and "x \<notin> a"
  shows "x \<notin> set es" and "pending entry E (es @ [x]) R ds (insert x a)"
proof -
  have R: "snd (snd x) \<notin> set R"
    by (rule pending_fresh[OF assms(1,2)])
  then show x: "x \<notin> set es"
    using assms by (auto simp: pending_def)
  have "x \<in> E"
    using assms by (simp add: pending_def del: split_paired_All)
  then show "pending entry E (es @ [x]) R ds (insert x a)"
    using assms R x unfolding pending_def by auto
qed

lemma pending_remove:
  assumes p: "pending entry E es R (d # ds) a" and x: "entry (d_op d) = Some x" "CanBeNonSequential (d_op d)"
  shows "pending entry E es (set_insert (snd (snd x)) R) ds (a - {x})"
proof -
  have "x \<in> E" "inj_on (snd \<circ> snd) E" "set es \<subseteq> E"
    using p x(1) by (simp_all add: pending_def del: split_paired_All)
  then have "y = x" if "y \<in> set es" "snd (snd y) = snd (snd x)" for y
    using that inj_onD[of "snd \<circ> snd" E y x] by auto
  then have "{y \<in> set es. snd (snd y) \<notin> set (set_insert (snd (snd x)) R)} = a - {x}"
    using p by (auto simp: pending_def set_insert_def)
  moreover have "\<forall>d' \<in> set ds. entry (d_op d') \<noteq> Some x"
    using p x by (simp add: pending_def creates_entry_def del: split_paired_All)
  ultimately show ?thesis
    using p \<open>x \<in> E\<close> unfolding pending_def by (auto simp: set_insert_def)
qed

lemma pending_end:
  assumes "pending entry E es R [] a"
  shows "set (remove_edges R es) = a" "distinct (remove_edges R es)"
  using assms by (auto simp: pending_def remove_edges_def case_prod_unfold)

lemma vector_ok_subset:
  assumes "vector_ok entry n es (ds @ rest)" and "set es' \<subseteq> all_entries entry es (ds @ rest)"
  shows "vector_ok entry n es' rest"
proof -
  have sub: "all_entries entry es' rest \<subseteq> all_entries entry es (ds @ rest)"
    using assms(2) by (auto simp: all_entries_def)
  then show ?thesis
    using assms(1) inj_on_subset[OF _ sub] by (auto simp: vector_ok_def sorted_wrt_append)
qed

section \<open>Undoing a block of deltas\<close>

text \<open>The bookkeeping of an abort leaves the objects, the heap and the counters alone.\<close>

definition quiet :: "db \<Rightarrow> db \<Rightarrow> bool" where
  "quiet db db' \<longleftrightarrow> frame db db' \<and> db_vertices db' = db_vertices db \<and> db_edges db' = db_edges db \<and> db_heap db' = db_heap db"

lemma quiet_refl [simp]: "quiet db db"
  by (simp add: quiet_def)

lemma quiet_trans: "quiet db db' \<Longrightarrow> quiet db' db'' \<Longrightarrow> quiet db db''"
  by (auto simp: quiet_def intro: frame_trans)

lemma quiet_simps [simp]:
  "quiet db (call c db') = quiet db db'" "quiet db (calls cs db') = quiet db db'" "quiet db (UpdateLabelCount l k db') = quiet db db'"
  "quiet db (add_edge_count n db') = quiet db db'"
  by (simp_all add: quiet_def add_edge_count_def)

lemma quiet_fold: "quiet db db' \<Longrightarrow> quiet db (fold (\<lambda>l. UpdateLabelCount l k) ls db')"
  by (induction ls arbitrary: db') simp_all

lemma undo_edge_loop:
  assumes "\<forall>d \<in> set ds. edge_op (d_op d)" and "props_ok (e_properties x)"
  shows "\<exists>x' st'. apply_all undo_edge_delta ds (x, st) = Inr (x', st') \<and> e_gid x' = e_gid x \<and> props_ok (e_properties x') \<and>
    ((\<forall>d \<in> set ds. \<not> creation (d_op d)) \<longrightarrow> abs_edge x' = undo_all ds (abs_edge x)) \<and>
    set (ab_deleted_edges st') = set (ab_deleted_edges st) \<union> (if \<exists>d \<in> set ds. creation (d_op d) then {e_gid x} else {}) \<and>
    ab_deleted_vertices st' = ab_deleted_vertices st \<and> quiet (ab_db st) (ab_db st')"
  using assms
proof (induction ds arbitrary: x st)
  case (Cons d ds)
  obtain x1 st1 where s: "undo_edge_delta d (x, st) = Inr (x1, st1)" "e_gid x1 = e_gid x" "props_ok (e_properties x1)"
    "\<not> creation (d_op d) \<longrightarrow> abs_edge x1 = aundo (d_op d) (abs_edge x)"
    "set (ab_deleted_edges st1) = set (ab_deleted_edges st) \<union> (if creation (d_op d) then {e_gid x} else {})"
    "ab_deleted_vertices st1 = ab_deleted_vertices st" "quiet (ab_db st) (ab_db st1)"
    using Cons.prems by (cases "d_op d")
      (auto simp: undo_edge_delta_def edge_op_def creation_def aundo_def abs_edge_def ps.get_put fun_eq_iff intro: props_ok_set_prop)
  obtain x' st' where r: "apply_all undo_edge_delta ds (x1, st1) = Inr (x', st')" "e_gid x' = e_gid x1" "props_ok (e_properties x')"
    "(\<forall>d \<in> set ds. \<not> creation (d_op d)) \<longrightarrow> abs_edge x' = undo_all ds (abs_edge x1)"
    "set (ab_deleted_edges st') = set (ab_deleted_edges st1) \<union> (if \<exists>d \<in> set ds. creation (d_op d) then {e_gid x1} else {})"
    "ab_deleted_vertices st' = ab_deleted_vertices st1" "quiet (ab_db st1) (ab_db st')"
    using Cons.IH[OF _ s(3), of st1] Cons.prems(1) by auto
  show ?case
    using s r quiet_trans[OF s(7) r(7)] by (intro exI[of _ x'] exI[of _ st']) auto
qed simp

text \<open>A vertex in the middle of its undoing, with the deltas \<open>ds\<close> to come, and the version it stands for.\<close>

definition undoing :: "vertex \<Rightarrow> edge_entry set \<Rightarrow> edge_entry set \<Rightarrow> delta list \<Rightarrow> aversion \<Rightarrow> undo_state \<Rightarrow> bool" where
  "undoing v I J ds a s \<longleftrightarrow> v_gid (us_vertex s) = v_gid v \<and>
    v_has_uncommitted_non_sequential_deltas (us_vertex s) = v_has_uncommitted_non_sequential_deltas v \<and>
    distinct (v_labels (us_vertex s)) \<and> a_labels a = set (v_labels (us_vertex s)) \<and>
    props_ok (v_properties (us_vertex s)) \<and> a_props a = (\<lambda>p. GetProperty p (v_properties (us_vertex s))) \<and>
    pending in_entry I (v_in_edges (us_vertex s)) (us_remove_in s) ds (a_in a) \<and>
    pending out_entry J (v_out_edges (us_vertex s)) (us_remove_out s) ds (a_out a)"

definition undone_by :: "delta list \<Rightarrow> aversion \<Rightarrow> undo_state \<Rightarrow> aversion \<Rightarrow> undo_state \<Rightarrow> bool" where
  "undone_by ds a s a' s' \<longleftrightarrow>
    ((\<forall>d \<in> set ds. \<not> creation (d_op d)) \<longrightarrow> a_deleted a = v_deleted (us_vertex s) \<longrightarrow> a_deleted a' = v_deleted (us_vertex s')) \<and>
    set (ab_deleted_vertices (us_abort s')) = set (ab_deleted_vertices (us_abort s)) \<union>
      (if \<exists>d \<in> set ds. creation (d_op d) then {v_gid (us_vertex s)} else {}) \<and>
    ab_deleted_edges (us_abort s') = ab_deleted_edges (us_abort s) \<and> quiet (ab_db (us_abort s)) (ab_db (us_abort s'))"

lemma on_db_simps [simp]:
  "us_vertex (on_db f s) = us_vertex s" "us_remove_in (on_db f s) = us_remove_in s" "us_remove_out (on_db f s) = us_remove_out s"
  "ab_db (us_abort (on_db f s)) = f (ab_db (us_abort s))" "ab_deleted_vertices (us_abort (on_db f s)) = ab_deleted_vertices (us_abort s)"
  "ab_deleted_edges (us_abort (on_db f s)) = ab_deleted_edges (us_abort s)"
  by (simp_all add: on_db_def)

lemma undo_vertex_delta_step:
  assumes u: "undoing v I J (d # ds) a s" and ok: "undoable (d_op d) a"
  shows "\<exists>s'. undo_vertex_delta d s = Inr s' \<and> undoing v I J ds (aundo (d_op d) a) s' \<and> undone_by [d] a s (aundo (d_op d) a) s'"
proof -
  have p: "pending in_entry I (v_in_edges (us_vertex s)) (us_remove_in s) (d # ds) (a_in a)"
    "pending out_entry J (v_out_edges (us_vertex s)) (us_remove_out s) (d # ds) (a_out a)"
    using u by (simp_all add: undoing_def)
  note skip = pending_skip[OF p(1)] pending_skip[OF p(2)]
  note base = u[unfolded undoing_def]
  show ?thesis
  proof (cases "d_op d")
    case (REMOVE_LABEL l)
    then obtain ls where ls: "swap_remove l (v_labels (us_vertex s)) = Some ls"
      using ok base swap_remove_None_iff[of l "v_labels (us_vertex s)"] by (cases "swap_remove l (v_labels (us_vertex s))") (auto simp: undoable_def)
    then show ?thesis
      using REMOVE_LABEL base skip swap_remove_distinct[OF ls]
      by (simp add: undo_vertex_delta_def undoing_def undone_by_def aundo_def creation_def Let_def)
  next
    case (ADD_LABEL l)
    then show ?thesis
      using ok base skip by (auto simp: undo_vertex_delta_def undoing_def undone_by_def aundo_def undoable_def creation_def Let_def)
  next
    case (SET_PROPERTY q w o')
    then show ?thesis
      using base skip
      by (simp add: undo_vertex_delta_def undoing_def undone_by_def aundo_def creation_def ps.get_put props_ok_set_prop fun_eq_iff Let_def)
  next
    case (ADD_IN_EDGE t w e st)
    then show ?thesis
      using ok base skip pending_add[OF p(1), of "(t, w, e)"]
      by (simp add: undo_vertex_delta_def undoing_def undone_by_def aundo_def creation_def undoable_def in_entry_def Let_def)
  next
    case (ADD_OUT_EDGE t w e st)
    then show ?thesis
      using ok base skip pending_add[OF p(2), of "(t, w, e)"]
      by (simp add: undo_vertex_delta_def undoing_def undone_by_def aundo_def creation_def undoable_def out_entry_def Let_def)
  next
    case (REMOVE_IN_EDGE t w e st)
    then show ?thesis
      using base skip pending_remove[OF p(1), of "(t, w, e)"]
      by (simp add: undo_vertex_delta_def undoing_def undone_by_def aundo_def creation_def in_entry_def CanBeNonSequential_def Let_def)
  next
    case (REMOVE_OUT_EDGE t w e st)
    then show ?thesis
      using base skip pending_remove[OF p(2), of "(t, w, e)"]
      by (simp add: undo_vertex_delta_def undoing_def undone_by_def aundo_def creation_def out_entry_def CanBeNonSequential_def Let_def)
  qed (use base skip in \<open>simp_all add: undo_vertex_delta_def undoing_def undone_by_def aundo_def creation_def quiet_fold Let_def\<close>)
qed

lemma undo_vertex_loop:
  assumes "undoing v I J ds a s" and "undoable_all ds a"
  shows "\<exists>s'. apply_all undo_vertex_delta ds s = Inr s' \<and> undoing v I J [] (undo_all ds a) s' \<and> undone_by ds a s (undo_all ds a) s'"
  using assms
proof (induction ds arbitrary: a s)
  case Nil
  then show ?case
    by (simp add: undone_by_def)
next
  case (Cons d ds)
  obtain s1 where s1: "undo_vertex_delta d s = Inr s1" "undoing v I J ds (aundo (d_op d) a) s1" "undone_by [d] a s (aundo (d_op d) a) s1"
    using undo_vertex_delta_step[OF Cons.prems(1)] Cons.prems(2) by auto
  obtain s' where s': "apply_all undo_vertex_delta ds s1 = Inr s'" "undoing v I J [] (undo_all ds (aundo (d_op d) a)) s'"
    "undone_by ds (aundo (d_op d) a) s1 (undo_all ds (aundo (d_op d) a)) s'"
    using Cons.IH[OF s1(2)] Cons.prems(2) by auto
  have "v_gid (us_vertex s1) = v_gid (us_vertex s)"
    using s1(2) Cons.prems(1) by (simp add: undoing_def)
  then have "undone_by (d # ds) a s (undo_all ds (aundo (d_op d) a)) s'"
    using s1(3) s'(3) quiet_trans[of "ab_db (us_abort s)" "ab_db (us_abort s1)" "ab_db (us_abort s')"] by (auto simp: undone_by_def)
  then show ?case
    using s1(1) s'(1,2) by auto
qed

section \<open>Blocks of own deltas\<close>

lemma own_delta_iff:
  assumes "txs_ok A h now n" and "chain_ok A h now ds" and "A i = Some T" and "d \<in> set ds"
  shows "own_delta h i d \<longleftrightarrow> d_commit_info d = i"
proof -
  have d: "delta_ok A h now d" and T: "tx_ok h now n i T" and now: "now \<le> kTransactionInitialId"
    using assms by (auto simp: chain_ok_def txs_ok_def)
  show ?thesis
  proof (cases "A (d_commit_info d)")
    case None
    then show ?thesis
      using d T now assms(3) by (auto simp: own_delta_def delta_ok_def tx_ok_def)
  next
    case (Some U)
    then show ?thesis
      using ts_active[OF assms(1) d Some] by (simp add: own_delta_def)
  qed
qed

lemma own_blocks:
  assumes "txs_ok A h now n" and "chain_ok A h now ds" and "A i = Some T"
  shows "takeWhile (own_delta h i) ds = own_block i ds" "dropWhile (own_delta h i) ds = below_block i ds"
proof -
  show t: "takeWhile (own_delta h i) ds = own_block i ds"
    unfolding own_block_def using own_delta_iff[OF assms] by (intro takeWhile_eq) simp
  have "takeWhile (own_delta h i) ds @ dropWhile (own_delta h i) ds = own_block i ds @ below_block i ds"
    by (simp add: block_split)
  then show "dropWhile (own_delta h i) ds = below_block i ds"
    unfolding t by (simp add: own_block_def)
qed

lemma prev_in_object: "prev_in uid Prev_object ds = Prev_object \<longleftrightarrow> ds \<noteq> [] \<and> d_uid (hd ds) = uid"
proof -
  have "prev_in uid (Prev_delta d) es \<noteq> Prev_object" for d es
    by (induction es arbitrary: d) auto
  then show ?thesis
    by (cases ds) auto
qed

lemma prev_in_delta:
  assumes "prev_in uid p ds = Prev_delta d"
  shows "p = Prev_delta d \<and> ds \<noteq> [] \<and> d_uid (hd ds) = uid \<or>
    (\<exists>xs e ys. ds = xs @ d # e # ys \<and> d_uid e = uid \<and> (\<forall>x \<in> insert d (set xs). d_uid x \<noteq> uid))"
  using assms
proof (induction ds arbitrary: p)
  case (Cons c ds)
  show ?case
  proof (cases "d_uid c = uid")
    case False
    then consider "c = d" "ds \<noteq> []" "d_uid (hd ds) = uid"
      | xs e ys where "ds = xs @ d # e # ys" "d_uid e = uid" "\<forall>x \<in> insert d (set xs). d_uid x \<noteq> uid"
      using Cons.IH[of "Prev_delta c"] Cons.prems by auto
    then show ?thesis
    proof cases
      case 1
      then have "c # ds = [] @ d # hd ds # tl ds"
        by simp
      then show ?thesis
        using 1 False by fastforce
    next
      case 2
      then have "c # ds = (c # xs) @ d # e # ys"
        by simp
      then show ?thesis
        using 2 False by (metis insert_iff list.set(2))
    qed
  qed (use Cons.prems in simp)
qed simp

text \<open>A delta below a delta of another transaction is not an own one, so nothing is undone from there.\<close>

lemma no_block_below:
  assumes "txs_ok A h now n" and ds: "chain_ok A h now ds" and T: "A i = Some T"
    and d: "prev_in uid Prev_object ds = Prev_delta d" "ts h d \<noteq> i"
  shows "takeWhile (own_delta h i) (dropWhile (\<lambda>d. d_uid d \<noteq> uid) ds) = []"
proof -
  obtain xs e ys where s: "ds = xs @ d # e # ys" "d_uid e = uid" "\<forall>x \<in> insert d (set xs). d_uid x \<noteq> uid"
    using prev_in_delta[OF d(1)] by auto
  have "\<not> own_delta h i d"
    using d(2) by (simp add: own_delta_def)
  then have "d_commit_info d \<noteq> i"
    using own_delta_iff[OF assms(1-3), of d] s(1) by simp
  moreover have "over A h d e"
    using ds s(1) by (auto simp: chain_ok_def sorted_wrt_append)
  ultimately have "\<not> own_delta h i e"
    using own_delta_iff[OF assms(1-3), of e] T s(1) by (auto simp: over_def)
  moreover have "dropWhile (\<lambda>d. d_uid d \<noteq> uid) ds = e # ys"
    using s by (simp add: dropWhile_append)
  ultimately show ?thesis
    by simp
qed

section \<open>The pass over the edges\<close>

definition created :: "nat \<Rightarrow> delta list \<Rightarrow> bool" where
  "created i ds \<longleftrightarrow> (\<exists>d \<in> set (own_block i ds). creation (d_op d))"

definition edge_aborted :: "nat \<Rightarrow> gid \<Rightarrow> edge \<Rightarrow> edge \<Rightarrow> bool" where
  "edge_aborted i e x x' \<longleftrightarrow> edge_ok e x' \<and> e_deltas x' = below_block i (e_deltas x) \<and>
    (\<not> created i (e_deltas x) \<longrightarrow> abs_edge x' = undo_all (own_block i (e_deltas x)) (abs_edge x))"

definition edges_aborted :: "nat \<Rightarrow> db \<Rightarrow> gid set \<Rightarrow> abort_state \<Rightarrow> bool" where
  "edges_aborted i db S st \<longleftrightarrow> frame db (ab_db st) \<and> db_heap (ab_db st) = db_heap db \<and> db_vertices (ab_db st) = db_vertices db \<and>
    (\<forall>e. e \<notin> S \<longrightarrow> db_edges (ab_db st) e = db_edges db e) \<and>
    (\<forall>e \<in> S. \<exists>x x'. db_edges db e = Some x \<and> db_edges (ab_db st) e = Some x' \<and> edge_aborted i e x x') \<and>
    set (ab_deleted_edges st) = {e \<in> S. \<exists>x. db_edges db e = Some x \<and> created i (e_deltas x)} \<and> ab_deleted_vertices st = []"

definition edge_hit :: "db \<Rightarrow> delta_owner \<times> nat \<Rightarrow> gid set" where
  "edge_hit db od = {e. \<exists>x d ds. od = (Owner_edge e, d_uid d) \<and> db_edges db e = Some x \<and> e_deltas x = d # ds}"

lemma abort_edge_step:
  assumes ok: "db_ok A db" and T: "A i = Some T" and inv: "edges_aborted i db S st"
  shows "\<exists>S' st'. abort_edge i od st = Inr st' \<and> edges_aborted i db S' st' \<and> S \<subseteq> S' \<and> edge_hit db od \<subseteq> S'"
proof -
  obtain o' uid where od: "od = (o', uid)"
    by (cases od)
  have keep: ?thesis if "abort_edge i od st = Inr st"
    "\<And>e x d ds. od = (Owner_edge e, d_uid d) \<Longrightarrow> db_edges db e = Some x \<Longrightarrow> e_deltas x = d # ds \<Longrightarrow> e \<in> S"
    using that inv by (intro exI[of _ S] exI[of _ st]) (auto simp: edge_hit_def)
  have txs: "txs_ok A (db_heap db) (db_timestamp db) (db_transaction_id db)"
    using ok mv_invD(1)[of "mv_of A db"] by (simp add: db_ok_def)
  have heap: "db_heap (ab_db st) = db_heap db"
    using inv by (simp add: edges_aborted_def)
  show ?thesis
  proof (cases o')
    case (Owner_vertex g)
    then show ?thesis
      using od by (intro keep) (simp_all add: abort_edge_def)
  next
    case (Owner_edge e)
    show ?thesis
    proof (cases "e \<in> S")
      case True
      then obtain x x' where x: "db_edges db e = Some x" "db_edges (ab_db st) e = Some x'" "edge_aborted i e x x'"
        using inv by (auto simp: edges_aborted_def)
      have chain: "chain_ok A (db_heap db) (db_timestamp db) (e_deltas x)"
        by (rule db_ok_edge_chain(1)[OF ok x(1)])
      have "\<not> own_delta (db_heap db) i d" if "d \<in> set (below_block i (e_deltas x))" for d
        using own_delta_iff[OF txs chain T, of d] below_block_other[OF chain T that] that set_dropWhileD[of d] by (auto simp: below_block_def)
      moreover have bl: "e_deltas x' = below_block i (e_deltas x)"
        using x(3) by (simp add: edge_aborted_def)
      ultimately have none: "takeWhile (own_delta (db_heap db) i) (e_deltas x') = []" "dropWhile (own_delta (db_heap db) i) (e_deltas x') = e_deltas x'"
        unfolding bl by (cases "below_block i (e_deltas x)"; simp)+
      have "put_edge (x'\<lparr>e_deltas := e_deltas x'\<rparr>) (ab_db st) = ab_db st"
        using x(2,3) by (simp add: put_edge_def fun_upd_idem edge_aborted_def edge_ok_def)
      then have "abort_edge i od st = Inr st"
        using od Owner_edge x(2) none heap by (simp add: abort_edge_def Let_def)
      then show ?thesis
        by (rule keep) (use od Owner_edge True in simp)
    next
      case False
      then have same: "db_edges (ab_db st) e = db_edges db e"
        using inv by (simp add: edges_aborted_def)
      show ?thesis
      proof (cases "\<exists>x ds d. db_edges db e = Some x \<and> e_deltas x = d # ds \<and> d_uid d = uid")
        case nohead: False
        then have "prev_in uid Prev_object (e_deltas x) \<noteq> Prev_object" if "db_edges db e = Some x" for x
          using that unfolding prev_in_object by (cases "e_deltas x") auto
        then have "abort_edge i od st = Inr st"
          using od Owner_edge same by (simp add: abort_edge_def split: option.splits)
        then show ?thesis
          by (rule keep) (use od Owner_edge nohead in auto)
      next
        case head: True
        then obtain x where x: "db_edges db e = Some x" "prev_in uid Prev_object (e_deltas x) = Prev_object"
          unfolding prev_in_object by auto
        have eok: "edge_ok e x"
          using ok x(1) by (simp add: db_ok_def store_ok_def)
        note blocks = own_blocks[OF txs db_ok_edge_chain(1)[OF ok x(1)] T]
        obtain x1 st1 where l: "apply_all undo_edge_delta (own_block i (e_deltas x)) (x, st) = Inr (x1, st1)" "e_gid x1 = e_gid x"
          "props_ok (e_properties x1)" "\<not> created i (e_deltas x) \<longrightarrow> abs_edge x1 = undo_all (own_block i (e_deltas x)) (abs_edge x)"
          "set (ab_deleted_edges st1) = set (ab_deleted_edges st) \<union> (if created i (e_deltas x) then {e_gid x} else {})"
          "ab_deleted_vertices st1 = ab_deleted_vertices st" "quiet (ab_db st) (ab_db st1)"
          using undo_edge_loop[of "own_block i (e_deltas x)" x st] eok own_blockD[of _ i "e_deltas x"] by (auto simp: edge_ok_def created_def)
        let ?x = "x1\<lparr>e_deltas := below_block i (e_deltas x)\<rparr>"
        let ?st = "st1\<lparr>ab_db := put_edge ?x (ab_db st1)\<rparr>"
        have r: "abort_edge i od st = Inr ?st"
          using od Owner_edge same x heap l(1) blocks by (simp add: abort_edge_def Let_def)
        have "edge_aborted i e x ?x"
          using l(2-4) eok set_dropWhileD[of _ "\<lambda>d. d_commit_info d = i" "e_deltas x"]
          by (auto simp: edge_aborted_def edge_ok_def abs_edge_def below_block_def)
        then have "edges_aborted i db (insert e S) ?st"
          using inv l eok x(1) False by (auto simp: edges_aborted_def quiet_def frame_def edge_ok_def)
        then show ?thesis
          using r od Owner_edge by (intro exI[of _ "insert e S"] exI[of _ ?st]) (auto simp: edge_hit_def)
      qed
    qed
  qed
qed

section \<open>The pass over the vertices\<close>

definition vertex_aborted :: "nat \<Rightarrow> nat \<Rightarrow> gid \<Rightarrow> vertex \<Rightarrow> vertex \<Rightarrow> bool" where
  "vertex_aborted i n g v v' \<longleftrightarrow> vertex_ok n g v' \<and> v_deltas v' = below_block i (v_deltas v) \<and>
    (\<not> created i (v_deltas v) \<longrightarrow> abs_vertex v' = undo_all (own_block i (v_deltas v)) (abs_vertex v))"

definition vertices_aborted :: "nat \<Rightarrow> db \<Rightarrow> db \<Rightarrow> gid list \<Rightarrow> gid set \<Rightarrow> abort_state \<Rightarrow> bool" where
  "vertices_aborted i db db1 es S st \<longleftrightarrow> frame db (ab_db st) \<and> db_heap (ab_db st) = db_heap db \<and> db_edges (ab_db st) = db_edges db1 \<and>
    (\<forall>g. g \<notin> S \<longrightarrow> db_vertices (ab_db st) g = db_vertices db g) \<and>
    (\<forall>g \<in> S. \<exists>v v'. db_vertices db g = Some v \<and> db_vertices (ab_db st) g = Some v' \<and> vertex_aborted i (db_edge_id db) g v v') \<and>
    set (ab_deleted_vertices st) = {g \<in> S. \<exists>v. db_vertices db g = Some v \<and> created i (v_deltas v)} \<and> ab_deleted_edges st = es"

lemma takeWhile_none: "\<forall>x \<in> set xs. \<not> P x \<Longrightarrow> takeWhile P xs = []"
  by (cases xs) simp_all

lemma process_no_block:
  assumes "takeWhile (own_delta (db_heap (ab_db st)) i) (dropWhile (\<lambda>d. d_uid d \<noteq> uid) (v_deltas v)) = []"
    and "db_vertices (ab_db st) (v_gid v) = Some v" and "\<not> v_has_uncommitted_non_sequential_deltas v"
  shows "process_vertex_deltas i uid v st = Inr st"
proof -
  have "dropWhile (own_delta (db_heap (ab_db st)) i) (dropWhile (\<lambda>d. d_uid d \<noteq> uid) (v_deltas v)) = dropWhile (\<lambda>d. d_uid d \<noteq> uid) (v_deltas v)"
    using takeWhile_dropWhile_id[of "own_delta (db_heap (ab_db st)) i" "dropWhile (\<lambda>d. d_uid d \<noteq> uid) (v_deltas v)"] assms(1) by simp
  moreover have "remove_edges [] es = es" for es
    by (simp add: remove_edges_def case_prod_unfold)
  ultimately show ?thesis
    using assms put_vertex_same[of "ab_db st" v] by (simp add: process_vertex_deltas_def refresh_flag_def Let_def)
qed

lemma process_own_block:
  assumes txs: "txs_ok A h now n" and chain: "chain_ok A h now (v_deltas v)" and T: "A i = Some T" and v: "vertex_ok k g v"
    and undo: "undoable_all (v_deltas v) (abs_vertex v)" and head: "v_deltas v = d # ds" "d_uid d = uid" and h: "db_heap (ab_db st) = h"
  shows "\<exists>v' st'. process_vertex_deltas i uid v st = Inr (st'\<lparr>ab_db := put_vertex v' (ab_db st')\<rparr>) \<and> vertex_aborted i k g v v' \<and>
    quiet (ab_db st) (ab_db st') \<and> ab_deleted_edges st' = ab_deleted_edges st \<and>
    set (ab_deleted_vertices st') = set (ab_deleted_vertices st) \<union> (if created i (v_deltas v) then {g} else {})"
proof -
  let ?b = "own_block i (v_deltas v)" and ?r = "below_block i (v_deltas v)"
  let ?I = "all_entries in_entry (v_in_edges v) (v_deltas v)" and ?J = "all_entries out_entry (v_out_edges v) (v_deltas v)"
  let ?s = "\<lparr>us_vertex = v, us_remove_in = [], us_remove_out = [], us_abort = st\<rparr>"
  note blocks = own_blocks[OF txs chain T]
  have vecs: "vector_ok in_entry k (v_in_edges v) (?b @ ?r)" "vector_ok out_entry k (v_out_edges v) (?b @ ?r)"
    using v by (simp_all add: vertex_ok_def block_split)
  have wf: "vertex_wf v" "v_gid v = g" "\<not> v_has_uncommitted_non_sequential_deltas v"
    using v by (simp_all add: vertex_ok_def)
  have "undoing v ?I ?J ?b (abs_vertex v) ?s"
    using wf pending_start[OF vecs(1)] pending_start[OF vecs(2)] by (simp add: undoing_def vertex_wf_def abs_vertex_def block_split)
  moreover have "undoable_all ?b (abs_vertex v)"
    using undo undoable_all_append[of ?b ?r "abs_vertex v"] by (simp add: block_split)
  ultimately obtain s' where s': "apply_all undo_vertex_delta ?b ?s = Inr s'" "undoing v ?I ?J [] (undo_all ?b (abs_vertex v)) s'"
    "undone_by ?b (abs_vertex v) ?s (undo_all ?b (abs_vertex v)) s'"
    using undo_vertex_loop by blast
  let ?v = "(us_vertex s')\<lparr>v_in_edges := remove_edges (us_remove_in s') (v_in_edges (us_vertex s')),
      v_out_edges := remove_edges (us_remove_out s') (v_out_edges (us_vertex s')), v_deltas := ?r\<rparr>"
  note u = s'(2)[unfolded undoing_def]
  have pin: "pending in_entry ?I (v_in_edges (us_vertex s')) (us_remove_in s') [] (a_in (undo_all ?b (abs_vertex v)))"
    and pout: "pending out_entry ?J (v_out_edges (us_vertex s')) (us_remove_out s') [] (a_out (undo_all ?b (abs_vertex v)))"
    using u by auto
  have sub: "set (remove_edges (us_remove_in s') (v_in_edges (us_vertex s'))) \<subseteq> all_entries in_entry (v_in_edges v) (?b @ ?r)"
    "set (remove_edges (us_remove_out s') (v_out_edges (us_vertex s'))) \<subseteq> all_entries out_entry (v_out_edges v) (?b @ ?r)"
    using pin pout by (auto simp: pending_def remove_edges_def block_split)
  have "vertex_ok k g ?v"
    using u wf pending_end[OF pin] pending_end[OF pout] vector_ok_subset[OF vecs(1) sub(1)] vector_ok_subset[OF vecs(2) sub(2)]
    by (simp add: vertex_ok_def vertex_wf_def)
  moreover have "abs_vertex ?v = undo_all ?b (abs_vertex v)" if "\<not> created i (v_deltas v)"
  proof -
    have "a_exists (undo_all ?b (abs_vertex v))" "a_deleted (undo_all ?b (abs_vertex v)) = v_deleted (us_vertex s')"
      using that s'(3) by (simp_all add: a_exists_undo_all created_def undone_by_def abs_vertex_def)
    then show ?thesis
      using u pending_end[OF pin] pending_end[OF pout] by (simp add: abs_vertex_def)
  qed
  ultimately have ab: "vertex_aborted i k g v ?v"
    by (simp add: vertex_aborted_def)
  have "takeWhile (\<lambda>d. d_uid d \<noteq> uid) (v_deltas v) = []" "dropWhile (\<lambda>d. d_uid d \<noteq> uid) (v_deltas v) = v_deltas v"
    using head by simp_all
  then have "process_vertex_deltas i uid v st = Inr ((us_abort s')\<lparr>ab_db := put_vertex (refresh_flag i h ?v) (ab_db (us_abort s'))\<rparr>)"
    using s'(1) h blocks by (simp add: process_vertex_deltas_def Let_def)
  moreover have "refresh_flag i h ?v = ?v"
    using u wf(3) by (simp add: refresh_flag_def)
  ultimately show ?thesis
    using ab s'(3) wf(2) by (intro exI[of _ ?v] exI[of _ "us_abort s'"]) (auto simp: undone_by_def created_def)
qed

definition vertex_hit :: "db \<Rightarrow> delta_owner \<times> nat \<Rightarrow> gid set" where
  "vertex_hit db od = {g. \<exists>v d ds. od = (Owner_vertex g, d_uid d) \<and> db_vertices db g = Some v \<and> v_deltas v = d # ds}"

lemma abort_vertex_step:
  assumes ok: "db_ok A db" and T: "A i = Some T" and inv: "vertices_aborted i db db1 es S st"
  shows "\<exists>S' st'. abort_vertex i od st = Inr st' \<and> vertices_aborted i db db1 es S' st' \<and> S \<subseteq> S' \<and> vertex_hit db od \<subseteq> S'"
proof -
  obtain o' uid where od: "od = (o', uid)"
    by (cases od)
  have keep: ?thesis if "abort_vertex i od st = Inr st"
    "\<And>g v d ds. od = (Owner_vertex g, d_uid d) \<Longrightarrow> db_vertices db g = Some v \<Longrightarrow> v_deltas v = d # ds \<Longrightarrow> g \<in> S"
    using that inv by (intro exI[of _ S] exI[of _ st]) (auto simp: vertex_hit_def)
  have txs: "txs_ok A (db_heap db) (db_timestamp db) (db_transaction_id db)"
    using ok mv_invD(1)[of "mv_of A db"] by (simp add: db_ok_def)
  have heap: "db_heap (ab_db st) = db_heap db"
    using inv by (simp add: vertices_aborted_def)
  show ?thesis
  proof (cases o')
    case (Owner_edge e)
    then show ?thesis
      using od by (intro keep) (simp_all add: abort_vertex_def)
  next
    case (Owner_vertex g)
    show ?thesis
    proof (cases "g \<in> S")
      case True
      then obtain v v' where v: "db_vertices db g = Some v" "db_vertices (ab_db st) g = Some v'" "vertex_aborted i (db_edge_id db) g v v'"
        using inv by (auto simp: vertices_aborted_def)
      have chain: "chain_ok A (db_heap db) (db_timestamp db) (v_deltas v)"
        by (rule db_ok_chain(1)[OF ok v(1)])
      have none: "\<not> own_delta (db_heap db) i d" if "d \<in> set (below_block i (v_deltas v))" for d
        using own_delta_iff[OF txs chain T, of d] below_block_other[OF chain T that] that set_dropWhileD[of d] by (auto simp: below_block_def)
      have bl: "v_deltas v' = below_block i (v_deltas v)" and flag: "\<not> v_has_uncommitted_non_sequential_deltas v'" "v_gid v' = g"
        using v(3) by (auto simp: vertex_aborted_def vertex_ok_def)
      have "takeWhile (own_delta (db_heap db) i) (dropWhile (\<lambda>d. d_uid d \<noteq> uid) (v_deltas v')) = []"
        using none set_dropWhileD[of _ "\<lambda>d. d_uid d \<noteq> uid" "v_deltas v'"] unfolding bl by (intro takeWhile_none) blast
      then have "process_vertex_deltas i uid v' st = Inr st"
        using process_no_block[of st i uid v'] heap v(2) flag by simp
      then have "abort_vertex i od st = Inr st"
        using od Owner_vertex v(2) by (simp add: abort_vertex_def split: prev.splits)
      then show ?thesis
        by (rule keep) (use od Owner_vertex True in simp)
    next
      case False
      then have same: "db_vertices (ab_db st) g = db_vertices db g"
        using inv by (simp add: vertices_aborted_def)
      show ?thesis
      proof (cases "\<exists>v ds d. db_vertices db g = Some v \<and> v_deltas v = d # ds \<and> d_uid d = uid")
        case nohead: False
        have "abort_vertex i od st = Inr st"
        proof (cases "db_vertices db g")
          case None
          then show ?thesis
            using od Owner_vertex same by (simp add: abort_vertex_def)
        next
          case (Some v)
          have gid: "v_gid v = g"
            using ok Some by (simp add: db_ok_def store_ok_def vertex_ok_def)
          have "prev_in uid Prev_object (v_deltas v) \<noteq> Prev_object"
            using nohead Some unfolding prev_in_object by (cases "v_deltas v") auto
          moreover have "process_vertex_deltas i uid v st = Inr st"
            if "prev_in uid Prev_object (v_deltas v) = Prev_delta d" "ts (db_heap db) d \<noteq> i" for d
            using process_no_block[of st i uid v] no_block_below[OF txs db_ok_chain(1)[OF ok Some] T that] heap same Some vertex_flag[OF ok Some] gid
            by simp
          ultimately show ?thesis
            using od Owner_vertex same Some heap by (cases "prev_in uid Prev_object (v_deltas v)") (simp_all add: abort_vertex_def)
        qed
        then show ?thesis
          by (rule keep) (use od Owner_vertex nohead in auto)
      next
        case head: True
        then obtain v d ds where v: "db_vertices db g = Some v" "v_deltas v = d # ds" "d_uid d = uid"
          by auto
        have vok: "vertex_ok (db_edge_id db) g v"
          using ok v(1) by (simp add: db_ok_def store_ok_def)
        obtain v' st' where p: "process_vertex_deltas i uid v st = Inr (st'\<lparr>ab_db := put_vertex v' (ab_db st')\<rparr>)"
          "vertex_aborted i (db_edge_id db) g v v'" "quiet (ab_db st) (ab_db st')" "ab_deleted_edges st' = ab_deleted_edges st"
          "set (ab_deleted_vertices st') = set (ab_deleted_vertices st) \<union> (if created i (v_deltas v) then {g} else {})"
          using process_own_block[OF txs db_ok_chain(1)[OF ok v(1)] T vok db_ok_chain(2)[OF ok v(1)] v(2,3) heap] by blast
        let ?st = "st'\<lparr>ab_db := put_vertex v' (ab_db st')\<rparr>"
        have "abort_vertex i od st = Inr ?st"
          using od Owner_vertex same v p(1) by (simp add: abort_vertex_def)
        moreover have "v_gid v' = g"
          using p(2) by (simp add: vertex_aborted_def vertex_ok_def)
        then have "vertices_aborted i db db1 es (insert g S) ?st"
          using inv p(2-5) v(1) False by (auto simp: vertices_aborted_def quiet_def frame_def)
        ultimately show ?thesis
          using od Owner_vertex by (intro exI[of _ "insert g S"] exI[of _ ?st]) (auto simp: vertex_hit_def)
      qed
    qed
  qed
qed

lemma apply_all_grow:
  assumes "\<And>S st od. P S st \<Longrightarrow> \<exists>S' st'. f od st = Inr st' \<and> P S' st' \<and> S \<subseteq> S' \<and> hit od \<subseteq> S'" and "P S st"
  shows "\<exists>S' st'. apply_all f ods st = Inr st' \<and> P S' st' \<and> S \<subseteq> S' \<and> (\<forall>od \<in> set ods. hit od \<subseteq> S')"
  using assms(2)
proof (induction ods arbitrary: S st)
  case (Cons od ods)
  obtain S1 st1 where 1: "f od st = Inr st1" "P S1 st1" "S \<subseteq> S1" "hit od \<subseteq> S1"
    using assms(1)[OF Cons.prems] by blast
  obtain S' st' where "apply_all f ods st1 = Inr st'" "P S' st'" "S1 \<subseteq> S'" "\<forall>od \<in> set ods. hit od \<subseteq> S'"
    using Cons.IH[OF 1(2)] by blast
  then show ?case
    using 1 by (intro exI[of _ S'] exI[of _ st']) auto
qed auto

section \<open>The abort of a transaction\<close>

lemma abort_passes:
  assumes ok: "db_ok A db" and T: "A i = Some T"
  obtains S1 st1 S2 st2 where "apply_all (abort_edge i) (tx_deltas T) \<lparr>ab_db = db, ab_deleted_vertices = [], ab_deleted_edges = []\<rparr> = Inr st1"
    "edges_aborted i db S1 st1" "\<forall>od \<in> set (tx_deltas T). edge_hit db od \<subseteq> S1"
    "apply_all (abort_vertex i) (tx_deltas T) st1 = Inr st2"
    "vertices_aborted i db (ab_db st1) (ab_deleted_edges st1) S2 st2" "\<forall>od \<in> set (tx_deltas T). vertex_hit db od \<subseteq> S2"
proof -
  let ?st = "\<lparr>ab_db = db, ab_deleted_vertices = [], ab_deleted_edges = []\<rparr>"
  have start: "edges_aborted i db {} ?st"
    by (simp add: edges_aborted_def)
  obtain S1 st1 where 1: "apply_all (abort_edge i) (tx_deltas T) ?st = Inr st1"
    "edges_aborted i db S1 st1" "\<forall>od \<in> set (tx_deltas T). edge_hit db od \<subseteq> S1"
    using apply_all_grow[where P = "edges_aborted i db" and f = "abort_edge i" and hit = "edge_hit db" and ods = "tx_deltas T", OF abort_edge_step[OF ok T] start]
    by auto
  have start2: "vertices_aborted i db (ab_db st1) (ab_deleted_edges st1) {} st1"
    using 1(2) by (simp add: edges_aborted_def vertices_aborted_def)
  obtain S2 st2 where "apply_all (abort_vertex i) (tx_deltas T) st1 = Inr st2"
    "vertices_aborted i db (ab_db st1) (ab_deleted_edges st1) S2 st2" "\<forall>od \<in> set (tx_deltas T). vertex_hit db od \<subseteq> S2"
    using apply_all_grow[where P = "vertices_aborted i db (ab_db st1) (ab_deleted_edges st1)" and f = "abort_vertex i" and hit = "vertex_hit db"
        and ods = "tx_deltas T", OF abort_vertex_step[OF ok T] start2] by auto
  then show ?thesis
    by (rule that[OF 1])
qed

lemma vertex_hitI: "db_vertices db g = Some v \<Longrightarrow> v_deltas v = d # ds \<Longrightarrow> g \<in> vertex_hit db (Owner_vertex g, d_uid d)"
  by (auto simp: vertex_hit_def)

lemma edge_hitI: "db_edges db e = Some x \<Longrightarrow> e_deltas x = d # ds \<Longrightarrow> e \<in> edge_hit db (Owner_edge e, d_uid d)"
  by (auto simp: edge_hit_def)

lemma not_hit_no_block:
  assumes ok: "db_ok A db" and T: "A i = Some T" and o: "objs db o' = Some (a, ds)"
    and hit: "\<And>d es. ds = d # es \<Longrightarrow> (o', d_uid d) \<notin> set (tx_deltas T)"
  shows "own_block i ds = []"
proof (cases ds)
  case (Cons d es)
  have "d_commit_info d \<noteq> i"
    using obj_okD(6)[OF mv_invD(2)[of "mv_of A db" o' a ds], of d T] ok o T hit[OF Cons] Cons by (auto simp: db_ok_def)
  then show ?thesis
    using Cons by (simp add: own_block_def)
qed (simp add: own_block_def)

lemma rolled_back_no_block: "own_block i ds = [] \<Longrightarrow> rolled_back i (Some (a, ds)) = Some (a, ds)"
  using block_split[of i ds] by (simp add: rolled_back_def)

lemma rolled_back_block:
  "rolled_back i (Some (a, ds)) = (if created i ds then None else Some (undo_all (own_block i ds) a, below_block i ds))"
  by (simp add: rolled_back_def created_def)

text \<open>The counters and the log, without the metadata of edges, which loses the edges of the transaction.\<close>

definition ids_frame :: "db \<Rightarrow> db \<Rightarrow> bool" where
  "ids_frame db db' \<longleftrightarrow> db_commit_log db' = db_commit_log db \<and> db_timestamp db' = db_timestamp db \<and>
    db_transaction_id db' = db_transaction_id db \<and> db_vertex_id db' = db_vertex_id db \<and> db_edge_id db' = db_edge_id db \<and>
    db_config db' = db_config db \<and> gc_core (db_gc db') = gc_core (db_gc db)"

lemma frame_ids_frame: "frame db db' \<Longrightarrow> ids_frame db' db'' \<Longrightarrow> ids_frame db db''"
  by (simp add: frame_def ids_frame_def)

lemma abort_objects_rolled_back:
  assumes ok: "db_ok A db" and T: "A i = Some T"
  shows "\<exists>db'. abort_objects T db = Inr db' \<and> objs db' = (\<lambda>o'. rolled_back i (objs db o')) \<and> store_ok db' \<and> ids_frame db db' \<and> db_heap db' = db_heap db"
proof -
  have id: "tx_id T = i"
    using db_ok_tx[OF ok T] by (simp add: tx_ok_def)
  define dbc where "dbc = calls (if tx_constraint_verification_info T then [Unique_AbortEntries (tx_start T)] else []) db"
  have okc: "db_ok A dbc"
    using progress_db_ok[OF ok T progress_tx[OF ok T, of T dbc]] T by (simp add: dbc_def map_upd_triv)
  have same: "objs dbc = objs db" "frame db dbc" "db_heap dbc = db_heap db" "db_edge_id dbc = db_edge_id db"
    unfolding dbc_def using objs_eqI[of "calls _ db" db] by simp_all
  obtain S1 st1 S2 st2 where e: "apply_all (abort_edge i) (tx_deltas T) \<lparr>ab_db = dbc, ab_deleted_vertices = [], ab_deleted_edges = []\<rparr> = Inr st1"
    "edges_aborted i dbc S1 st1" "\<forall>od \<in> set (tx_deltas T). edge_hit dbc od \<subseteq> S1"
    and v: "apply_all (abort_vertex i) (tx_deltas T) st1 = Inr st2"
    "vertices_aborted i dbc (ab_db st1) (ab_deleted_edges st1) S2 st2" "\<forall>od \<in> set (tx_deltas T). vertex_hit dbc od \<subseteq> S2"
    by (rule abort_passes[OF okc T])
  note ea = e(2)[unfolded edges_aborted_def] and va = v(2)[unfolded vertices_aborted_def]
  obtain db' where r: "abort_objects T db = Inr db'" "db_vertices db' = remove_keys (ab_deleted_vertices st2) (db_vertices (ab_db st2))"
    "db_edges db' = remove_keys (ab_deleted_edges st1) (db_edges (ab_db st1))" "db_heap db' = db_heap (ab_db st2)" "ids_frame (ab_db st2) db'"
    "db_edges_metadata db' = (if cfg_enable_edges_metadata (db_config db')
       then remove_keys (ab_deleted_edges st1) (db_edges_metadata (ab_db st2)) else db_edges_metadata (ab_db st2))"
    using e(1) v(1) va id by (simp add: abort_objects_def dbc_def[symmetric] Let_def ids_frame_def frame_def)
  have "objs db' (Owner_vertex g) = rolled_back i (objs dbc (Owner_vertex g))" for g
  proof (cases "g \<in> S2")
    case True
    then obtain w w' where w: "db_vertices dbc g = Some w" "db_vertices (ab_db st2) g = Some w'" "vertex_aborted i (db_edge_id dbc) g w w'"
      using va by blast
    have "g \<in> set (ab_deleted_vertices st2) \<longleftrightarrow> created i (v_deltas w)"
      using va True w(1) by simp
    then show ?thesis
      using w r(2) by (simp add: objs_def remove_keys_def rolled_back_block vertex_aborted_def)
  next
    case False
    then have same: "db_vertices db' g = db_vertices dbc g"
      using va r(2) by (simp add: remove_keys_def)
    show ?thesis
    proof (cases "db_vertices dbc g")
      case (Some w)
      have "own_block i (v_deltas w) = []"
        by (rule not_hit_no_block[OF okc T, of "Owner_vertex g"]) (use False v(3) Some vertex_hitI[OF Some] in \<open>simp, blast\<close>)
      then show ?thesis
        using same Some by (simp add: rolled_back_no_block)
    qed (use same in \<open>simp add: rolled_back_def\<close>)
  qed
  moreover have "objs db' (Owner_edge x) = rolled_back i (objs dbc (Owner_edge x))" for x
  proof (cases "x \<in> S1")
    case True
    then obtain w w' where w: "db_edges dbc x = Some w" "db_edges (ab_db st1) x = Some w'" "edge_aborted i x w w'"
      using ea by blast
    have "x \<in> set (ab_deleted_edges st1) \<longleftrightarrow> created i (e_deltas w)"
      using ea True w(1) by simp
    then show ?thesis
      using w r(3) by (simp add: objs_def remove_keys_def rolled_back_block edge_aborted_def)
  next
    case False
    then have same: "db_edges db' x = db_edges dbc x"
      using ea r(3) by (simp add: remove_keys_def)
    show ?thesis
    proof (cases "db_edges dbc x")
      case (Some w)
      have "own_block i (e_deltas w) = []"
        by (rule not_hit_no_block[OF okc T, of "Owner_edge x"]) (use False e(3) Some edge_hitI[OF Some] in \<open>simp, blast\<close>)
      then show ?thesis
        using same Some by (simp add: rolled_back_no_block)
    qed (use same in \<open>simp add: rolled_back_def\<close>)
  qed
  ultimately have "objs db' o' = rolled_back i (objs db o')" for o'
    using same(1) by (cases o') simp_all
  moreover have fr: "ids_frame db db'" "db_heap db' = db_heap db"
    using same(2,3) va r(4,5) by (auto intro: frame_ids_frame)
  moreover have "store_ok db'"
  proof -
    have "vertex_ok (db_edge_id db) g w \<and> g < db_vertex_id db" if "db_vertices db' g = Some w" for g w
      using that r(2) va okc same(2,4) by (cases "g \<in> S2") (auto simp: remove_keys_def vertex_aborted_def db_ok_def store_ok_def frame_def split: if_splits)
    moreover have "edge_ok x w \<and> x < db_edge_id db" if "db_edges db' x = Some w" for x w
      using that r(3) ea okc same(2,4) by (cases "x \<in> S1") (auto simp: remove_keys_def edge_aborted_def db_ok_def store_ok_def frame_def split: if_splits)
    moreover have "dom (db_edges db') \<subseteq> dom (db_edges_metadata db')"
      if "cfg_enable_edges_metadata (db_config db')"
    proof
      fix x
      assume "x \<in> dom (db_edges db')"
      then have x: "x \<notin> set (ab_deleted_edges st1)" "x \<in> dom (db_edges (ab_db st1))"
        using r(3) by (auto simp: remove_keys_def split: if_splits)
      then have "x \<in> dom (db_edges dbc)"
        using ea by (cases "x \<in> S1") auto
      then have "x \<in> dom (db_edges_metadata dbc)"
        using okc that fr(1) same(2) by (auto simp: db_ok_def store_ok_def frame_def ids_frame_def)
      then show "x \<in> dom (db_edges_metadata db')"
        using x(1) r(6) va that by (auto simp: remove_keys_def frame_def)
    qed
    ultimately show ?thesis
      using fr(1) by (simp add: store_ok_def ids_frame_def)
  qed
  ultimately show ?thesis
    using r(1) by blast
qed

lemma mark_finished_simps [simp]:
  "db_vertices (mark_finished t db) = db_vertices db" "db_edges (mark_finished t db) = db_edges db" "db_heap (mark_finished t db) = db_heap db"
  "db_timestamp (mark_finished t db) = db_timestamp db" "db_transaction_id (mark_finished t db) = db_transaction_id db"
  "db_vertex_id (mark_finished t db) = db_vertex_id db" "db_edge_id (mark_finished t db) = db_edge_id db"
  "db_config (mark_finished t db) = db_config db" "db_commit_log (mark_finished t db) = MarkFinished t (db_commit_log db)"
  "db_gc (mark_finished t db) = db_gc db" "db_edges_metadata (mark_finished t db) = db_edges_metadata db"
  by (simp_all add: mark_finished_def)

text \<open>The end of a transaction finishes its start timestamp in the commit log.\<close>

lemma log_ok_end:
  assumes "log_ok A db" and "A i = Some T" and "tx_start T < db_timestamp db" and "db_timestamp db \<le> db_timestamp db'"
    and "db_commit_log db' = MarkFinished (tx_start T) (db_commit_log db)"
  shows "log_ok (A(i := None)) db'"
proof -
  have "cl_inv (db_commit_log db)" "tx_start T \<notin> finished (db_commit_log db)"
    using assms(1,2) by (auto simp: log_ok_def)
  then have "cl_inv (db_commit_log db')" "finished (db_commit_log db') = insert (tx_start T) (finished (db_commit_log db))"
    using assms(5) cl.mark_inv cl.mark_fin by auto
  moreover have "finished (db_commit_log db) \<subseteq> {..<db_timestamp db}"
    using assms(1) by (simp add: log_ok_def)
  ultimately show ?thesis
    using assms(1-4) unfolding log_ok_def by auto
qed

lemma handled_simps [simp]:
  "ci_timestamp (h_commit_infos (set_ci_handled c h) k) = ci_timestamp (h_commit_infos h k)" "h_next_delta (set_ci_handled c h) = h_next_delta h"
  by (simp_all add: set_ci_handled_def)

definition same_ids :: "db \<Rightarrow> db \<Rightarrow> bool" where
  "same_ids db db' \<longleftrightarrow> db_timestamp db' = db_timestamp db \<and> db_transaction_id db' = db_transaction_id db \<and>
    db_vertex_id db' = db_vertex_id db \<and> db_edge_id db' = db_edge_id db \<and> db_config db' = db_config db \<and>
    gc_core (db_gc db') = gc_core (db_gc db)"

lemma Abort_step:
  assumes ok: "db_ok A db" and T: "A i = Some (acc_transaction acc)" and act: "acc_is_transaction_active acc"
  shows "\<exists>acc' db'. Abort acc db = Inr (acc', db') \<and> mv_step Abort_tx i (mv_of A db) (mv_of (A(i := None)) db') \<and> db_ok (A(i := None)) db' \<and>
    \<not> acc_is_transaction_active acc' \<and> acc_commit_timestamp acc' = acc_commit_timestamp acc \<and> tx_deltas (acc_transaction acc') = [] \<and> same_ids db db' \<and>
    db_commit_log db' = MarkFinished (tx_start (acc_transaction acc)) (db_commit_log db)"
proof -
  let ?T = "acc_transaction acc"
  define db1 where "db1 = (case tx_commit_info ?T of None \<Rightarrow> db | Some ci \<Rightarrow> db\<lparr>db_heap := set_ci_handled ci (db_heap db)\<rparr>)"
  have h1: "\<forall>k. ci_timestamp (h_commit_infos (db_heap db1) k) = ci_timestamp (h_commit_infos (db_heap db) k)"
    "h_next_delta (db_heap db1) = h_next_delta (db_heap db)"
    by (simp_all add: db1_def split: option.splits)
  have same: "db_vertices db1 = db_vertices db" "db_edges db1 = db_edges db" "frame db db1" "objs db1 = objs db"
    by (simp_all add: db1_def objs_def fun_eq_iff split: option.splits delta_owner.splits)
  have "tx_step ?T (db_heap db) ?T (db_heap db1)"
    using tx_step_refl[OF db_ok_tx[OF ok T]] h1 by (simp add: tx_step_def)
  then have ok1: "db_ok A db1"
    using progress_db_ok[OF ok T progress_local[OF ok T _ _ same(3,1,2), of ?T]] T by (simp add: map_upd_triv)
  obtain T' db3 where r: "(if tx_deltas ?T = [] then Inr (?T, db1)
        else bind_result (abort_objects ?T db1) (\<lambda>db2. Inr (?T\<lparr>tx_deltas := [], tx_commit_info := None\<rparr>, db2))) = Inr (T', db3)"
    and o3: "objs db3 = (\<lambda>o'. rolled_back i (objs db o'))" "store_ok db3" "ids_frame db db3" "db_heap db3 = db_heap db1" "tx_deltas T' = []"
  proof (cases "tx_deltas ?T = []")
    case True
    have "own_block i ds = []" if "objs db o' = Some (a, ds)" for o' a ds
      by (rule not_hit_no_block[OF ok T that]) (simp add: True)
    then have "objs db o' = rolled_back i (objs db o')" for o'
      using rolled_back_no_block by (cases "objs db o'") (auto simp: rolled_back_def[of _ None])
    then show ?thesis
      using that[of ?T db1] True same ok1 by (auto simp: db_ok_def frame_def ids_frame_def)
  next
    case False
    obtain db2 where d2: "abort_objects ?T db1 = Inr db2" "objs db2 = (\<lambda>o'. rolled_back i (objs db1 o'))" "store_ok db2"
      "ids_frame db1 db2" "db_heap db2 = db_heap db1"
      using abort_objects_rolled_back[OF ok1 T] by blast
    show ?thesis
    proof (rule that)
      show "(if tx_deltas ?T = [] then Inr (?T, db1)
        else bind_result (abort_objects ?T db1) (\<lambda>db2. Inr (?T\<lparr>tx_deltas := [], tx_commit_info := None\<rparr>, db2))) =
          Inr (?T\<lparr>tx_deltas := [], tx_commit_info := None\<rparr>, db2)"
        using False d2(1) by simp
      show "ids_frame db db2"
        by (rule frame_ids_frame[OF same(3) d2(4)])
    qed (use d2 same in simp_all)
  qed
  let ?db = "mark_finished (tx_start ?T) (call Abort_callbacks_RunAll db3)"
  have ab: "Abort acc db = Inr (acc\<lparr>acc_transaction := T', acc_is_transaction_active := False\<rparr>, ?db)"
    using act r by (auto simp: Abort_def Let_def db1_def[symmetric] split: if_splits)
  have objs: "objs ?db = objs db3"
    by (rule objs_eqI) simp_all
  have mv: "mv_of (A(i := None)) ?db = (mv_of A db)\<lparr>mv_active := A(i := None), mv_heap := db_heap db1,
      mv_objs := (\<lambda>o'. rolled_back i (objs db o'))\<rparr>"
    using o3 objs by (simp add: mv_of_def ids_frame_def)
  have step: "mv_step Abort_tx i (mv_of A db) (mv_of (A(i := None)) ?db)"
    unfolding mv using mv_step.abort[of "mv_of A db" i ?T "db_heap db1"] T h1 by simp
  moreover have "store_ok ?db"
    using o3(2) by (simp add: store_ok_def)
  moreover have "log_ok (A(i := None)) ?db"
    by (rule log_ok_end[where A = A and i = i and db = db, OF _ T]) (use ok o3(3) db_ok_tx[OF ok T] in \<open>auto simp: db_ok_def ids_frame_def tx_ok_def\<close>)
  ultimately have "db_ok (A(i := None)) ?db"
    using mv_step_inv ok by (auto simp: db_ok_def)
  then show ?thesis
    using ab step o3(3,5) by (simp add: same_ids_def ids_frame_def)
qed

end
