(* ===== verification/CommitSteps.thy ===== *)
theory CommitSteps
  imports Rollback
begin

text \<open>
  The commit of a transaction is the commit step of the multi-version machine.  The fast discard of deltas happens
  only when no other transaction is active, so that nobody can notice it.
\<close>

lemma mv_of_quiet: "quiet db db' \<Longrightarrow> mv_of A db' = mv_of A db"
  using objs_eqI[of db' db] by (simp add: mv_of_def quiet_def frame_def)

lemma db_ok_quiet: "quiet db db' \<Longrightarrow> db_ok A db' \<longleftrightarrow> db_ok A db"
  using mv_of_quiet[of db db' A] by (simp add: db_ok_def store_ok_def log_ok_def quiet_def frame_def)

lemma start_before: "db_ok A db \<Longrightarrow> A j = Some U \<Longrightarrow> tx_start U < db_timestamp db"
  using db_ok_tx[of A db j U] by (simp add: tx_ok_def)

section \<open>Discarding chains\<close>

text \<open>Some chains are emptied, the objects stay.\<close>

definition rest_frame :: "db \<Rightarrow> db \<Rightarrow> bool" where
  "rest_frame db db' \<longleftrightarrow> db_commit_log db' = db_commit_log db \<and> db_timestamp db' = db_timestamp db \<and>
    db_transaction_id db' = db_transaction_id db \<and> db_vertex_id db' = db_vertex_id db \<and> db_edge_id db' = db_edge_id db \<and>
    db_config db' = db_config db \<and> db_edges_metadata db' = db_edges_metadata db"

lemma rest_frame_simps [simp]:
  "rest_frame db db" "rest_frame db (put_vertex v db') = rest_frame db db'" "rest_frame db (put_edge x db') = rest_frame db db'"
  "rest_frame db (calls cs db') = rest_frame db db'"
  by (simp_all add: rest_frame_def)

definition discarded :: "db \<Rightarrow> db \<Rightarrow> bool" where
  "discarded db db' \<longleftrightarrow> rest_frame db db' \<and> db_heap db' = db_heap db \<and>
    (\<exists>P. objs db' = (\<lambda>o'. map_option (\<lambda>(a, ds). (a, if P o' then [] else ds)) (objs db o'))) \<and> (store_ok db \<longrightarrow> store_ok db')"

lemma discarded_refl [simp]: "discarded db db"
  unfolding discarded_def by (auto intro!: exI[of _ "\<lambda>_. False"] simp: fun_eq_iff option.map_id0)

lemma discarded_trans:
  assumes "discarded db db'" and "discarded db' db''"
  shows "discarded db db''"
proof -
  obtain P Q where "objs db' = (\<lambda>o'. map_option (\<lambda>(a, ds). (a, if P o' then [] else ds)) (objs db o'))"
    "objs db'' = (\<lambda>o'. map_option (\<lambda>(a, ds). (a, if Q o' then [] else ds)) (objs db' o'))"
    using assms by (auto simp: discarded_def)
  then have "objs db'' = (\<lambda>o'. map_option (\<lambda>(a, ds). (a, if P o' \<or> Q o' then [] else ds)) (objs db o'))"
    by (auto simp: fun_eq_iff option.map_comp comp_def case_prod_unfold intro!: option.map_cong)
  then show ?thesis
    using assms unfolding discarded_def rest_frame_def by (auto intro: exI[of _ "\<lambda>o'. P o' \<or> Q o'"])
qed

lemma vertex_ok_discard: "vertex_ok n g v \<Longrightarrow> vertex_ok n g (v\<lparr>v_deltas := [], v_has_uncommitted_non_sequential_deltas := False\<rparr>)"
  using vector_ok_subset[of in_entry n "v_in_edges v" "v_deltas v" "[]" "v_in_edges v"]
    vector_ok_subset[of out_entry n "v_out_edges v" "v_deltas v" "[]" "v_out_edges v"]
  by (simp add: vertex_ok_def vertex_wf_def all_entries_def)

lemma discarded_vertex:
  assumes "db_vertices db g = Some v" "v_gid v = g"
  shows "discarded db (put_vertex (v\<lparr>v_deltas := [], v_has_uncommitted_non_sequential_deltas := False\<rparr>) db)"
proof -
  let ?v = "v\<lparr>v_deltas := [], v_has_uncommitted_non_sequential_deltas := False\<rparr>"
  have "objs (put_vertex ?v db) = (objs db)(Owner_vertex g \<mapsto> (abs_vertex v, []))"
    using objs_put_vertex[of "put_vertex ?v db" db g ?v] assms(2) by (simp add: abs_vertex_def)
  then have "objs (put_vertex ?v db) = (\<lambda>o'. map_option (\<lambda>(a, ds). (a, if o' = Owner_vertex g then [] else ds)) (objs db o'))"
    using assms by (auto simp: fun_eq_iff option.map_id0)
  moreover have "store_ok db \<longrightarrow> store_ok (put_vertex ?v db)"
    using assms vertex_ok_discard[of "db_edge_id db" g v] by (auto simp: store_ok_def)
  ultimately show ?thesis
    unfolding discarded_def by (intro conjI exI[of _ "\<lambda>o'. o' = Owner_vertex g"]) simp_all
qed

lemma discarded_edge:
  assumes "db_edges db e = Some x" "e_gid x = e"
  shows "discarded db (put_edge (x\<lparr>e_deltas := []\<rparr>) db)"
proof -
  let ?x = "x\<lparr>e_deltas := []\<rparr>"
  have "objs (put_edge ?x db) = (objs db)(Owner_edge e \<mapsto> (abs_edge x, []))"
    using objs_put_edge[of "put_edge ?x db" db e ?x] assms(2) by (simp add: abs_edge_def)
  then have "objs (put_edge ?x db) = (\<lambda>o'. map_option (\<lambda>(a, ds). (a, if o' = Owner_edge e then [] else ds)) (objs db o'))"
    using assms by (auto simp: fun_eq_iff option.map_id0)
  moreover have "dom (db_edges (put_edge ?x db)) = dom (db_edges db)"
    using assms by auto
  then have "store_ok db \<longrightarrow> store_ok (put_edge ?x db)"
    using assms unfolding store_ok_def by (simp add: edge_ok_def)
  ultimately show ?thesis
    unfolding discarded_def by (intro conjI exI[of _ "\<lambda>o'. o' = Owner_edge e"]) simp_all
qed

lemma store_ok_gids:
  "store_ok db \<Longrightarrow> db_vertices db g = Some v \<Longrightarrow> v_gid v = g" "store_ok db \<Longrightarrow> db_edges db e = Some x \<Longrightarrow> e_gid x = e"
  by (simp_all add: store_ok_def vertex_ok_def edge_ok_def)

lemma unlink_delta_discarded:
  assumes "store_ok db" and "unlink_delta od (db, es, vs) = (db', es', vs')"
  shows "discarded db db'"
  using assms(2) discarded_vertex[OF _ store_ok_gids(1)[OF assms(1)]] discarded_edge[OF _ store_ok_gids(2)[OF assms(1)]]
  by (auto simp: unlink_delta_def split: prod.splits delta_owner.splits option.splits if_splits)

lemma UnlinkAndRemoveDeltas_discarded:
  assumes "store_ok db" and "UnlinkAndRemoveDeltas ods (db, es, vs) = (db', es', vs')"
  shows "discarded db db'"
  using assms
proof (induction ods arbitrary: db es vs)
  case (Cons od ods)
  obtain db1 es1 vs1 where 1: "unlink_delta od (db, es, vs) = (db1, es1, vs1)"
    by (cases "unlink_delta od (db, es, vs)")
  then have d: "discarded db db1"
    by (rule unlink_delta_discarded[OF Cons.prems(1)])
  then have "discarded db1 db'"
    using Cons.IH[of db1 es1 vs1] Cons.prems 1 by (simp add: UnlinkAndRemoveDeltas_def discarded_def)
  then show ?case
    by (rule discarded_trans[OF d])
qed (simp add: UnlinkAndRemoveDeltas_def)

lemma fold_unlink_discarded:
  assumes "store_ok db" and "fold (\<lambda>b. UnlinkAndRemoveDeltas (gd_deltas b)) bs (db, es, vs) = (db', es', vs')"
  shows "discarded db db'"
  using assms
proof (induction bs arbitrary: db es vs)
  case (Cons b bs)
  obtain db1 es1 vs1 where 1: "UnlinkAndRemoveDeltas (gd_deltas b) (db, es, vs) = (db1, es1, vs1)"
    by (cases "UnlinkAndRemoveDeltas (gd_deltas b) (db, es, vs)")
  then have d: "discarded db db1"
    by (rule UnlinkAndRemoveDeltas_discarded[OF Cons.prems(1)])
  then have "discarded db1 db'"
    using Cons.IH[of db1 es1 vs1] Cons.prems 1 by (simp add: discarded_def)
  then show ?case
    by (rule discarded_trans[OF d])
qed simp

lemma discarded_gc [simp]: "discarded db (db'\<lparr>db_gc := gc\<rparr>) = discarded db db'" "discarded (db\<lparr>db_gc := gc\<rparr>) db' = discarded db db'"
proof -
  have "objs (d\<lparr>db_gc := gc\<rparr>) = objs d" for d
    by (rule objs_eqI) simp_all
  then show "discarded db (db'\<lparr>db_gc := gc\<rparr>) = discarded db db'" "discarded (db\<lparr>db_gc := gc\<rparr>) db' = discarded db db'"
    by (simp_all add: discarded_def rest_frame_def store_ok_def)
qed

lemma FastDiscardOfDeltas_discarded:
  assumes "store_ok db" and "FastDiscardOfDeltas tx db = (tx', db')"
  shows "discarded db db'" "tx' = tx\<lparr>tx_deltas := []\<rparr>"
proof -
  let ?gc = "(db_gc db)\<lparr>gc_garbage_undo_buffers := [], gc_committed_transactions := [], gc_waiting_deltas := []\<rparr>"
  let ?bs = "gc_committed_transactions (db_gc db) @ gc_waiting_deltas (db_gc db)"
  obtain db1 es1 vs1 where 1: "fold (\<lambda>b. UnlinkAndRemoveDeltas (gd_deltas b)) ?bs (db\<lparr>db_gc := ?gc\<rparr>, [], []) = (db1, es1, vs1)"
    by (cases "fold (\<lambda>b. UnlinkAndRemoveDeltas (gd_deltas b)) ?bs (db\<lparr>db_gc := ?gc\<rparr>, [], [])")
  obtain db2 es2 vs2 where 2: "UnlinkAndRemoveDeltas (tx_deltas tx) (db1, es1, vs1) = (db2, es2, vs2)"
    by (cases "UnlinkAndRemoveDeltas (tx_deltas tx) (db1, es1, vs1)")
  have s: "store_ok (db\<lparr>db_gc := ?gc\<rparr>)"
    using assms(1) by (simp add: store_ok_def)
  then have d1: "discarded (db\<lparr>db_gc := ?gc\<rparr>) db1"
    by (rule fold_unlink_discarded[OF _ 1])
  then have "discarded db1 db2"
    using UnlinkAndRemoveDeltas_discarded[OF _ 2] s by (simp add: discarded_def)
  then have "discarded db db2"
    using discarded_trans[OF d1] by simp
  then show "discarded db db'" "tx' = tx\<lparr>tx_deltas := []\<rparr>"
    using assms(2) 1 2 by (auto simp: FastDiscardOfDeltas_def GCRapidDeltaCleanup_def Let_def)
qed

text \<open>The deleted objects whose chain was emptied are handed to the garbage collector, each once.\<close>

definition emptied :: "(delta_owner \<rightharpoonup> aversion \<times> delta list) \<Rightarrow> (delta_owner \<rightharpoonup> aversion \<times> delta list) \<Rightarrow> delta_owner \<Rightarrow> bool" where
  "emptied before after o' \<longleftrightarrow> (\<exists>a ds. before o' = Some (a, ds) \<and> ds \<noteq> [] \<and> after o' = Some (a, []) \<and> a_deleted a)"

definition emptied_lists :: "(delta_owner \<rightharpoonup> aversion \<times> delta list) \<Rightarrow> (delta_owner \<rightharpoonup> aversion \<times> delta list) \<Rightarrow> gid list \<Rightarrow> gid list \<Rightarrow> bool" where
  "emptied_lists before after es vs \<longleftrightarrow> distinct es \<and> distinct vs \<and> (\<forall>e \<in> set es. emptied before after (Owner_edge e)) \<and>
     (\<forall>g \<in> set vs. emptied before after (Owner_vertex g))"

text \<open>No chain starts with a delta of a set.\<close>

definition heads_off :: "(delta_owner \<times> nat) set \<Rightarrow> (delta_owner \<rightharpoonup> aversion \<times> delta list) \<Rightarrow> bool" where
  "heads_off S f \<longleftrightarrow> (\<forall>o' a d ds. f o' = Some (a, d # ds) \<longrightarrow> (o', d_uid d) \<notin> S)"

definition handed_over :: "gc_state \<Rightarrow> transaction \<Rightarrow> (delta_owner \<times> nat) set" where
  "handed_over gc T = (\<Union>b \<in> set (gc_committed_transactions gc @ gc_waiting_deltas gc). set (gd_deltas b)) \<union> set (tx_deltas T)"

definition gc_discarded :: "nat \<Rightarrow> db \<Rightarrow> transaction \<Rightarrow> db \<Rightarrow> bool" where
  "gc_discarded t db T db' \<longleftrightarrow> OldestActive (db_commit_log db') = t \<and>
     (\<exists>P. objs db' = (\<lambda>o'. map_option (\<lambda>(a, ds). (a, if P o' then [] else ds)) (objs db o'))) \<and>
     heads_off (handed_over (db_gc db) T) (objs db') \<and>
     (\<exists>es vs. gc_core (db_gc db') = ([], [], gc_deleted_vertices (db_gc db) @ vs, gc_deleted_edges (db_gc db) @ es) \<and>
       emptied_lists (objs db) (objs db') es vs)"

lemma unlink_delta_objs:
  assumes st: "store_ok db" and r: "unlink_delta (o', uid) (db, es, vs) = (db', es', vs')"
  shows "objs db' = (case objs db o' of None \<Rightarrow> objs db
    | Some (a, ds) \<Rightarrow> if prev_in uid Prev_object ds = Prev_object then (objs db)(o' \<mapsto> (a, [])) else objs db)"
proof (cases o')
  case (Owner_vertex g)
  show ?thesis
  proof (cases "db_vertices db g")
    case None
    then show ?thesis
      using r Owner_vertex by (simp add: unlink_delta_def)
  next
    case (Some v)
    let ?v = "v\<lparr>v_deltas := [], v_has_uncommitted_non_sequential_deltas := False\<rparr>"
    have "objs (put_vertex ?v db) = (objs db)(Owner_vertex g \<mapsto> (abs_vertex v, []))"
      using objs_put_vertex[of "put_vertex ?v db" db g ?v] store_ok_gids(1)[OF st Some] by (simp add: abs_vertex_def)
    then show ?thesis
      using r Owner_vertex Some by (auto simp: unlink_delta_def split: if_splits)
  qed
next
  case (Owner_edge e)
  show ?thesis
  proof (cases "db_edges db e")
    case None
    then show ?thesis
      using r Owner_edge by (simp add: unlink_delta_def)
  next
    case (Some x)
    let ?x = "x\<lparr>e_deltas := []\<rparr>"
    have "objs (put_edge ?x db) = (objs db)(Owner_edge e \<mapsto> (abs_edge x, []))"
      using objs_put_edge[of "put_edge ?x db" db e ?x] store_ok_gids(2)[OF st Some] by (simp add: abs_edge_def)
    then show ?thesis
      using r Owner_edge Some by (auto simp: unlink_delta_def split: if_splits)
  qed
qed

lemma unlink_delta_heads:
  assumes "store_ok db" and r: "unlink_delta od (db, es, vs) = (db', es', vs')" and h: "heads_off S (objs db)"
  shows "heads_off (insert od S) (objs db')"
proof -
  obtain o' uid where od: "od = (o', uid)"
    by (cases od)
  note eff = unlink_delta_objs[OF assms(1) r[unfolded od]]
  show ?thesis
    unfolding heads_off_def
  proof clarify
    fix p a d ds
    assume o: "objs db' p = Some (a, d # ds)" and "(p, d_uid d) \<in> insert od S"
    have same: "objs db p = Some (a, d # ds)"
      using o eff by (auto split: option.splits if_splits)
    then have "(p, d_uid d) \<notin> S"
      using h by (simp add: heads_off_def)
    then have pd: "p = o'" "d_uid d = uid"
      using \<open>(p, d_uid d) \<in> insert od S\<close> od by auto
    then have "prev_in uid Prev_object (d # ds) = Prev_object"
      by simp
    then show False
      using eff same o pd by (simp del: prev_in.simps)
  qed
qed

lemma prev_in_Nil: "prev_in uid Prev_object ds = Prev_object \<Longrightarrow> ds \<noteq> []"
  by auto

lemma unlink_delta_lists:
  assumes st: "store_ok db" and d: "discarded db0 db" and l: "emptied_lists (objs db0) (objs db) es vs"
    and r: "unlink_delta od (db, es, vs) = (db', es', vs')"
  shows "emptied_lists (objs db0) (objs db') es' vs'" "db_gc db' = db_gc db"
proof -
  obtain P where P: "objs db = (\<lambda>o'. map_option (\<lambda>(a, ds). (a, if P o' then [] else ds)) (objs db0 o'))"
    using d by (auto simp: discarded_def)
  have chain: "\<exists>es. objs db0 o' = Some (a, es) \<and> es \<noteq> []" if "objs db o' = Some (a, ds)" "ds \<noteq> []" for o' a ds
    using that unfolding P by (auto split: if_splits)
  have fresh: "\<not> emptied (objs db0) (objs db) o'" if "objs db o' = Some (a, ds)" "ds \<noteq> []" for o' a ds
    using that by (auto simp: emptied_def)
  have put: "emptied (objs db0) ((objs db)(o' \<mapsto> y)) o''" if "emptied (objs db0) (objs db) o''" "o'' \<noteq> o'" for o' o'' y
    using that by (simp add: emptied_def)
  obtain o' uid where od: "od = (o', uid)"
    by (cases od)
  have all: "emptied_lists (objs db0) (objs db') es' vs' \<and> db_gc db' = db_gc db"
  proof (cases o')
    case (Owner_vertex g)
    show ?thesis
    proof (cases "\<exists>v. db_vertices db g = Some v \<and> prev_in uid Prev_object (v_deltas v) = Prev_object")
      case True
      then obtain v where v: "db_vertices db g = Some v" "prev_in uid Prev_object (v_deltas v) = Prev_object"
        by blast
      let ?v = "v\<lparr>v_deltas := [], v_has_uncommitted_non_sequential_deltas := False\<rparr>"
      have gid: "v_gid v = g"
        by (rule store_ok_gids(1)[OF st v(1)])
      have o: "objs db (Owner_vertex g) = Some (abs_vertex v, v_deltas v)" "v_deltas v \<noteq> []"
        using v prev_in_Nil by simp_all
      have put': "objs (put_vertex ?v db) = (objs db)(Owner_vertex g \<mapsto> (abs_vertex v, []))"
        using objs_put_vertex[of "put_vertex ?v db" db g ?v] gid by (simp add: abs_vertex_def)
      have db': "db' = put_vertex ?v db" "es' = es" "vs' = (if v_deleted v then vs @ [g] else vs)"
        using r v od Owner_vertex by (auto simp: unlink_delta_def)
      have "g \<notin> set vs"
        using fresh[OF o] l by (auto simp: emptied_lists_def)
      moreover have "emptied (objs db0) (objs db') (Owner_vertex g)" if "v_deleted v"
        using chain[OF o] that unfolding db' put' emptied_def by (auto simp: abs_vertex_def)
      ultimately show ?thesis
        using l unfolding db' put' by (auto simp: emptied_lists_def intro!: put)
    next
      case False
      then have "db' = db" "es' = es" "vs' = vs"
        using r od Owner_vertex by (auto simp: unlink_delta_def split: option.splits)
      then show ?thesis
        using l by simp
    qed
  next
    case (Owner_edge e)
    show ?thesis
    proof (cases "\<exists>x. db_edges db e = Some x \<and> prev_in uid Prev_object (e_deltas x) = Prev_object")
      case True
      then obtain x where x: "db_edges db e = Some x" "prev_in uid Prev_object (e_deltas x) = Prev_object"
        by blast
      let ?x = "x\<lparr>e_deltas := []\<rparr>"
      have gid: "e_gid x = e"
        by (rule store_ok_gids(2)[OF st x(1)])
      have o: "objs db (Owner_edge e) = Some (abs_edge x, e_deltas x)" "e_deltas x \<noteq> []"
        using x prev_in_Nil by simp_all
      have put': "objs (put_edge ?x db) = (objs db)(Owner_edge e \<mapsto> (abs_edge x, []))"
        using objs_put_edge[of "put_edge ?x db" db e ?x] gid by (simp add: abs_edge_def)
      have db': "db' = put_edge ?x db" "es' = (if e_deleted x then es @ [e] else es)" "vs' = vs"
        using r x od Owner_edge by (auto simp: unlink_delta_def)
      have "e \<notin> set es"
        using fresh[OF o] l by (auto simp: emptied_lists_def)
      moreover have "emptied (objs db0) (objs db') (Owner_edge e)" if "e_deleted x"
        using chain[OF o] that unfolding db' put' emptied_def by (auto simp: abs_edge_def)
      ultimately show ?thesis
        using l unfolding db' put' by (auto simp: emptied_lists_def intro!: put)
    next
      case False
      then have "db' = db" "es' = es" "vs' = vs"
        using r od Owner_edge by (auto simp: unlink_delta_def split: option.splits)
      then show ?thesis
        using l by simp
    qed
  qed
  then show "emptied_lists (objs db0) (objs db') es' vs'" "db_gc db' = db_gc db"
    by simp_all
qed

lemma UnlinkAndRemoveDeltas_lists:
  assumes "store_ok db" and "discarded db0 db" and "emptied_lists (objs db0) (objs db) es vs"
    and "UnlinkAndRemoveDeltas ods (db, es, vs) = (db', es', vs')"
  shows "emptied_lists (objs db0) (objs db') es' vs' \<and> db_gc db' = db_gc db"
  using assms
proof (induction ods arbitrary: db es vs)
  case (Cons od ods)
  obtain db1 es1 vs1 where 1: "unlink_delta od (db, es, vs) = (db1, es1, vs1)"
    by (cases "unlink_delta od (db, es, vs)")
  have d: "discarded db db1"
    by (rule unlink_delta_discarded[OF Cons.prems(1) 1])
  then have "store_ok db1" "discarded db0 db1"
    using Cons.prems(1) discarded_trans[OF Cons.prems(2)] by (auto simp: discarded_def)
  then show ?case
    using Cons.IH[of db1 es1 vs1] unlink_delta_lists[OF Cons.prems(1-3) 1] Cons.prems(4) 1 by (simp add: UnlinkAndRemoveDeltas_def)
qed (simp add: UnlinkAndRemoveDeltas_def)

lemma fold_unlink_lists:
  assumes "store_ok db" and "discarded db0 db" and "emptied_lists (objs db0) (objs db) es vs"
    and "fold (\<lambda>b. UnlinkAndRemoveDeltas (gd_deltas b)) bs (db, es, vs) = (db', es', vs')"
  shows "emptied_lists (objs db0) (objs db') es' vs' \<and> db_gc db' = db_gc db"
  using assms
proof (induction bs arbitrary: db es vs)
  case (Cons b bs)
  obtain db1 es1 vs1 where 1: "UnlinkAndRemoveDeltas (gd_deltas b) (db, es, vs) = (db1, es1, vs1)"
    by (cases "UnlinkAndRemoveDeltas (gd_deltas b) (db, es, vs)")
  have d: "discarded db db1"
    by (rule UnlinkAndRemoveDeltas_discarded[OF Cons.prems(1) 1])
  then have "store_ok db1" "discarded db0 db1"
    using Cons.prems(1) discarded_trans[OF Cons.prems(2)] by (auto simp: discarded_def)
  then show ?case
    using Cons.IH[of db1 es1 vs1] UnlinkAndRemoveDeltas_lists[OF Cons.prems(1-3) 1] Cons.prems(4) 1 by simp
qed simp

lemma UnlinkAndRemoveDeltas_heads:
  assumes "store_ok db" and "UnlinkAndRemoveDeltas ods (db, es, vs) = (db', es', vs')" and "heads_off S (objs db)"
  shows "heads_off (S \<union> set ods) (objs db')"
  using assms
proof (induction ods arbitrary: db es vs S)
  case (Cons od ods)
  obtain db1 es1 vs1 where 1: "unlink_delta od (db, es, vs) = (db1, es1, vs1)"
    by (cases "unlink_delta od (db, es, vs)")
  have "store_ok db1"
    using unlink_delta_discarded[OF Cons.prems(1) 1] Cons.prems(1) by (simp add: discarded_def)
  then show ?case
    using Cons.IH[OF _ _ unlink_delta_heads[OF Cons.prems(1) 1 Cons.prems(3)], of es1 vs1] Cons.prems(2) 1 by (simp add: UnlinkAndRemoveDeltas_def)
qed (simp add: UnlinkAndRemoveDeltas_def)

lemma fold_unlink_heads:
  assumes "store_ok db" and "fold (\<lambda>b. UnlinkAndRemoveDeltas (gd_deltas b)) bs (db, es, vs) = (db', es', vs')" and "heads_off S (objs db)"
  shows "heads_off (S \<union> (\<Union>b \<in> set bs. set (gd_deltas b))) (objs db')"
  using assms
proof (induction bs arbitrary: db es vs S)
  case (Cons b bs)
  obtain db1 es1 vs1 where 1: "UnlinkAndRemoveDeltas (gd_deltas b) (db, es, vs) = (db1, es1, vs1)"
    by (cases "UnlinkAndRemoveDeltas (gd_deltas b) (db, es, vs)")
  have "store_ok db1"
    using UnlinkAndRemoveDeltas_discarded[OF Cons.prems(1) 1] Cons.prems(1) by (simp add: discarded_def)
  then show ?case
    using Cons.IH[OF _ _ UnlinkAndRemoveDeltas_heads[OF Cons.prems(1) 1 Cons.prems(3)], of es1 vs1] Cons.prems(2) 1 by (simp add: Un_assoc)
qed simp

lemma FastDiscardOfDeltas_lists:
  assumes st: "store_ok db" and r: "FastDiscardOfDeltas tx db = (tx', db')" and t: "OldestActive (db_commit_log db) = t"
  shows "gc_discarded t db tx db'"
proof -
  let ?gc = "(db_gc db)\<lparr>gc_garbage_undo_buffers := [], gc_committed_transactions := [], gc_waiting_deltas := []\<rparr>"
  let ?bs = "gc_committed_transactions (db_gc db) @ gc_waiting_deltas (db_gc db)" and ?db = "db\<lparr>db_gc := ?gc\<rparr>"
  obtain db1 es1 vs1 where 1: "fold (\<lambda>b. UnlinkAndRemoveDeltas (gd_deltas b)) ?bs (?db, [], []) = (db1, es1, vs1)"
    by (cases "fold (\<lambda>b. UnlinkAndRemoveDeltas (gd_deltas b)) ?bs (?db, [], [])")
  obtain db2 es2 vs2 where 2: "UnlinkAndRemoveDeltas (tx_deltas tx) (db1, es1, vs1) = (db2, es2, vs2)"
    by (cases "UnlinkAndRemoveDeltas (tx_deltas tx) (db1, es1, vs1)")
  have s: "store_ok ?db" "objs ?db = objs db"
    using st objs_eqI[of ?db db] by (simp_all add: store_ok_def)
  have d1: "discarded ?db db1"
    by (rule fold_unlink_discarded[OF s(1) 1])
  have l1: "emptied_lists (objs ?db) (objs db1) es1 vs1 \<and> db_gc db1 = ?gc"
    using fold_unlink_lists[OF s(1) discarded_refl _ 1] by (simp add: emptied_lists_def)
  have l2: "emptied_lists (objs ?db) (objs db2) es2 vs2 \<and> db_gc db2 = ?gc"
    using UnlinkAndRemoveDeltas_lists[OF _ d1 _ 2] l1 d1 s(1) by (simp add: discarded_def)
  have db': "db' = db2\<lparr>db_gc := (db_gc db2)\<lparr>gc_deleted_vertices := gc_deleted_vertices (db_gc db2) @ vs2,
      gc_deleted_edges := gc_deleted_edges (db_gc db2) @ es2\<rparr>\<rparr>"
    using r 1 2 by (auto simp: FastDiscardOfDeltas_def GCRapidDeltaCleanup_def Let_def)
  have o2: "objs db' = objs db2"
    by (rule objs_eqI) (simp_all add: db')
  have h0: "heads_off {} (objs ?db)"
    by (simp add: heads_off_def)
  have h1: "heads_off ({} \<union> (\<Union>b \<in> set ?bs. set (gd_deltas b))) (objs db1)" and st1: "store_ok db1"
    using fold_unlink_heads[OF s(1) 1 h0] d1 s(1) by (simp_all add: discarded_def)
  have h2: "heads_off (handed_over (db_gc db) tx) (objs db')"
    using UnlinkAndRemoveDeltas_heads[OF st1 2 h1] unfolding o2 handed_over_def by simp
  have d: "discarded db db'"
    by (rule FastDiscardOfDeltas_discarded[OF st r])
  then have "OldestActive (db_commit_log db') = t"
    using t by (simp add: discarded_def rest_frame_def)
  moreover have "\<exists>P. objs db' = (\<lambda>o'. map_option (\<lambda>(a, ds). (a, if P o' then [] else ds)) (objs db o'))"
    using d by (simp add: discarded_def)
  moreover have "gc_core (db_gc db') = ([], [], gc_deleted_vertices (db_gc db) @ vs2, gc_deleted_edges (db_gc db) @ es2)"
    using l2 by (simp add: gc_core_def db')
  moreover have "emptied_lists (objs db) (objs db') es2 vs2"
    using l2 s(2) o2 by simp
  ultimately show ?thesis
    unfolding gc_discarded_def using h2 by blast
qed

section \<open>The commit\<close>

text \<open>The storage after the commit timestamp was taken: only the timestamp counter has moved.\<close>

definition ticked :: "db \<Rightarrow> db \<Rightarrow> bool" where
  "ticked db db' \<longleftrightarrow> db_vertices db' = db_vertices db \<and> db_edges db' = db_edges db \<and> db_heap db' = db_heap db \<and>
    db_timestamp db' = db_timestamp db + 1 \<and> db_commit_log db' = db_commit_log db \<and> db_transaction_id db' = db_transaction_id db \<and>
    db_vertex_id db' = db_vertex_id db \<and> db_edge_id db' = db_edge_id db \<and> db_config db' = db_config db \<and>
    db_edges_metadata db' = db_edges_metadata db \<and> gc_core (db_gc db') = gc_core (db_gc db)"

text \<open>What is left to the garbage collector: the deltas of the transaction, or nothing but deleted objects.\<close>

definition gc_after :: "nat \<Rightarrow> actives \<Rightarrow> mv \<Rightarrow> db \<Rightarrow> transaction \<Rightarrow> accessor \<Rightarrow> db \<Rightarrow> bool" where
  "gc_after i A m db T acc' db' \<longleftrightarrow>
     mv_of A db' = m \<and> acc_transaction acc' = T \<and> gc_core (db_gc db') = gc_core (db_gc db) \<or>
     A = Map.empty \<and> mv_step Internal i m (mv_of A db') \<and> acc_transaction acc' = T\<lparr>tx_deltas := []\<rparr> \<and> gc_discarded (db_timestamp db) db T db'"

definition ended :: "db \<Rightarrow> transaction \<Rightarrow> db \<Rightarrow> bool" where
  "ended db T db' \<longleftrightarrow> db_timestamp db' = db_timestamp db + 1 \<and> db_commit_log db' = MarkFinished (tx_start T) (db_commit_log db) \<and>
    db_transaction_id db' = db_transaction_id db \<and> db_vertex_id db' = db_vertex_id db \<and> db_edge_id db' = db_edge_id db \<and>
    db_config db' = db_config db"

lemma refresh_vertex_same:
  assumes "store_ok db"
  shows "refresh_vertex t g db = db"
proof (cases "db_vertices db g")
  case (Some v)
  then have "\<not> v_has_uncommitted_non_sequential_deltas v" "v_gid v = g"
    using assms by (auto simp: store_ok_def vertex_ok_def)
  then show ?thesis
    using Some put_vertex_same[of db v] by (simp add: refresh_vertex_def refresh_flag_def)
qed (simp add: refresh_vertex_def)

lemma fold_refresh_same: "store_ok db \<Longrightarrow> fold (refresh_vertex t) gs db = db"
  by (induction gs) (simp_all add: refresh_vertex_same)

lemma discarded_calls [simp]: "discarded db (calls cs db') = discarded db db'"
proof -
  have "objs (calls cs db') = objs db'"
    by (rule objs_eqI) simp_all
  then show ?thesis
    by (simp add: discarded_def store_ok_def)
qed

text \<open>With the deltas of other transactions around, the log would still hold one of their starts.\<close>

lemma oldest_is_commit_timestamp:
  assumes "log_ok A db" and "A j = Some U" and "tx_start U < t"
  shows "OldestActive (db_commit_log db) \<noteq> t"
  using assms cl.below_oldest[of "db_commit_log db" "tx_start U"] by (auto simp: log_ok_def)

lemma CheckForFastDiscardOfDeltas_step:
  assumes ok: "db_ok A db" and starts: "\<forall>j U. A j = Some U \<longrightarrow> tx_start U < t"
    and r: "CheckForFastDiscardOfDeltas free t tx db = (tx', db')"
  shows "tx' = tx \<and> db' = db \<or> A = Map.empty \<and> mv_step Internal i (mv_of A db) (mv_of A db') \<and> tx' = tx\<lparr>tx_deltas := []\<rparr> \<and> gc_discarded t db tx db'"
    "db_ok A db'" "rest_frame db db'"
proof -
  have d: "discarded db db' \<and> (tx' = tx \<and> db' = db \<or> A = Map.empty \<and> tx' = tx\<lparr>tx_deltas := []\<rparr> \<and> gc_discarded t db tx db')"
  proof (cases "OldestActive (db_commit_log db) = t \<and> db_transaction_id db = tx_id tx + 1 \<and> free")
    case True
    then have "FastDiscardOfDeltas tx db = (tx', db')"
      using r by (simp add: CheckForFastDiscardOfDeltas_def)
    moreover have "A j = None" for j
      using True oldest_is_commit_timestamp[of A db j _ t] ok starts by (cases "A j") (auto simp: db_ok_def)
    moreover have "store_ok db"
      using ok by (simp add: db_ok_def)
    ultimately show ?thesis
      using FastDiscardOfDeltas_discarded FastDiscardOfDeltas_lists True by blast
  next
    case False
    then show ?thesis
      using r by (auto simp: CheckForFastDiscardOfDeltas_def Let_def split: if_splits)
  qed
  then show fr: "rest_frame db db'"
    by (auto simp: discarded_def)
  obtain P where P: "objs db' = (\<lambda>o'. map_option (\<lambda>(a, ds). (a, if P o' then [] else ds)) (objs db o'))" "db_heap db' = db_heap db"
    using d by (auto simp: discarded_def)
  have "mv_step Internal i (mv_of A db) (mv_of A db')" if "A = Map.empty"
  proof -
    have "pruned (mv_of A db) (objs db o') (objs db' o')" for o'
    proof (cases "objs db o'")
      case (Some x)
      then show ?thesis
        using that by (cases x; cases "P o'") (auto simp: pruned_def obsolete_def P(1))
    qed (simp add: pruned_def P(1))
    then show ?thesis
      using mv_step.prune[of "mv_of A db" "objs db'" i] P(2) fr(1) by (simp add: mv_of_def rest_frame_def)
  qed
  then show steps: "tx' = tx \<and> db' = db \<or> A = Map.empty \<and> mv_step Internal i (mv_of A db) (mv_of A db') \<and> tx' = tx\<lparr>tx_deltas := []\<rparr> \<and> gc_discarded t db tx db'"
    using d by blast
  show "db_ok A db'"
    using ok d fr(1) steps mv_step_inv[of Internal i "mv_of A db" "mv_of A db'"] by (auto simp: db_ok_def discarded_def log_ok_def rest_frame_def)
qed

lemma FinalizeCommitPhase_step:
  assumes ok: "db_ok A db" and T: "A i = Some (acc_transaction acc)" and ci: "tx_commit_info (acc_transaction acc) = Some i"
    and c: "acc_commit_timestamp acc = Some (db_timestamp db)" and lim: "db_timestamp db < kTransactionInitialId" and db2: "ticked db db2"
  shows "\<exists>acc' db' m. FinalizeCommitPhase env w t acc db2 = (Inr (), acc', db') \<and> mv_step Commit i (mv_of A db) m \<and>
    db_ok (A(i := None)) db' \<and>
    \<not> acc_is_transaction_active acc' \<and> acc_commit_timestamp acc' = Some (db_timestamp db) \<and> ended db (acc_transaction acc) db' \<and>
    gc_after i (A(i := None)) m db (acc_transaction acc) acc' db'"
proof -
  let ?T = "acc_transaction acc" and ?A = "A(i := None)" and ?c = "db_timestamp db"
  define h where "h = set_ci_handled i (set_ci_timestamp i ?c (db_heap db))"
  have h: "ci_timestamp (h_commit_infos h i) = ?c" "\<forall>k. k \<noteq> i \<longrightarrow> ci_timestamp (h_commit_infos h k) = ci_timestamp (h_commit_infos (db_heap db) k)"
    "h_next_delta h = h_next_delta (db_heap db)"
    by (simp_all add: h_def set_ci_timestamp_def)
  have st: "store_ok db" and heap2: "db_heap db2 = db_heap db"
    using ok db2 by (simp_all add: db_ok_def ticked_def)
  obtain db7 tx' db8 cs where f: "CheckForFastDiscardOfDeltas (ce_gc_lock_free env) ?c ?T db7 = (tx', db8)"
    "FinalizeCommitPhase env w t acc db2 = (Inr (), acc\<lparr>acc_transaction := tx', acc_is_transaction_active := False\<rparr>, calls cs db8)"
    and d7: "db_vertices db7 = db_vertices db" "db_edges db7 = db_edges db" "db_heap db7 = h"
    "db_timestamp db7 = ?c + 1" "db_commit_log db7 = MarkFinished (tx_start ?T) (db_commit_log db)"
    "db_transaction_id db7 = db_transaction_id db" "db_vertex_id db7 = db_vertex_id db"
    "db_edge_id db7 = db_edge_id db" "db_config db7 = db_config db" "db_edges_metadata db7 = db_edges_metadata db"
    "gc_core (db_gc db7) = gc_core (db_gc db)"
  proof -
    define cs1 where "cs1 = (if cfg_enable_schema_info (db_config db2) then [Schema_queue_update t] else []) @ (if w then [Wal_UpdateCommitStatus] else [])"
    define cs2 where "cs2 = [Commit_ts_info_update t, Point_InstallNewPointIndex, Commit_callbacks_RunAll ?c] @
      (if tx_storage_mode ?T = IN_MEMORY_TRANSACTIONAL then [Async_DispatchRequests] else [])"
    define cs3 where "cs3 = (if cfg_enable_schema_info (db_config db2) then [Schema_ProcessPendingUpdates t] else [])"
    let ?db3 = "(calls cs1 db2)\<lparr>db_heap := h\<rparr>"
    let ?db7 = "calls cs3 (mark_finished (tx_start ?T) (calls cs2 ?db3))"
    have st3: "store_ok ?db3"
      using st db2 by (simp add: store_ok_def ticked_def)
    have same: "fold (refresh_vertex (tx_id ?T)) gs ?db3 = ?db3" for gs
      by (rule fold_refresh_same[OF st3])
    obtain tx' db8 where f: "CheckForFastDiscardOfDeltas (ce_gc_lock_free env) ?c ?T ?db7 = (tx', db8)"
      by (cases "CheckForFastDiscardOfDeltas (ce_gc_lock_free env) ?c ?T ?db7")
    have "FinalizeCommitPhase env w t acc db2 = (Inr (), acc\<lparr>acc_transaction := tx', acc_is_transaction_active := False\<rparr>,
        calls (if ce_text_changes env then [Text_ApplyTrackedChanges] else []) db8)"
      using ci c heap2 same f unfolding FinalizeCommitPhase_def Let_def cs1_def[symmetric]
      by (simp add: h_def[symmetric] cs2_def[symmetric] cs3_def[symmetric] del: append.simps)
    then show ?thesis
      by (rule that[OF f]) (use db2 in \<open>simp_all add: ticked_def\<close>)
  qed
  have objs7: "objs db7 = objs db"
    by (rule objs_eqI[OF d7(1,2)])
  have mv7: "mv_of ?A db7 = (mv_of A db)\<lparr>mv_active := ?A, mv_heap := h, mv_now := ?c + 1\<rparr>"
    using d7 objs7 by (simp add: mv_of_def)
  have step: "mv_step Commit i (mv_of A db) (mv_of ?A db7)"
    unfolding mv7 using mv_step.commit[of "mv_of A db" i ?T h] T ci lim h by simp
  have "store_ok db7"
    using st d7 by (simp add: store_ok_def)
  moreover have "log_ok ?A db7"
    by (rule log_ok_end[where A = A and i = i and db = db, OF _ T]) (use ok d7 db_ok_tx[OF ok T] in \<open>auto simp: db_ok_def tx_ok_def\<close>)
  ultimately have ok7: "db_ok ?A db7"
    using mv_step_inv[OF step] ok by (simp add: db_ok_def)
  have "\<forall>j U. ?A j = Some U \<longrightarrow> tx_start U < ?c"
    using db_ok_tx[OF ok] by (auto simp: tx_ok_def)
  note disc = CheckForFastDiscardOfDeltas_step[where A = "A(i := None)", OF ok7 this f(1)]
  have "mv_of ?A (calls cs db8) = mv_of ?A db8" "db_ok ?A (calls cs db8)"
    using disc(2) by (simp_all add: mv_of_quiet[of db8 "calls cs db8"] db_ok_quiet[of db8 "calls cs db8"])
  moreover have "ended db ?T (calls cs db8)"
    using disc(3) d7 by (simp add: ended_def rest_frame_def)
  moreover have "gc_after i ?A (mv_of ?A db7) db ?T (acc\<lparr>acc_transaction := tx', acc_is_transaction_active := False\<rparr>) (calls cs db8)"
  proof -
    have "gc_discarded ?c db ?T (calls cs db8)" if "gc_discarded ?c db7 ?T db8"
      using that d7(11) objs7 objs_eqI[of "calls cs db8" db8] by (simp add: gc_discarded_def gc_core_def handed_over_def)
    moreover have "mv_of ?A (calls cs db8) = mv_of ?A db8"
      by (rule mv_of_quiet) simp
    ultimately show ?thesis
      using disc(1) d7(11) unfolding gc_after_def by (auto simp del: fun_upd_apply)
  qed
  ultimately show ?thesis
    using f(2) step c by (intro exI[of _ "acc\<lparr>acc_transaction := tx', acc_is_transaction_active := False\<rparr>"] exI[of _ "calls cs db8"]
        exI[of _ "mv_of ?A db7"]) auto
qed

section \<open>The abort of a commit\<close>

lemma ticked_step:
  assumes ok: "db_ok A db" and lim: "db_timestamp db < kTransactionInitialId" and t: "ticked db db'"
  shows "mv_step Internal i (mv_of A db) (mv_of A db')" "db_ok A db'" "mv_of A db' = (mv_of A db)\<lparr>mv_now := db_timestamp db + 1\<rparr>"
proof -
  show eq: "mv_of A db' = (mv_of A db)\<lparr>mv_now := db_timestamp db + 1\<rparr>"
    using t objs_eqI[of db' db] by (simp add: mv_of_def ticked_def)
  show step: "mv_step Internal i (mv_of A db) (mv_of A db')"
    using mv_step.tick[of "mv_of A db" i] lim eq by simp
  have "store_ok db'" "log_ok A db'"
    using ok t by (auto simp: db_ok_def store_ok_def log_ok_def ticked_def)
  then show "db_ok A db'"
    using mv_step_inv[OF step] ok by (simp add: db_ok_def)
qed

lemma log_ok_mark:
  assumes "log_ok A db" and "t \<notin> finished (db_commit_log db)" and "t < db_timestamp db" and "\<forall>j U. A j = Some U \<longrightarrow> tx_start U \<noteq> t"
  shows "log_ok A (mark_finished t db)"
proof -
  have "cl_inv (db_commit_log (mark_finished t db))" "finished (db_commit_log (mark_finished t db)) = insert t (finished (db_commit_log db))"
    using assms(1,2) cl.mark_inv cl.mark_fin by (auto simp: log_ok_def)
  then show ?thesis
    using assms unfolding log_ok_def by auto
qed

lemma db_ok_mark:
  assumes "db_ok A db" and "t \<notin> finished (db_commit_log db)" and "t < db_timestamp db" and "\<forall>j U. A j = Some U \<longrightarrow> tx_start U \<noteq> t"
  shows "db_ok A (mark_finished t db)" "mv_of A (mark_finished t db) = mv_of A db"
proof -
  show "mv_of A (mark_finished t db) = mv_of A db"
    using objs_eqI[of "mark_finished t db" db] by (simp add: mv_of_def)
  then show "db_ok A (mark_finished t db)"
    using assms log_ok_mark[of A db t] by (simp add: db_ok_def store_ok_def)
qed

lemma AbortAndResetCommitTs_step:
  assumes ok: "db_ok A db" and T: "A i = Some (acc_transaction acc)" and act: "acc_is_transaction_active acc"
    and c: "acc_commit_timestamp acc = Some (db_timestamp db)" and lim: "db_timestamp db < kTransactionInitialId" and t: "ticked db db2"
  shows "\<exists>acc' db'. AbortAndResetCommitTs acc db2 = Inr (acc', db') \<and> mv_step Abort_tx i (mv_of A db2) (mv_of (A(i := None)) db') \<and>
    db_ok (A(i := None)) db' \<and> \<not> acc_is_transaction_active acc' \<and> acc_commit_timestamp acc' = None \<and> tx_deltas (acc_transaction acc') = [] \<and>
    same_ids db2 db' \<and>
    db_commit_log db' = MarkFinished (db_timestamp db) (MarkFinished (tx_start (acc_transaction acc)) (db_commit_log db))"
proof -
  let ?T = "acc_transaction acc" and ?A = "A(i := None)"
  obtain acc1 db1 where a: "Abort acc db2 = Inr (acc1, db1)" "mv_step Abort_tx i (mv_of A db2) (mv_of ?A db1)" "db_ok ?A db1"
    "\<not> acc_is_transaction_active acc1" "acc_commit_timestamp acc1 = acc_commit_timestamp acc" "tx_deltas (acc_transaction acc1) = []"
    "same_ids db2 db1" "db_commit_log db1 = MarkFinished (tx_start ?T) (db_commit_log db2)"
    using Abort_step[OF ticked_step(2)[OF ok lim t] T act] by blast
  have old: "cl_inv (db_commit_log db)" "tx_start ?T \<notin> finished (db_commit_log db)" "finished (db_commit_log db) \<subseteq> {..<db_timestamp db}"
    using ok T by (auto simp: db_ok_def log_ok_def)
  have start: "tx_start ?T < db_timestamp db"
    using db_ok_tx[OF ok T] by (simp add: tx_ok_def)
  have log: "db_commit_log db2 = db_commit_log db" "db_timestamp db1 = db_timestamp db + 1"
    using t a(7) by (simp_all add: ticked_def same_ids_def)
  then have "db_timestamp db \<notin> finished (db_commit_log db1)"
    using cl.mark_fin[OF old(1,2)] old(3) start a(8) by auto
  moreover have "\<forall>j U. ?A j = Some U \<longrightarrow> tx_start U \<noteq> db_timestamp db"
    by (auto dest!: start_before[OF ok])
  ultimately have "db_ok ?A (mark_finished (db_timestamp db) db1)" "mv_of ?A (mark_finished (db_timestamp db) db1) = mv_of ?A db1"
    using db_ok_mark[OF a(3), of "db_timestamp db"] log(2) by simp_all
  moreover have "AbortAndResetCommitTs acc db2 = Inr (acc1\<lparr>acc_commit_timestamp := None\<rparr>, mark_finished (db_timestamp db) db1)"
    using a(1,5) c by (simp add: AbortAndResetCommitTs_def)
  ultimately show ?thesis
    using a log(1) by (simp add: same_ids_def)
qed

section \<open>The outcome of a commit\<close>

definition kept_ids :: "db \<Rightarrow> db \<Rightarrow> bool" where
  "kept_ids db db' \<longleftrightarrow> db_transaction_id db' = db_transaction_id db \<and> db_vertex_id db' = db_vertex_id db \<and> db_edge_id db' = db_edge_id db \<and>
    db_config db' = db_config db"

text \<open>The transaction is committed: the machine made a commit step, and perhaps discarded chains.\<close>

definition commits :: "nat \<Rightarrow> actives \<Rightarrow> db \<Rightarrow> transaction \<Rightarrow> accessor \<Rightarrow> db \<Rightarrow> bool" where
  "commits i A db T acc' db' \<longleftrightarrow>
    (\<exists>m. mv_step Commit i (mv_of A db) m \<and> gc_after i (A(i := None)) m db T acc' db') \<and>
    db_ok (A(i := None)) db' \<and> \<not> acc_is_transaction_active acc' \<and> acc_commit_timestamp acc' = Some (db_timestamp db) \<and>
    db_timestamp db' = db_timestamp db + 1 \<and> finished (db_commit_log db') = insert (tx_start T) (finished (db_commit_log db)) \<and> kept_ids db db'"

text \<open>The transaction is rolled back, perhaps after its commit timestamp was taken.\<close>

definition aborts :: "nat \<Rightarrow> actives \<Rightarrow> db \<Rightarrow> transaction \<Rightarrow> accessor \<Rightarrow> db \<Rightarrow> bool" where
  "aborts i A db T acc' db' \<longleftrightarrow>
    (\<exists>m. (m = mv_of A db \<or> m = (mv_of A db)\<lparr>mv_now := db_timestamp db + 1\<rparr> \<and> mv_step Internal i (mv_of A db) m) \<and>
      mv_step Abort_tx i m (mv_of (A(i := None)) db')) \<and>
    db_ok (A(i := None)) db' \<and> \<not> acc_is_transaction_active acc' \<and> acc_commit_timestamp acc' = None \<and> tx_deltas (acc_transaction acc') = [] \<and>
    db_timestamp db \<le> db_timestamp db' \<and>
    finished (db_commit_log db') = insert (tx_start T) (finished (db_commit_log db) \<union> {db_timestamp db..<db_timestamp db'}) \<and> kept_ids db db' \<and>
    gc_core (db_gc db') = gc_core (db_gc db)"

lemma log_okD:
  "db_ok A db \<Longrightarrow> cl_inv (db_commit_log db)" "db_ok A db \<Longrightarrow> A i = Some T \<Longrightarrow> tx_start T \<notin> finished (db_commit_log db)"
  "db_ok A db \<Longrightarrow> t \<in> finished (db_commit_log db) \<Longrightarrow> t < db_timestamp db"
  by (auto simp: db_ok_def log_ok_def)

lemma FinalizeCommitPhase_commits:
  assumes "db_ok A db" and T: "A i = Some (acc_transaction acc)" and "tx_commit_info (acc_transaction acc) = Some i"
    and "acc_commit_timestamp acc = Some (db_timestamp db)" and "db_timestamp db < kTransactionInitialId" and "ticked db db2"
  shows "\<exists>acc' db'. FinalizeCommitPhase env w t acc db2 = (Inr (), acc', db') \<and> commits i A db (acc_transaction acc) acc' db'"
  using FinalizeCommitPhase_step[OF assms, of env w t] cl.mark_fin[OF log_okD(1)[OF assms(1)] log_okD(2)[OF assms(1,2)]]
  unfolding commits_def ended_def kept_ids_def by fastforce

lemma Abort_aborts:
  assumes "db_ok A db" and "A i = Some (acc_transaction acc)" and "acc_is_transaction_active acc" and "acc_commit_timestamp acc = None"
  shows "\<exists>acc' db'. Abort acc db = Inr (acc', db') \<and> aborts i A db (acc_transaction acc) acc' db'"
  using Abort_step[OF assms(1-3)] assms(4) cl.mark_fin[OF log_okD(1)[OF assms(1)] log_okD(2)[OF assms(1,2)]]
  unfolding aborts_def same_ids_def kept_ids_def by fastforce

lemma AbortAndResetCommitTs_aborts:
  assumes ok: "db_ok A db" and T: "A i = Some (acc_transaction acc)" and "acc_is_transaction_active acc"
    and "acc_commit_timestamp acc = Some (db_timestamp db)" and lim: "db_timestamp db < kTransactionInitialId" and t: "ticked db db2"
  shows "\<exists>acc' db'. AbortAndResetCommitTs acc db2 = Inr (acc', db') \<and> aborts i A db (acc_transaction acc) acc' db'"
proof -
  let ?T = "acc_transaction acc"
  note log = log_okD[OF ok]
  have "db_timestamp db \<notin> insert (tx_start ?T) (finished (db_commit_log db))"
    using log(3) start_before[OF ok T] by auto
  then have "finished (MarkFinished (db_timestamp db) (MarkFinished (tx_start ?T) (db_commit_log db))) =
      insert (tx_start ?T) (finished (db_commit_log db) \<union> {db_timestamp db..<db_timestamp db + 1})"
    using cl.mark_fin[OF log(1) log(2)[OF T]] cl.mark_inv[OF log(1) log(2)[OF T]] cl.mark_fin[of "MarkFinished (tx_start ?T) (db_commit_log db)"]
    by (auto simp: atLeastLessThanSuc)
  then show ?thesis
    using AbortAndResetCommitTs_step[OF assms] ticked_step(1)[OF ok lim t, of i] ticked_step(3)[OF ok lim t] t
    unfolding aborts_def same_ids_def ticked_def kept_ids_def by auto
qed

lemma gc_after_calls [simp]: "gc_after i A m db T acc' (calls cs db') \<longleftrightarrow> gc_after i A m db T acc' db'"
proof -
  have m: "mv_of A (calls cs db') = mv_of A db'"
    by (rule mv_of_quiet) simp
  have "objs (calls cs db') = objs db'"
    by (rule objs_eqI) simp_all
  then show ?thesis
    unfolding gc_after_def gc_discarded_def m by simp
qed

lemma commits_calls: "commits i A db T acc' (calls cs db') \<longleftrightarrow> commits i A db T acc' db'"
  using mv_of_quiet[of db' "calls cs db'" "A(i := None)"] db_ok_quiet[of db' "calls cs db'" "A(i := None)"]
  by (simp add: commits_def kept_ids_def)

lemma ticked_calls [simp]: "ticked db (calls cs db') = ticked db db'"
  by (simp add: ticked_def)

lemma FinalizeReplication_failures:
  "rt_replication_failures (snd (FinalizeReplication decision clients t)) = rt_replication_failures t"
  by (simp add: FinalizeReplication_def fold_finalize_client)

lemma commit_main_outcome:
  assumes ok: "db_ok A db" and T: "A i = Some (acc_transaction acc)" and act: "acc_is_transaction_active acc"
    and ci: "tx_commit_info (acc_transaction acc) = Some i"
    and c: "acc_commit_timestamp acc = Some (db_timestamp db)" and lim: "db_timestamp db < kTransactionInitialId" and t: "ticked db db0"
    and r: "fst (commit_main env clients k acc db0) = (r, acc', db')"
  shows "if fatal_error r then aborts i A db (acc_transaction acc) acc' db' else commits i A db (acc_transaction acc) acc' db'"
proof -
  define db1 where "db1 = calls (wal_calls k (two_phase clients)) db0"
  have t1: "ticked db db1"
    using t by (simp add: db1_def)
  obtain b txn1 where s: "ShipDeltas clients (TransactionReplication clients) = (b, txn1)"
    by (cases "ShipDeltas clients (TransactionReplication clients)")
  have votes: "rt_run_two_phase_commit txn1 = two_phase clients" "rt_replication_failures txn1 = [] \<longleftrightarrow> b"
    using ShipDeltas_votes[of clients] s by auto
  obtain acc1 db2 where f: "FinalizeCommitPhase env (two_phase clients) k acc db1 = (Inr (), acc1, db2)"
    "commits i A db (acc_transaction acc) acc1 db2"
    using FinalizeCommitPhase_commits[OF ok T ci c lim t1] by blast
  obtain b' txn2 where fr: "FinalizeReplication b clients txn1 = (b', txn2)" "rt_replication_failures txn2 = rt_replication_failures txn1"
    using FinalizeReplication_failures[of b clients txn1] by (cases "FinalizeReplication b clients txn1") auto
  consider "\<not> two_phase clients" | "two_phase clients" b | "two_phase clients" "\<not> b"
    by blast
  then show ?thesis
  proof cases
    case 1
    then show ?thesis
      using r s votes f by (auto simp: commit_main_def db1_def Let_def fatal_error_def CollectAllFailures_def split: if_splits)
  next
    case 2
    then show ?thesis
      using r s votes f fr commits_calls
      by (auto simp: commit_main_def db1_def Let_def fatal_error_def CollectAllFailures_def split: if_splits)
  next
    case 3
    obtain acc3 db3 where "AbortAndResetCommitTs acc (call Wal_Finalize db1) = Inr (acc3, db3)" "aborts i A db (acc_transaction acc) acc3 db3"
      using AbortAndResetCommitTs_aborts[OF ok T act c lim, of "call Wal_Finalize db1"] t1 by auto
    then show ?thesis
      using r s votes fr 3
      by (auto simp: commit_main_def db1_def Let_def fatal_error_def CollectAllFailures_def abort_with_def split: if_splits)
  qed
qed

lemma ensure_commit_info_progress:
  assumes ok: "db_ok A db" and T: "A i = Some (acc_transaction acc)" and r: "ensure_commit_info acc db = (acc1, db1)"
  shows "progress i A db (acc_transaction acc1) db1" "tx_commit_info (acc_transaction acc1) = Some i"
    "tx_start (acc_transaction acc1) = tx_start (acc_transaction acc)" "acc_is_transaction_active acc1 = acc_is_transaction_active acc"
    "acc_commit_timestamp acc1 = acc_commit_timestamp acc" "db_timestamp db1 = db_timestamp db" "db_commit_log db1 = db_commit_log db"
    "frame db db1" "objs db1 = objs db"
proof -
  let ?T = "acc_transaction acc"
  obtain T1 h1 where e: "EnsureCommitInfoExists ?T (db_heap db) = (T1, h1)"
    by (cases "EnsureCommitInfoExists ?T (db_heap db)")
  have acc1: "acc1 = acc\<lparr>acc_transaction := T1\<rparr>" "db1 = db\<lparr>db_heap := h1\<rparr>"
    using r e by (simp_all add: ensure_commit_info_def)
  have T1: "tx_step ?T (db_heap db) T1 h1" "tx_deltas T1 = tx_deltas ?T" "tx_commit_info T1 = Some i" "tx_start T1 = tx_start ?T"
    using e db_ok_tx[OF ok T] by (auto simp: EnsureCommitInfoExists_def tx_ok_def tx_step_def split: option.splits)
  show "progress i A db (acc_transaction acc1) db1"
    using T1 acc1 by (intro progress_local[OF ok T]) simp_all
  show "objs db1 = objs db"
    by (rule objs_eqI) (simp_all add: acc1)
qed (use r db_ok_tx[OF ok T] in \<open>auto simp: ensure_commit_info_def EnsureCommitInfoExists_def tx_ok_def split: option.splits prod.splits\<close>)

text \<open>A transaction that may commit: it wrote something or changed metadata, and saw no serialization error.\<close>

definition may_commit :: "commit_env \<Rightarrow> accessor \<Rightarrow> bool" where
  "may_commit env acc \<longleftrightarrow> acc_is_transaction_active acc \<and> \<not> tx_has_serialization_error (acc_transaction acc) \<and>
    (tx_deltas (acc_transaction acc) \<noteq> [] \<or> ce_has_md_deltas env) \<and> acc_commit_timestamp acc = None \<and>
    (case ce_role env of ReplicaWrite _ two_phase_commit \<Rightarrow> \<not> two_phase_commit | _ \<Rightarrow> True)"

lemma PrepareForCommitPhase_outcome:
  assumes ok: "db_ok A db" and T: "A i = Some (acc_transaction acc)" and may: "may_commit env acc"
    and lim: "db_timestamp db < kTransactionInitialId" and r: "PrepareForCommitPhase env acc db = (r, acc', db')"
  shows "\<exists>T1 db1. progress i A db T1 db1 \<and> tx_start T1 = tx_start (acc_transaction acc) \<and> frame db db1 \<and> objs db1 = objs db \<and>
    (if fatal_error r then aborts i (A(i \<mapsto> T1)) db1 T1 acc' db' else commits i (A(i \<mapsto> T1)) db1 T1 acc' db')"
proof -
  obtain acc1 db1 where e: "ensure_commit_info acc db = (acc1, db1)"
    by (cases "ensure_commit_info acc db")
  note en = ensure_commit_info_progress[OF ok T e]
  let ?T = "acc_transaction acc1"
  define A1 where "A1 = A(i \<mapsto> ?T)"
  have ok1: "db_ok A1 db1"
    unfolding A1_def by (rule progress_db_ok[OF ok T en(1)])
  have T1: "A1 i = Some (acc_transaction acc1)" and act: "acc_is_transaction_active acc1" and none: "acc_commit_timestamp acc1 = None"
    using may en by (simp_all add: may_commit_def A1_def)
  define acc2 where "acc2 = acc1\<lparr>acc_commit_timestamp := Some (db_timestamp db1)\<rparr>"
  define db2 where "db2 = db1\<lparr>db_timestamp := db_timestamp db1 + 1\<rparr>"
  have t2: "ticked db1 db2" and lim1: "db_timestamp db1 < kTransactionInitialId"
    using lim en(6) by (simp_all add: ticked_def db2_def)
  have T2: "A1 i = Some (acc_transaction acc2)" "acc_is_transaction_active acc2" "tx_commit_info (acc_transaction acc2) = Some i"
    "acc_commit_timestamp acc2 = Some (db_timestamp db1)" "acc_transaction acc2 = ?T"
    using act en(2) by (simp_all add: acc2_def A1_def)
  note reset = AbortAndResetCommitTs_aborts[OF ok1 T2(1,2,4) lim1 t2]
    and fin = FinalizeCommitPhase_commits[OF ok1 T2(1,3,4) lim1]
    and main = commit_main_outcome[OF ok1 T2(1-4) lim1 t2]
  have r1: "(if \<not> durability_allowed (ce_role env) then abort_with ReplicaShouldNotWriteError (Abort acc1 db1) acc1 db1
     else if \<not> ce_existence_ok env then abort_with Existence_violation (Abort acc1 db1) acc1 db1
     else if \<not> ce_unique_ok env then abort_with Unique_violation (AbortAndResetCommitTs acc2 db2) acc2 db2
     else (case durable_timestamp (ce_role env) (db_timestamp db1) of
         Inl e \<Rightarrow> (Inl e, acc2, db2)
       | Inr t \<Rightarrow>
           if \<not> ce_wal_initialized env then FinalizeCommitPhase env False t acc2 db2
           else (case ce_role env of
               ReplicaWrite _ two_phase_commit \<Rightarrow>
                 let db3 = calls (wal_calls t two_phase_commit) db2
                 in if two_phase_commit then (Inr (), acc2, db3) else FinalizeCommitPhase env False t acc2 db3
             | Main clients \<Rightarrow> fst (commit_main env clients t acc2 db2)
             | ReplicaRead \<Rightarrow> (Inl Commit_assertion, acc2, db2)))) = (r, acc', db')"
  proof -
    have go: "\<not> (\<not> acc_is_transaction_active acc \<or> tx_has_serialization_error (acc_transaction acc))"
      "\<not> (tx_deltas (acc_transaction acc) = [] \<and> \<not> ce_has_md_deltas env)"
      using may by (auto simp: may_commit_def)
    show ?thesis
      unfolding r[symmetric] PrepareForCommitPhase_def Let_def e prod.case GetCommitTimestamp_def acc2_def db2_def if_not_P[OF go(1)] if_not_P[OF go(2)]
      by (rule refl)
  qed
  have out: "if fatal_error r then aborts i A1 db1 ?T acc' db' else commits i A1 db1 ?T acc' db'"
  proof (cases "durability_allowed (ce_role env) \<and> ce_existence_ok env")
    case False
    then show ?thesis
      using r1 Abort_aborts[OF ok1 T1 act none] by (auto simp: abort_with_def fatal_error_def split: if_splits)
  next
    case valid: True
    show ?thesis
    proof (cases "ce_unique_ok env")
      case False
      then show ?thesis
        using r1 valid reset T2(5) by (auto simp: abort_with_def fatal_error_def)
    next
      case True
      show ?thesis
      proof (cases "ce_role env")
        case (Main clients)
        then show ?thesis
          using r1 valid True fin[OF t2, of env False "db_timestamp db1"] main[of env clients "db_timestamp db1" r acc' db'] T2(5)
          by (auto simp: fatal_error_def split: if_splits)
      next
        case (ReplicaWrite t two)
        then show ?thesis
          using r1 valid True may fin[of db2 env False t] fin[of "calls (wal_calls t False) db2" env False t] t2 T2(5)
          by (auto simp: fatal_error_def may_commit_def Let_def split: if_splits)
      next
        case ReplicaRead
        then show ?thesis
          using valid by simp
      qed
    qed
  qed
  then show ?thesis
    using en(1,3,8,9) unfolding A1_def by blast
qed

end
