(* ===== verification/DeleteSteps.thy ===== *)
theory DeleteSteps
  imports EdgeSteps
begin

text \<open>
  Deletions are steps of the multi-version machine, when they succeed.  Edges are taken from the vectors of their ends
  and marked as deleted, with a delta for each; the detaching loop takes them out of the vector only after
  all its deltas were created, so its intermediate states are compared with states in which they are already out.
\<close>

section \<open>Successful actions\<close>

lemma bind_act_Inr:
  "bind_act m f T db = (Inr x, T', db') \<longleftrightarrow> (\<exists>y T1 db1. m T db = (Inr y, T1, db1) \<and> f y T1 db1 = (Inr x, T', db'))"
  by (auto simp: bind_act_def split: prod.splits sum.splits)

lemma action_Inr:
  "ret y T db = (Inr x, T', db') \<longleftrightarrow> x = y \<and> T' = T \<and> db' = db"
  "fail e T db \<noteq> (Inr x, T', db')"
  "get_db T db = (Inr d, T', db') \<longleftrightarrow> d = db \<and> T' = T \<and> db' = db"
  "get_tx T db = (Inr t, T', db') \<longleftrightarrow> t = T \<and> T' = T \<and> db' = db"
  "modify_db h T db = (Inr u, T', db') \<longleftrightarrow> T' = T \<and> db' = h db"
  "modify_tx k T db = (Inr u, T', db') \<longleftrightarrow> T' = k T \<and> db' = db"
  "ensure b e T db = (Inr u, T', db') \<longleftrightarrow> b \<and> T' = T \<and> db' = db"
  by (auto simp: action_defs)

lemma get_Inr:
  "get_vertex g T db = (Inr v, T', db') \<longleftrightarrow> db_vertices db g = Some v \<and> T' = T \<and> db' = db"
  "get_edge e T db = (Inr y, T', db') \<longleftrightarrow> db_edges db e = Some y \<and> T' = T \<and> db' = db"
  by (auto simp: get_vertex_def get_edge_def bind_act_Inr action_Inr split: option.splits)

lemma prepare_vertex_Inr:
  assumes "db_ok A db"
  shows "prepare_vertex g T db = (Inr u, T', db') \<longleftrightarrow>
    (\<exists>v. db_vertices db g = Some v \<and> writable (db_heap db) T (v_deltas v)) \<and> T' = T \<and> db' = db"
proof (cases "db_vertices db g")
  case (Some v)
  obtain b T1 where p: "PrepareForWrite (db_heap db) T (v_deltas v) False = (b, T1)"
    by (cases "PrepareForWrite (db_heap db) T (v_deltas v) False")
  have "b \<longleftrightarrow> writable (db_heap db) T (v_deltas v)" "T1 = (if b then T else T\<lparr>tx_has_serialization_error := True\<rparr>)"
    using PrepareForWrite_writable[OF db_ok_chain(1)[OF assms Some], of T] PrepareForWrite_tx[of "db_heap db" T "v_deltas v" False] p by auto
  then show ?thesis
    using Some p vertex_flag[OF assms Some] by (cases b) (auto simp: prepare_vertex_def bind_act_Inr get_Inr)
qed (auto simp: prepare_vertex_def bind_act_Inr get_Inr)

lemma prepare_edge_Inr:
  assumes "db_ok A db"
  shows "prepare_edge e T db = (Inr u, T', db') \<longleftrightarrow>
    (\<exists>x. db_edges db e = Some x \<and> writable (db_heap db) T (e_deltas x)) \<and> T' = T \<and> db' = db"
proof (cases "db_edges db e")
  case (Some x)
  obtain b T1 where p: "PrepareForWrite (db_heap db) T (e_deltas x) False = (b, T1)"
    by (cases "PrepareForWrite (db_heap db) T (e_deltas x) False")
  have "b \<longleftrightarrow> writable (db_heap db) T (e_deltas x)" "T1 = (if b then T else T\<lparr>tx_has_serialization_error := True\<rparr>)"
    using PrepareForWrite_writable[OF db_ok_edge_chain(1)[OF assms Some], of T] PrepareForWrite_tx[of "db_heap db" T "e_deltas x" False] p by auto
  then show ?thesis
    using Some p by (cases b) (auto simp: prepare_edge_def bind_act_Inr get_Inr)
qed (auto simp: prepare_edge_def bind_act_Inr get_Inr)

lemma for_each_progress:
  assumes step: "\<And>x s s' A db T T' db'. x \<in> set xs \<Longrightarrow> db_ok A db \<Longrightarrow> A i = Some T \<Longrightarrow> f x s T db = (Inr s', T', db') \<Longrightarrow> progress i A db T' db'"
    and "db_ok A db" and "A i = Some T" and "for_each f xs s T db = (Inr s', T', db')"
  shows "progress i A db T' db'"
  using assms
proof (induction xs arbitrary: s A db T)
  case Nil
  then show ?case
    by (simp add: action_Inr progress_refl)
next
  case (Cons x xs)
  obtain s1 T1 db1 where 1: "f x s T db = (Inr s1, T1, db1)" "for_each f xs s1 T1 db1 = (Inr s', T', db')"
    using Cons.prems(4) by (auto simp: bind_act_Inr)
  have p: "progress i A db T1 db1"
    by (rule Cons.prems(1)[OF _ Cons.prems(2,3) 1(1)]) simp
  have "progress i (A(i \<mapsto> T1)) db1 T' db'"
  proof (rule Cons.IH[OF _ progress_db_ok[OF Cons.prems(2,3) p] _ 1(2)])
    show "progress i B c T2 c'" if "y \<in> set xs" "db_ok B c" "B i = Some S" "f y q S c = (Inr q', T2, c')" for y q q' B c S T2 c'
      by (rule Cons.prems(1)[OF _ that(2-4)]) (simp add: that(1))
  qed simp
  then show ?case
    by (rule progress_trans[OF p])
qed

section \<open>Marking an edge\<close>

lemma link_edge_Inr:
  "link_edge e op T db = (Inr u, T', db') \<longleftrightarrow>
    (\<exists>x y. db_edges db e = Some x \<and> link_edge_delta x op T db = (y, T', db'))"
proof (cases "db_edges db e")
  case (Some x)
  then show ?thesis
    by (cases "link_edge_delta x op T db") (auto simp: link_edge_def bind_act_Inr get_Inr)
qed (simp add: link_edge_def bind_act_Inr get_Inr)

lemma link_vertex_Inr:
  "link_vertex g op T db = (Inr u, T', db') \<longleftrightarrow>
    (\<exists>v w. db_vertices db g = Some v \<and> link_vertex_delta v op T db = (w, T', db'))"
proof (cases "db_vertices db g")
  case (Some v)
  then show ?thesis
    by (cases "link_vertex_delta v op T db") (auto simp: link_vertex_def bind_act_Inr get_Inr)
qed (simp add: link_vertex_def bind_act_Inr get_Inr)

lemma update_Inr:
  "update_edge e k T db = (Inr u, T', db') \<longleftrightarrow> (\<exists>x. db_edges db e = Some x \<and> T' = T \<and> db' = put_edge (k x) db)"
  "update_vertex g h T db = (Inr u, T', db') \<longleftrightarrow> (\<exists>v. db_vertices db g = Some v \<and> T' = T \<and> db' = put_vertex (h v) db)"
  by (auto simp: update_edge_def update_vertex_def bind_act_Inr get_Inr action_Inr)

lemma MarkEdgeAsDeleted_progress:
  assumes ok: "db_ok A db" and T: "A i = Some T" and x: "db_edges db e = Some x" "writable (db_heap db) T (e_deltas x)"
    and r: "MarkEdgeAsDeleted e T db = (Inr u, T', db')"
  shows "progress i A db T' db'" "tx_step T (db_heap db) T' (db_heap db')" "db_vertices db' = db_vertices db" "frame db db'"
proof -
  have all: "progress i A db T' db' \<and> tx_step T (db_heap db) T' (db_heap db') \<and> db_vertices db' = db_vertices db \<and> frame db db'"
  proof (cases "e_deleted x")
    case True
    then show ?thesis
      using r x(1) progress_refl[OF ok T] tx_step_refl[OF db_ok_tx[OF ok T]] by (auto simp: MarkEdgeAsDeleted_def bind_act_Inr get_Inr action_Inr)
  next
    case False
    have e: "edge_ok e x"
      using ok x(1) by (simp add: db_ok_def store_ok_def)
    obtain d T1 db1 where l: "link_edge_delta x RECREATE_OBJECT T db = (x\<lparr>e_deltas := d # e_deltas x\<rparr>, T1, db1)" "d_op d = RECREATE_OBJECT"
      "linked (Owner_edge e) T (db_heap db) T1 (db_heap db1) [d]" "frame db db1"
      "db_edges db1 = (db_edges db)(e \<mapsto> x\<lparr>e_deltas := d # e_deltas x\<rparr>)" "db_vertices db1 = db_vertices db"
      using link_edge_delta_linked[OF db_ok_tx[OF ok T], of RECREATE_OBJECT x] e by (auto simp: edge_ok_def)
    let ?x = "x\<lparr>e_deltas := d # e_deltas x, e_deleted := True\<rparr>"
    have db': "T' = T1" "db_edges db' = (db_edges db)(e \<mapsto> ?x)" "db_vertices db' = db_vertices db" "db_heap db' = db_heap db1" "frame db db'"
      using r x(1) False l e by (auto simp: MarkEdgeAsDeleted_def bind_act_Inr get_Inr action_Inr link_edge_Inr update_Inr edge_ok_def)
    have "progress i A db T' db'"
      by (rule progress_edge[OF ok T x(1) False x(2), where new = "[d]" and x' = ?x])
         (use l db' e False in \<open>auto simp: linked_def edge_ok_def edge_op_def undoable_def aundo_def abs_edge_def\<close>)
    then show ?thesis
      using l(3) db' by (simp add: linked_def pushed_def)
  qed
  then show "progress i A db T' db'" "tx_step T (db_heap db) T' (db_heap db')" "db_vertices db' = db_vertices db" "frame db db'"
    by simp_all
qed

text \<open>Marking an edge does not look at the vertices.\<close>

lemma put_vertex_commute:
  "put_edge x (put_vertex v db) = put_vertex v (put_edge x db)"
  "(put_vertex v db)\<lparr>db_heap := h\<rparr> = put_vertex v (db\<lparr>db_heap := h\<rparr>)"
  "(put_vertex v db)\<lparr>db_edge_count := k\<rparr> = put_vertex v (db\<lparr>db_edge_count := k\<rparr>)"
  "calls cs (put_vertex v db) = put_vertex v (calls cs db)"
  by (simp_all add: put_vertex_def put_edge_def calls_def)

lemma MarkEdgeAsDeleted_put_vertex:
  "MarkEdgeAsDeleted e T (put_vertex v db) = (case MarkEdgeAsDeleted e T db of (r, T', db') \<Rightarrow> (r, T', put_vertex v db'))"
  by (auto simp: MarkEdgeAsDeleted_def get_edge_def link_edge_def update_edge_def link_edge_delta_def action_defs put_vertex_commute Let_def
      split: option.splits prod.splits if_splits)

lemma when_edge_objects_Inr:
  "when_edge_objects m T db = (Inr u, T', db') \<longleftrightarrow>
    (if cfg_properties_on_edges (db_config db) then m T db = (Inr u, T', db') else T' = T \<and> db' = db)"
  by (auto simp: when_edge_objects_def bind_act_Inr action_Inr)

text \<open>An edge that is marked when there are edge objects, on a store in which one vertex was replaced.\<close>

lemma mark_progress:
  assumes ok: "db_ok A db" and T: "A i = Some T"
    and x: "when_edge_objects (prepare_edge e) T db = (Inr (), T, db)"
    and r: "when_edge_objects (MarkEdgeAsDeleted e) T (put_vertex w db) = (Inr (), T', db')"
  shows "\<exists>db1. db' = put_vertex w db1 \<and> progress i A db T' db1 \<and> tx_step T (db_heap db) T' (db_heap db1) \<and>
    db_vertices db1 = db_vertices db \<and> frame db db1"
proof (cases "cfg_properties_on_edges (db_config db)")
  case True
  then obtain y where y: "db_edges db e = Some y" "writable (db_heap db) T (e_deltas y)"
    using x unfolding when_edge_objects_Inr prepare_edge_Inr[OF ok] by auto
  obtain r1 T1 db1 where 1: "MarkEdgeAsDeleted e T db = (r1, T1, db1)"
    by (cases "MarkEdgeAsDeleted e T db")
  then have "r1 = Inr ()" "T1 = T'" "db' = put_vertex w db1"
    using r True by (auto simp: when_edge_objects_Inr MarkEdgeAsDeleted_put_vertex)
  then show ?thesis
    using MarkEdgeAsDeleted_progress[OF ok T y] 1 by blast
next
  case False
  then have "T' = T" "db' = put_vertex w db"
    using r by (auto simp: when_edge_objects_Inr)
  then show ?thesis
    using progress_refl[OF ok T] tx_step_refl[OF db_ok_tx[OF ok T]] by auto
qed

section \<open>Taking an edge out of a vector\<close>

lemma set_edges_simps [simp]:
  "edges_of dir (set_edges dir f v) = f (edges_of dir v)" "v_gid (set_edges dir f v) = v_gid v" "v_deltas (set_edges dir f v) = v_deltas v"
  "v_deleted (set_edges dir f v) = v_deleted v" "set_edges dir f (set_edges dir h v) = set_edges dir (f \<circ> h) v"
  "set_edges dir f (v\<lparr>v_deltas := ds\<rparr>) = (set_edges dir f v)\<lparr>v_deltas := ds\<rparr>" "edges_of dir (v\<lparr>v_deltas := ds\<rparr>) = edges_of dir v"
  by (simp_all add: set_edges_def edges_of_def)

definition entry_of :: "EdgeDirection \<Rightarrow> delta_op \<Rightarrow> edge_entry option" where
  "entry_of dir = (if dir = IN_DIR then in_entry else out_entry)"

lemma add_edge_op_simps [simp]:
  "sequential_op (add_edge_op dir entry)" "entry_of dir (add_edge_op dir entry) = Some entry"
  "creates_entry (entry_of dir) (add_edge_op dir entry) = None"
  by (cases entry; simp add: add_edge_op_def entry_of_def creates_entry_def in_entry_def out_entry_def sequential_op_def CanBeNonSequential_def)+

lemma vector_ok_remove:
  assumes v: "vector_ok entry n es ds" and "entry (d_op d) = Some x" "creates_entry entry (d_op d) = None" "insert x (set es') = set es"
  shows "vector_ok entry n es' (d # ds)"
proof -
  have "all_entries entry es' (d # ds) = all_entries entry es ds"
    using assms(2) by (auto simp: all_entries_def assms(4)[symmetric])
  then show ?thesis
    using v assms(3) by (simp add: vector_ok_def)
qed

lemma unlinked_vertex:
  assumes v: "vertex_ok n g v" and e: "edges_of dir v = pre @ entry # post" and d: "d_op d = add_edge_op dir entry"
  defines "v' \<equiv> set_edges dir (\<lambda>_. pre @ post) (v\<lparr>v_deltas := d # v_deltas v\<rparr>)"
  shows "vertex_ok n g v'" "undoable (d_op d) (abs_vertex v')" "aundo (d_op d) (abs_vertex v') = abs_vertex v"
proof -
  obtain t u f where entry: "entry = (t, u, f)"
    by (cases entry)
  have s: "insert entry (set (pre @ post)) = set (pre @ entry # post)"
    by auto
  have vecs: "vector_ok in_entry n (v_in_edges v) (v_deltas v)" "vector_ok out_entry n (v_out_edges v) (v_deltas v)" "vertex_wf v"
    "\<not> v_has_uncommitted_non_sequential_deltas v" "v_gid v = g"
    using v by (auto simp: vertex_ok_def)
  have dist: "distinct (edges_of dir v)"
    using vecs(3) by (simp add: vertex_wf_def edges_of_def)
  show "vertex_ok n g v'"
  proof (cases dir)
    case IN_DIR
    have "vector_ok in_entry n (pre @ post) (d # v_deltas v)"
      by (rule vector_ok_remove[OF vecs(1), where x = entry])
         (use e d s add_edge_op_simps(2,3)[of IN_DIR entry] in \<open>simp_all add: IN_DIR edges_of_def entry_of_def\<close>)
    moreover have "vector_ok out_entry n (v_out_edges v) (d # v_deltas v)"
      by (rule vector_ok_skip[OF vecs(2)]) (simp add: d IN_DIR add_edge_op_def entry out_entry_def)
    ultimately show ?thesis
      using vecs(3-5) dist e by (simp add: IN_DIR v'_def set_edges_def vertex_ok_def vertex_wf_def edges_of_def)
  next
    case OUT_DIR
    have "vector_ok out_entry n (pre @ post) (d # v_deltas v)"
      by (rule vector_ok_remove[OF vecs(2), where x = entry])
         (use e d s add_edge_op_simps(2,3)[of OUT_DIR entry] in \<open>simp_all add: OUT_DIR edges_of_def entry_of_def\<close>)
    moreover have "vector_ok in_entry n (v_in_edges v) (d # v_deltas v)"
      by (rule vector_ok_skip[OF vecs(1)]) (simp add: d OUT_DIR add_edge_op_def entry in_entry_def)
    ultimately show ?thesis
      using vecs(3-5) dist e by (simp add: OUT_DIR v'_def set_edges_def vertex_ok_def vertex_wf_def edges_of_def)
  qed
  show "undoable (d_op d) (abs_vertex v')" "aundo (d_op d) (abs_vertex v') = abs_vertex v"
    using d e dist s by (cases dir; auto simp: v'_def entry add_edge_op_def undoable_def aundo_def abs_vertex_def set_edges_def edges_of_def)+
qed

lemma unlink_entry:
  assumes ok: "db_ok A db" and T: "A i = Some T" and v: "db_vertices db g = Some v" "\<not> v_deleted v" and w: "writable (db_heap db) T (v_deltas v)"
    and e: "edges_of dir v = pre @ entry # post"
    and x: "when_edge_objects (prepare_edge (snd (snd entry))) T db = (Inr (), T, db)"
    and m: "when_edge_objects (MarkEdgeAsDeleted (snd (snd entry))) T (put_vertex (set_edges dir (\<lambda>_. es) v) db) = (Inr (), T1, db1)"
    and l: "link_vertex g (add_edge_op dir entry) T1 db1 = (Inr (), T', dbc)"
  shows "\<exists>u dbv. progress i A db T' dbv \<and> db_vertices dbv g = Some u \<and> \<not> v_deleted u \<and> writable (db_heap dbv) T' (v_deltas u) \<and>
    edges_of dir u = pre @ post \<and> v_gid u = g \<and> dbc = put_vertex (set_edges dir (\<lambda>_. es) u) dbv"
proof -
  obtain dbm where dbm: "db1 = put_vertex (set_edges dir (\<lambda>_. es) v) dbm" "progress i A db T1 dbm"
    "tx_step T (db_heap db) T1 (db_heap dbm)" "db_vertices dbm = db_vertices db" "frame db dbm"
    using mark_progress[OF ok T x m] by blast
  have okm: "db_ok (A(i \<mapsto> T1)) dbm" and T1: "(A(i \<mapsto> T1)) i = Some T1"
    using progress_db_ok[OF ok T dbm(2)] by simp_all
  have vm: "db_vertices dbm g = Some v" and wm: "writable (db_heap dbm) T1 (v_deltas v)"
    using v(1) w dbm(4) writable_step[OF ok T dbm(3) db_ok_chain(1)[OF ok v(1)]] by simp_all
  have vok: "vertex_ok (db_edge_id dbm) g v"
    using vertex_wf_of[OF _ vm] okm by (simp add: db_ok_def)
  then have gid: "v_gid v = g"
    by (simp add: vertex_ok_def)
  let ?w = "set_edges dir (\<lambda>_. es) v"
  obtain d where d: "d_op d = add_edge_op dir entry" "linked (Owner_vertex g) T1 (db_heap dbm) T' (db_heap dbc) [d]"
    "dbc = put_vertex (?w\<lparr>v_deltas := d # v_deltas v\<rparr>) (dbm\<lparr>db_heap := db_heap dbc\<rparr>)"
  proof -
    obtain d T2 h2 where c: "CreateAndLinkDelta (Owner_vertex g) (add_edge_op dir entry) T1 (db_heap dbm) (v_deltas v) = (T2, h2, d # v_deltas v)"
      "d_op d = add_edge_op dir entry" "linked (Owner_vertex g) T1 (db_heap dbm) T2 h2 [d]"
      using CreateAndLinkDelta_linked[OF db_ok_tx[OF okm T1], of "add_edge_op dir entry" "Owner_vertex g" "v_deltas v"] by auto
    have "T' = T2" "dbc = put_vertex (?w\<lparr>v_deltas := d # v_deltas v\<rparr>) (dbm\<lparr>db_heap := h2\<rparr>)"
      using l c(1) gid dbm(1) by (auto simp: link_vertex_Inr link_vertex_delta_def put_vertex_def Let_def)
    then show ?thesis
      using that[of d] c by simp
  qed
  let ?u = "set_edges dir (\<lambda>_. pre @ post) (v\<lparr>v_deltas := d # v_deltas v\<rparr>)"
  let ?db = "put_vertex ?u (dbm\<lparr>db_heap := db_heap dbc\<rparr>)"
  have "progress i (A(i \<mapsto> T1)) dbm T' ?db"
    by (rule progress_linked[OF okm T1 vm v(2) wm, where new = "[d]" and v' = ?u])
       (use d(1,2) unlinked_vertex[OF vok e d(1)] gid in \<open>simp_all\<close>)
  then have "progress i A db T' ?db"
    by (rule progress_trans[OF dbm(2)])
  moreover have "writable (db_heap ?db) T' (v_deltas ?u)"
    using writable_own[OF d(2), of "v_deltas v"] by simp
  moreover have "dbc = put_vertex (set_edges dir (\<lambda>_. es) ?u) ?db"
    by (subst d(3)) (simp add: put_vertex_def gid comp_def)
  ultimately show ?thesis
    using v(2) gid by (intro exI[of _ ?u] exI[of _ ?db]) simp
qed

section \<open>Clearing the edges of the deleted vertices\<close>

lemma report_deleted_Inr:
  "report_deleted dir g entry s T db = (Inr s', T', db') \<Longrightarrow> T' = T \<and> (\<exists>cs. db' = calls cs db)"
proof -
  have "calls [] db = db"
    by (simp add: calls_def)
  then show "report_deleted dir g entry s T db = (Inr s', T', db') \<Longrightarrow> T' = T \<and> (\<exists>cs. db' = calls cs db)"
    by (auto simp: report_deleted_def schema_call_def record_calls_def bind_act_Inr action_Inr Let_def split: prod.splits if_splits)
       (metis)+
qed

lemma progress_calls: "progress i A db T' db' \<Longrightarrow> progress i A db T' (calls cs db')"
  by (erule progress_frame) simp_all

lemma prepare_edge_when:
  assumes "db_ok A db"
  shows "when_edge_objects (prepare_edge e) T db = (Inr u, T', db') \<longleftrightarrow>
    when_edge_objects (prepare_edge e) T db = (Inr (), T, db) \<and> T' = T \<and> db' = db"
  unfolding when_edge_objects_Inr prepare_edge_Inr[OF assms] by auto

lemma clear_edge_progress:
  assumes ok: "db_ok A db" and T: "A i = Some T" and v: "db_vertices db g = Some v" and e: "edges_of dir v = es @ [entry]"
    and r: "clear_edge dir g entry s T db = (Inr s', T', db')"
  shows "progress i A db T' db' \<and> (\<exists>u. db_vertices db' g = Some u \<and> edges_of dir u = es)"
proof -
  have gid: "v_gid v = g"
    using ok v by (simp add: db_ok_def store_ok_def vertex_ok_def)
  obtain t o' f where entry: "entry = (t, o', f)"
    by (cases entry)
  obtain T0 db0 where 0: "when_edge_objects (prepare_edge f) T db = (Inr (), T0, db0)"
    using r unfolding clear_edge_def entry prod.case bind_act_Inr by auto
  have same: "T0 = T" "db0 = db"
    using prepare_edge_when[OF ok, THEN iffD1, OF 0] by simp_all
  obtain T1 db1 db2 where run: "when_edge_objects (prepare_edge f) T db = (Inr (), T, db)" "writable (db_heap db) T (v_deltas v)" "\<not> v_deleted v"
    "when_edge_objects (MarkEdgeAsDeleted f) T (put_vertex (set_edges dir butlast v) db) = (Inr (), T1, db1)"
    "link_vertex g (add_edge_op dir entry) T1 db1 = (Inr (), T', db2)" "\<exists>cs. db' = calls cs db2"
    using r v 0 unfolding clear_edge_def entry prod.case bind_act_Inr same
    by (auto simp: prepare_vertex_Inr[OF ok] get_Inr action_Inr update_Inr dest!: report_deleted_Inr)
  have "set_edges dir butlast v = set_edges dir (\<lambda>_. es) v"
    using e by (simp add: set_edges_def edges_of_def split: if_splits)
  then have m: "when_edge_objects (MarkEdgeAsDeleted (snd (snd entry))) T (put_vertex (set_edges dir (\<lambda>_. es) v) db) = (Inr (), T1, db1)"
    and x: "when_edge_objects (prepare_edge (snd (snd entry))) T db = (Inr (), T, db)" and e': "edges_of dir v = es @ entry # []"
    using run(1,4) e entry by simp_all
  obtain u dbv where u: "progress i A db T' dbv" "db_vertices dbv g = Some u" "edges_of dir u = es" "v_gid u = g"
    "db2 = put_vertex (set_edges dir (\<lambda>_. es) u) dbv"
    using unlink_entry[OF ok T v run(3,2) e' x m run(5)] by auto
  have "set_edges dir (\<lambda>_. es) u = u"
    using u(3) by (auto simp: set_edges_def edges_of_def)
  then have "db2 = dbv"
    using u put_vertex_same[of dbv u] by simp
  then show ?thesis
    using u run(6) progress_calls[OF u(1)] by auto
qed

lemma clear_edges_progress:
  assumes ok: "db_ok A db" and T: "A i = Some T" and r: "clear_edges dir g s T db = (Inr s', T', db')"
  shows "progress i A db T' db'"
proof -
  have loop: "progress i A db T' db'"
    if "db_ok A db" "A i = Some T" "db_vertices db g = Some v" "edges_of dir v = rev es" "for_each (clear_edge dir g) es s T db = (Inr s', T', db')"
    for es A db T s v
    using that
  proof (induction es arbitrary: s A db T v)
    case Nil
    then show ?case
      by (simp add: action_Inr progress_refl)
  next
    case (Cons e es)
    obtain s1 T1 db1 where 1: "clear_edge dir g e s T db = (Inr s1, T1, db1)" "for_each (clear_edge dir g) es s1 T1 db1 = (Inr s', T', db')"
      using Cons.prems(5) by (auto simp: bind_act_Inr)
    obtain u where p: "progress i A db T1 db1" "db_vertices db1 g = Some u" "edges_of dir u = rev es"
      using clear_edge_progress[OF Cons.prems(1-3) _ 1(1), of "rev es"] Cons.prems(4) by auto
    show ?case
      by (rule progress_trans[OF p(1)], rule Cons.IH[OF progress_db_ok[OF Cons.prems(1,2) p(1)] _ p(2,3) 1(2)]) simp
  qed
  obtain v where "db_vertices db g = Some v" "for_each (clear_edge dir g) (rev (edges_of dir v)) s T db = (Inr s', T', db')"
    using r by (auto simp: clear_edges_def bind_act_Inr get_Inr)
  then show ?thesis
    using loop[OF ok T, of v "rev (edges_of dir v)" s] by simp
qed

lemma progress_bind:
  assumes ok: "db_ok A db" and T: "A i = Some T" and r: "bind_act m f T db = (Inr s, T', db')"
    and m: "\<And>y T1 db1. m T db = (Inr y, T1, db1) \<Longrightarrow> progress i A db T1 db1"
    and f: "\<And>y T1 db1. m T db = (Inr y, T1, db1) \<Longrightarrow> db_ok (A(i \<mapsto> T1)) db1 \<Longrightarrow> f y T1 db1 = (Inr s, T', db') \<Longrightarrow>
      progress i (A(i \<mapsto> T1)) db1 T' db'"
  shows "progress i A db T' db'"
proof -
  obtain y T1 db1 where 1: "m T db = (Inr y, T1, db1)" "f y T1 db1 = (Inr s, T', db')"
    using r by (auto simp: bind_act_Inr)
  show ?thesis
    using progress_trans[OF m[OF 1(1)] f[OF 1(1) progress_db_ok[OF ok T m[OF 1(1)]] 1(2)]] .
qed

lemma ClearEdgesOnVertices_progress:
  assumes "db_ok A db" and "A i = Some T" and "ClearEdgesOnVertices vertices s T db = (Inr s', T', db')"
  shows "progress i A db T' db'"
proof (rule for_each_progress[OF _ assms(1,2) assms(3)[unfolded ClearEdgesOnVertices_def]])
  fix g q q' B c S T2 c'
  assume B: "db_ok B c" "B i = Some S" and r: "bind_act (clear_edges IN_DIR g q) (clear_edges OUT_DIR g) S c = (Inr q', T2, c')"
  show "progress i B c T2 c'"
    by (rule progress_bind[OF B r clear_edges_progress[OF B] clear_edges_progress]) simp_all
qed

section \<open>Detaching the edges of the other vertices\<close>

text \<open>The state of the detaching loop is the state in which the handled edges are out of the vector, but for the vector.\<close>

definition masks :: "EdgeDirection \<Rightarrow> gid \<Rightarrow> edge_entry list \<Rightarrow> edge_entry list \<Rightarrow> db \<Rightarrow> db \<Rightarrow> transaction \<Rightarrow> bool" where
  "masks dir g full es dbc dbv T \<longleftrightarrow> (\<exists>u. db_vertices dbv g = Some u \<and> v_gid u = g \<and> \<not> v_deleted u \<and> writable (db_heap dbv) T (v_deltas u) \<and>
     edges_of dir u = es \<and> dbc = put_vertex (set_edges dir (\<lambda>_. full) u) dbv)"

lemma prepare_edge_masked:
  "when_edge_objects (prepare_edge e) T (put_vertex w db) = (Inr (), T', db') \<longleftrightarrow>
   (\<exists>db1. when_edge_objects (prepare_edge e) T db = (Inr (), T', db1) \<and> db' = put_vertex w db1)"
proof -
  have "prepare_edge e T (put_vertex w db) = (case prepare_edge e T db of (r, T1, db1) \<Rightarrow> (r, T1, put_vertex w db1))"
    by (auto simp: prepare_edge_def get_edge_def action_defs split: option.splits prod.splits bool.splits)
  then show ?thesis
    by (auto simp: when_edge_objects_Inr split: prod.splits)
qed

lemma put_vertex_put_vertex: "v_gid w = v_gid u \<Longrightarrow> put_vertex w (put_vertex u db) = put_vertex w db"
  by (simp add: put_vertex_def)

lemma detach_edge_progress:
  assumes ok: "db_ok A db" and T: "A i = Some T" and m: "masks dir g full (kept @ entry # es) dbc db T"
    and r: "detach_edge dir g entry s T dbc = (Inr s', T', dbc')"
  shows "\<exists>db'. progress i A db T' db' \<and> masks dir g full (kept @ es) dbc' db' T'"
proof -
  obtain v where v: "db_vertices db g = Some v" "\<not> v_deleted v" "writable (db_heap db) T (v_deltas v)" "edges_of dir v = kept @ entry # es"
    and dbc: "dbc = put_vertex (set_edges dir (\<lambda>_. full) v) db"
    using m by (auto simp: masks_def)
  obtain t o' f where entry: "entry = (t, o', f)"
    by (cases entry)
  obtain T0 db0 where 0: "when_edge_objects (prepare_edge f) T dbc = (Inr (), T0, db0)"
    using r unfolding detach_edge_def entry prod.case bind_act_Inr by auto
  obtain db00 where 00: "when_edge_objects (prepare_edge f) T db = (Inr (), T0, db00)" "db0 = put_vertex (set_edges dir (\<lambda>_. full) v) db00"
    using 0 unfolding dbc prepare_edge_masked by blast
  have same: "T0 = T" "db0 = dbc"
    using prepare_edge_when[OF ok, THEN iffD1, OF 00(1)] 00(2) dbc by simp_all
  obtain T1 db1 db2 where run: "when_edge_objects (MarkEdgeAsDeleted f) T dbc = (Inr (), T1, db1)"
    "link_vertex g (add_edge_op dir entry) T1 db1 = (Inr (), T', db2)" "\<exists>cs. dbc' = calls cs db2"
    using r 0 unfolding detach_edge_def entry prod.case bind_act_Inr same by (auto dest!: report_deleted_Inr)
  have x: "when_edge_objects (prepare_edge (snd (snd entry))) T db = (Inr (), T, db)"
    and m': "when_edge_objects (MarkEdgeAsDeleted (snd (snd entry))) T (put_vertex (set_edges dir (\<lambda>_. full) v) db) = (Inr (), T1, db1)"
    using prepare_edge_when[OF ok, THEN iffD1, OF 00(1)] run(1) dbc entry by simp_all
  obtain u dbv where u: "progress i A db T' dbv" "db_vertices dbv g = Some u" "\<not> v_deleted u" "writable (db_heap dbv) T' (v_deltas u)"
    "edges_of dir u = kept @ es" "v_gid u = g" "db2 = put_vertex (set_edges dir (\<lambda>_. full) u) dbv"
    using unlink_entry[OF ok T v(1-4) x m' run(2)] by auto
  obtain cs where cs: "dbc' = calls cs db2"
    using run(3) by blast
  have "masks dir g full (kept @ es) dbc' (calls cs dbv) T'"
    using u(2-7) cs by (auto simp: masks_def put_vertex_commute)
  then show ?thesis
    using progress_calls[OF u(1)] by blast
qed

lemma detach_loop_progress:
  assumes "db_ok A db" and "A i = Some T" and "masks dir g full (kept @ es) dbc db T"
    and "for_each (detach_edge dir g) es s T dbc = (Inr s', T', dbc')"
  shows "\<exists>db'. progress i A db T' db' \<and> masks dir g full kept dbc' db' T'"
  using assms
proof (induction es arbitrary: s A db T dbc)
  case Nil
  then show ?case
    using progress_refl by (fastforce simp: action_Inr)
next
  case (Cons e es)
  obtain s1 T1 dbc1 where 1: "detach_edge dir g e s T dbc = (Inr s1, T1, dbc1)" "for_each (detach_edge dir g) es s1 T1 dbc1 = (Inr s', T', dbc')"
    using Cons.prems(4) by (auto simp: bind_act_Inr)
  obtain db1 where p: "progress i A db T1 db1" "masks dir g full (kept @ es) dbc1 db1 T1"
    using detach_edge_progress[OF Cons.prems(1-3) 1(1)] by blast
  obtain db' where "progress i (A(i \<mapsto> T1)) db1 T' db'" "masks dir g full kept dbc' db' T'"
    using Cons.IH[where A = "A(i \<mapsto> T1)", OF progress_db_ok[OF Cons.prems(1,2) p(1)] fun_upd_same p(2) 1(2)] by blast
  then show ?case
    using progress_trans[OF p(1)] by blast
qed

text \<open>Reordering a vector changes nothing of what the store holds.\<close>

lemma reorder_progress:
  assumes ok: "db_ok A db" and T: "A i = Some T" and v: "db_vertices db g = Some v" and es: "set es = set (edges_of dir v)" "distinct es"
  shows "progress i A db T (put_vertex (set_edges dir (\<lambda>_. es) v) db)"
proof -
  let ?v = "set_edges dir (\<lambda>_. es) v"
  let ?db = "put_vertex ?v db"
  have vok: "vertex_ok (db_edge_id db) g v"
    using vertex_wf_of[OF _ v] ok by (simp add: db_ok_def)
  have gid: "v_gid v = g"
    using vok by (simp add: vertex_ok_def)
  have all: "all_entries entry es ds = all_entries entry (edges_of dir v) ds" for entry ds
    using es(1) by (simp add: all_entries_def)
  have "vertex_ok (db_edge_id db) g ?v"
    using vok es all by (cases dir) (auto simp: vertex_ok_def vertex_wf_def vector_ok_def set_edges_def edges_of_def)
  moreover have "abs_vertex ?v = abs_vertex v"
    using es(1) by (auto simp: abs_vertex_def set_edges_def edges_of_def)
  ultimately have "objs ?db = objs db" "store_ok ?db"
    using ok v gid objs_put_vertex[of ?db db g ?v] by (auto simp: db_ok_def store_ok_def fun_upd_idem)
  then show ?thesis
    using T by (simp add: progress_def mv_of_def fun_upd_idem)
qed

lemma clear_other_progress:
  assumes ok: "db_ok A db" and T: "A i = Some T" and r: "clear_edges_on_other_direction dir ids g s T db = (Inr s', T', db')"
  shows "progress i A db T' db'"
proof -
  define sel where "sel = (\<lambda>(t :: edge_type_id, w :: gid, e :: edge_ref). e \<in> set ids)"
  obtain v T1 db1 where v: "db_vertices db g = Some v" "writable (db_heap db) T (v_deltas v)" "\<not> v_deleted v"
    and run: "for_each (detach_edge dir g) (filter sel (edges_of dir v)) s T
        (put_vertex (set_edges dir (\<lambda>_. filter (\<lambda>x. \<not> sel x) (edges_of dir v) @ filter sel (edges_of dir v)) v) db) = (Inr s', T1, db1)"
    and upd: "update_vertex g (set_edges dir (\<lambda>_. filter (\<lambda>x. \<not> sel x) (edges_of dir v))) T1 db1 = (Inr (), T', db')"
    using r unfolding clear_edges_on_other_direction_def bind_act_Inr sel_def[symmetric]
    by (auto simp: prepare_vertex_Inr[OF ok] get_Inr action_Inr update_Inr(2)[of g "set_edges dir (\<lambda>_. filter (\<lambda>x. \<not> sel x) es @ filter sel es)" for es]
        partition_filter_conv bind_act_Inr comp_def Let_def split: prod.splits)
  have gid: "v_gid v = g"
    using ok v by (simp add: db_ok_def store_ok_def vertex_ok_def)
  let ?kept = "filter (\<lambda>x. \<not> sel x) (edges_of dir v)" and ?erased = "filter sel (edges_of dir v)"
  let ?v = "set_edges dir (\<lambda>_. ?kept @ ?erased) v"
  let ?db = "put_vertex ?v db"
  have "distinct (edges_of dir v)"
    using ok v(1) by (auto simp: db_ok_def store_ok_def vertex_ok_def vertex_wf_def edges_of_def)
  then have p: "progress i A db T ?db"
    by (intro reorder_progress[OF ok T v(1)]) auto
  have m: "masks dir g (?kept @ ?erased) (?kept @ ?erased) ?db ?db T"
    using v gid by (auto simp: masks_def put_vertex_put_vertex comp_def)
  obtain dbv where dbv: "progress i (A(i \<mapsto> T)) ?db T1 dbv" "masks dir g (?kept @ ?erased) ?kept db1 dbv T1"
    using detach_loop_progress[where A = "A(i \<mapsto> T)", OF progress_db_ok[OF ok T p] fun_upd_same m run] by blast
  then obtain u where u: "db_vertices dbv g = Some u" "v_gid u = g" "edges_of dir u = ?kept"
    "db1 = put_vertex (set_edges dir (\<lambda>_. ?kept @ ?erased) u) dbv"
    by (auto simp: masks_def)
  have "set_edges dir (\<lambda>_. ?kept) u = u"
    using u(3) by (auto simp: set_edges_def edges_of_def)
  then have "db' = dbv" "T' = T1"
    using upd u put_vertex_same[of dbv u] by (auto simp: update_Inr put_vertex_put_vertex comp_def)
  then show ?thesis
    using progress_trans[OF p dbv(1)] by simp
qed

lemma DetachRemainingEdges_progress:
  assumes ok: "db_ok A db" and T: "A i = Some T" and r: "DetachRemainingEdges info ids T db = (Inr s', T', db')"
  shows "progress i A db T' db'"
proof (rule progress_bind[OF ok T r[unfolded DetachRemainingEdges_def]])
  show "progress i A db T1 db1" if "for_each (clear_edges_on_other_direction OUT_DIR (partial_src_edge_ids info)) (partial_src_vertices info) ([], ids) T db
      = (Inr y, T1, db1)" for y T1 db1
    by (rule for_each_progress[OF clear_other_progress ok T that])
  show "progress i (A(i \<mapsto> T1)) db1 T' db'"
    if "db_ok (A(i \<mapsto> T1)) db1" and r: "bind_act (for_each (clear_edges_on_other_direction IN_DIR (partial_dest_edge_ids info)) (partial_dest_vertices info) y)
      (\<lambda>s'. ret (fst s')) T1 db1 = (Inr s', T', db')" for y T1 db1
  proof -
    obtain z where z: "for_each (clear_edges_on_other_direction IN_DIR (partial_dest_edge_ids info)) (partial_dest_vertices info) y T1 db1 = (Inr z, T', db')"
      using r by (auto simp: bind_act_Inr action_Inr)
    show ?thesis
      by (rule for_each_progress[where A = "A(i \<mapsto> T1)", OF clear_other_progress that(1) fun_upd_same z])
  qed
qed

section \<open>Deleting the vertices\<close>

text \<open>The cache, the label counts and the recorded calls are not part of what transactions see of each other.\<close>

lemma progress_cache:
  assumes "db_ok A db" and "A i = Some T"
    and "db_vertices db' = db_vertices db" "db_edges db' = db_edges db" "db_heap db' = db_heap db" "frame db db'"
  shows "progress i A db (T\<lparr>tx_cache := c\<rparr>) db'"
  using assms by (intro progress_tx[OF assms(1,2)]) simp_all

lemma try_delete_vertex_progress:
  assumes ok: "db_ok A db" and T: "A i = Some T" and r: "try_delete_vertex g s T db = (Inr s', T', db')"
  shows "progress i A db T' db'"
proof -
  obtain v where v: "db_vertices db g = Some v" "writable (db_heap db) T (v_deltas v)" "\<not> v_deleted v"
    using r by (auto simp: try_delete_vertex_def bind_act_Inr prepare_vertex_Inr[OF ok] get_Inr action_Inr)
  have wf: "vertex_wf v" "v_gid v = g"
    using ok v(1) by (auto simp: db_ok_def store_ok_def vertex_ok_def)
  obtain d T1 db1 where l: "link_vertex_delta v RECREATE_OBJECT T db = (v\<lparr>v_deltas := d # v_deltas v\<rparr>, T1, db1)" "frame db db1"
    "db_vertices db1 = (db_vertices db)(g \<mapsto> v\<lparr>v_deltas := d # v_deltas v\<rparr>)" "db_edges db1 = db_edges db"
    and wr: "wrote i A db g (v\<lparr>v_deltas := d # v_deltas v, v_deleted := True\<rparr>) T1 (db_heap db1)"
    using write_vertex[OF ok T v, where op = RECREATE_OBJECT and V = "\<lambda>d. v\<lparr>v_deltas := d # v_deltas v, v_deleted := True\<rparr>"]
      wf v(3) by (auto simp: vertex_wf_def undoable_def aundo_def abs_vertex_def)
  obtain cs where T': "T' = T1\<lparr>tx_cache := Invalidate_vertex g (tx_cache T1)\<rparr>"
    and db': "db' = calls cs (put_vertex (v\<lparr>v_deltas := d # v_deltas v, v_deleted := True\<rparr>) (calls (schema_calls db1 (Schema_DeleteVertex g)) db1))"
    using r v(1) l by (auto simp: try_delete_vertex_def bind_act_Inr prepare_vertex_Inr[OF ok] get_Inr action_Inr link_vertex_Inr
        schema_call_def record_calls_def update_Inr UpdateOnVertexDelete_def)
  show ?thesis
    unfolding T' by (rule wroteD(1)[OF wr]) (use l wf in \<open>simp_all add: db'\<close>)
qed

lemma vertex_read_tx: "\<exists>c. snd (vertex_read fetch action store proj honours acc view T db) = T\<lparr>tx_cache := c\<rparr>"
proof -
  define P where "P t \<longleftrightarrow> (\<exists>c. t = T\<lparr>tx_cache := c\<rparr>)" for t
  have "P T" "P (T\<lparr>tx_cache := c\<rparr>)" for c
    unfolding P_def by (rule exI[of _ "tx_cache T"], simp) blast
  then have "P (snd (vertex_read fetch action store proj honours acc view T db))"
    unfolding vertex_read_def by (simp split: option.split sum.split prod.split)
  then show ?thesis
    by (simp add: P_def)
qed

lemma Labels_tx: "\<exists>c. snd (Labels acc view T db) = T\<lparr>tx_cache := c\<rparr>"
  unfolding Labels_def by (rule vertex_read_tx)

lemma uncount_labels_progress:
  assumes ok: "db_ok A db" and T: "A i = Some T" and r: "uncount_labels acc u T db = (Inr u', T', db')"
  shows "progress i A db T' db'"
proof -
  have same: "db_vertices (fold (\<lambda>l. UpdateLabelCount l k) ls db) = db_vertices db \<and> db_edges (fold (\<lambda>l. UpdateLabelCount l k) ls db) = db_edges db \<and>
    db_heap (fold (\<lambda>l. UpdateLabelCount l k) ls db) = db_heap db \<and> frame db (fold (\<lambda>l. UpdateLabelCount l k) ls db)" for ls k
    by (induction ls rule: rev_induct) auto
  obtain c where "T' = T\<lparr>tx_cache := c\<rparr>"
    using r Labels_tx[of acc NEW T db] by (auto simp: uncount_labels_def split: prod.splits sum.splits)
  moreover obtain ls where "db' = db \<or> db' = fold (\<lambda>l. UpdateLabelCount l (- 1)) ls db"
    using r by (auto simp: uncount_labels_def split: prod.splits sum.splits)
  ultimately show ?thesis
    using same[of "- 1" ls] progress_cache[OF ok T, of db' c] by auto
qed

lemma progress_ret: "db_ok A db \<Longrightarrow> A i = Some T \<Longrightarrow> ret x T db = (Inr y, T', db') \<Longrightarrow> progress i A db T' db'"
  by (simp add: action_Inr progress_refl)

lemma progress_get_db: "db_ok A db \<Longrightarrow> A i = Some T \<Longrightarrow> get_db T db = (Inr y, T', db') \<Longrightarrow> progress i A db T' db'"
  by (simp add: action_Inr progress_refl)

lemma progress_get_tx: "db_ok A db \<Longrightarrow> A i = Some T \<Longrightarrow> get_tx T db = (Inr y, T', db') \<Longrightarrow> progress i A db T' db'"
  by (simp add: action_Inr progress_refl)

lemma progress_ensure: "db_ok A db \<Longrightarrow> A i = Some T \<Longrightarrow> ensure b e T db = (Inr y, T', db') \<Longrightarrow> progress i A db T' db'"
  by (simp add: action_Inr progress_refl)

lemma progress_record_calls: "db_ok A db \<Longrightarrow> A i = Some T \<Longrightarrow> record_calls cs T db = (Inr y, T', db') \<Longrightarrow> progress i A db T' db'"
  by (auto simp: record_calls_def action_Inr intro: progress_calls progress_refl)

lemma progress_modify_cache:
  "db_ok A db \<Longrightarrow> A i = Some T \<Longrightarrow> modify_tx (\<lambda>T. T\<lparr>tx_cache := k (tx_cache T)\<rparr>) T db = (Inr y, T', db') \<Longrightarrow> progress i A db T' db'"
  by (auto simp: action_Inr intro: progress_cache)

text \<open>A composed action is a progress when its parts are.\<close>

definition progressive :: "'a action \<Rightarrow> bool" where
  "progressive m \<longleftrightarrow> (\<forall>i A db T x T' db'. db_ok A db \<longrightarrow> A i = Some T \<longrightarrow> m T db = (Inr x, T', db') \<longrightarrow> progress i A db T' db')"

lemma progressiveI:
  assumes "\<And>i A db T x T' db'. db_ok A db \<Longrightarrow> A i = Some T \<Longrightarrow> m T db = (Inr x, T', db') \<Longrightarrow> progress i A db T' db'"
  shows "progressive m"
  using assms by (simp add: progressive_def)

lemma progressiveD: "progressive m \<Longrightarrow> db_ok A db \<Longrightarrow> A i = Some T \<Longrightarrow> m T db = (Inr x, T', db') \<Longrightarrow> progress i A db T' db'"
  by (simp add: progressive_def)

lemma progressive_bind:
  assumes "progressive m" and "\<And>x. progressive (f x)"
  shows "progressive (bind_act m f)"
proof (rule progressiveI)
  fix i A db T x T' db'
  assume ok: "db_ok A db" and T: "A i = Some T" and r: "bind_act m f T db = (Inr x, T', db')"
  show "progress i A db T' db'"
  proof (rule progress_bind[OF ok T r])
    show "progress i A db T1 db1" if "m T db = (Inr y, T1, db1)" for y T1 db1
      by (rule progressiveD[OF assms(1) ok T that])
    show "progress i (A(i \<mapsto> T1)) db1 T' db'" if "db_ok (A(i \<mapsto> T1)) db1" "f y T1 db1 = (Inr x, T', db')" for y T1 db1
      by (rule progressiveD[where A = "A(i \<mapsto> T1)", OF assms(2) that(1) fun_upd_same that(2)])
  qed
qed

lemma progressive_for_each:
  assumes "\<And>x s. progressive (f x s)"
  shows "progressive (for_each f xs s)"
proof (rule progressiveI)
  fix i A db T x T' db'
  assume ok: "db_ok A db" and T: "A i = Some T" and r: "for_each f xs s T db = (Inr x, T', db')"
  show "progress i A db T' db'"
    by (rule for_each_progress[OF progressiveD[OF assms] ok T r])
qed

lemma progressive_if: "progressive m \<Longrightarrow> progressive m' \<Longrightarrow> progressive (if b then m else m')"
  by simp

lemma progressive_prepare_vertex: "progressive (prepare_vertex g)"
  by (rule progressiveI) (auto simp: prepare_vertex_Inr intro: progress_refl)

lemma progressive_get_vertex: "progressive (get_vertex g)"
  by (rule progressiveI) (auto simp: get_Inr intro: progress_refl)

lemmas progressive_intros =
  progressive_bind progressive_for_each progressive_if progressive_prepare_vertex progressive_get_vertex
  progressiveI[of "ret x" for x, OF progress_ret] progressiveI[of get_db, OF progress_get_db] progressiveI[of get_tx, OF progress_get_tx]
  progressiveI[of "ensure b e" for b e, OF progress_ensure] progressiveI[of "record_calls cs" for cs, OF progress_record_calls]
  progressiveI[of "modify_tx (\<lambda>T. T\<lparr>tx_cache := k (tx_cache T)\<rparr>)" for k, OF progress_modify_cache]
  progressiveI[of "try_delete_vertex g s" for g s, OF try_delete_vertex_progress]
  progressiveI[of "uncount_labels a u" for a u, OF uncount_labels_progress]
  progressiveI[of "DetachRemainingEdges info ids" for info ids, OF DetachRemainingEdges_progress]
  progressiveI[of "ClearEdgesOnVertices vs s" for vs s, OF ClearEdgesOnVertices_progress]

lemma progressive_PrepareDeletableNodes: "progressive (PrepareDeletableNodes vertices)"
  unfolding PrepareDeletableNodes_def by (intro progressive_intros)

lemma progressive_Accessor_DetachDelete: "progressive (Accessor_DetachDelete nodes edges detach)"
  unfolding Accessor_DetachDelete_def Let_def case_prod_beta TryDeleteVertices_def
  by (intro progressive_intros progressive_PrepareDeletableNodes)

lemma progressive_DetachDelete: "progressive (DetachDelete nodes edges detach)"
  unfolding DetachDelete_def case_prod_beta
  by (intro progressive_intros progressive_Accessor_DetachDelete)

lemma DetachDelete_progress:
  assumes "db_ok A db" and "A i = Some T" and "DetachDelete nodes edges detach T db = (Inr x, T', db')"
  shows "progress i A db T' db'"
  by (rule progressiveD[OF progressive_DetachDelete assms])

lemma DeleteVertex_progress:
  assumes "db_ok A db" and "A i = Some T" and "DeleteVertex vertex T db = (Inr x, T', db')"
  shows "progress i A db T' db'"
proof -
  have p: "progressive (DeleteVertex vertex)"
    unfolding DeleteVertex_def case_prod_beta by (intro progressive_intros progressive_DetachDelete)
  show ?thesis
    by (rule progressiveD[OF p assms])
qed

lemma DeleteEdge_progress:
  assumes "db_ok A db" and "A i = Some T" and "DeleteEdge edge T db = (Inr x, T', db')"
  shows "progress i A db T' db'"
proof -
  have p: "progressive (DeleteEdge edge)"
    unfolding DeleteEdge_def case_prod_beta by (intro progressive_intros progressive_DetachDelete)
  show ?thesis
    by (rule progressiveD[OF p assms])
qed

end
