(* ===== verification/GarbageCollection.thy ===== *)
theory GarbageCollection
  imports Transactions
begin

text \<open>
  \<open>InMemoryStorage::CollectGarbage\<close> (src/storage/v2/inmemory/storage.cpp) as one atomic run: the horizon, the waiting
  room of buffers with non-sequential deltas, the garbage of earlier runs, the unlinking of the deltas that no
  transaction needs any more, the clean-up calls to the indices, and the removal of the deleted objects.  What
  the run reads from outside the model (locks, flags of an analytical mode, hints of indices, the queue of the
  schema information) is a field of \<open>gc_env\<close>.
\<close>

record gc_env =
  ge_main_guard_owned :: bool
  ge_gc_lock_free :: bool
  ge_min_queued_start_ts :: "nat option"
  ge_full_scan_vertices :: bool
  ge_full_scan_edges :: bool
  ge_index_vertex_hint :: bool
  ge_index_edge_hint :: bool
  ge_stop_requested :: bool
  ge_vector_index_empty :: bool
  ge_vector_edge_index_empty :: bool

section \<open>The effect of deltas on index performance\<close>

record IndexPerformanceTracker =
  impacts_vertex_indexes :: bool
  impacts_edge_indexes :: bool

definition tracker_update :: "delta_op \<Rightarrow> IndexPerformanceTracker \<Rightarrow> IndexPerformanceTracker" where
  "tracker_update action t = (case action of
     DELETE_DESERIALIZED_OBJECT \<Rightarrow> t
   | DELETE_OBJECT \<Rightarrow> t
   | RECREATE_OBJECT \<Rightarrow> t
   | SET_PROPERTY _ _ _ \<Rightarrow> t\<lparr>impacts_vertex_indexes := True, impacts_edge_indexes := True\<rparr>
   | ADD_LABEL _ \<Rightarrow> t\<lparr>impacts_vertex_indexes := True\<rparr>
   | REMOVE_LABEL _ \<Rightarrow> t\<lparr>impacts_vertex_indexes := True\<rparr>
   | _ \<Rightarrow> t\<lparr>impacts_edge_indexes := True\<rparr>)"

section \<open>The horizon\<close>

definition gc_horizon :: "gc_env \<Rightarrow> db \<Rightarrow> nat" where
  "gc_horizon env db =
    (let oldest = OldestActive (db_commit_log db)
     in if cfg_enable_schema_info (db_config db)
        then (case ge_min_queued_start_ts env of None \<Rightarrow> oldest | Some m \<Rightarrow> min m oldest)
        else oldest)"

section \<open>The waiting room\<close>

definition chain_of :: "db \<Rightarrow> delta_owner \<Rightarrow> delta list" where
  "chain_of db owner = (case owner of
     Owner_vertex g \<Rightarrow> (case db_vertices db g of None \<Rightarrow> [] | Some v \<Rightarrow> v_deltas v)
   | Owner_edge e \<Rightarrow> (case db_edges db e of None \<Rightarrow> [] | Some x \<Rightarrow> e_deltas x))"

text \<open>The walk from a non-sequential delta down its chain, up to a sequential delta, one that was visited, or one that
  is not committed.\<close>

fun contributors_walk :: "delta_heap \<Rightarrow> nat list \<Rightarrow> nat \<Rightarrow> delta list \<Rightarrow> bool \<times> nat list \<times> nat" where
  "contributors_walk h visited highest [] = (True, visited, highest)"
| "contributors_walk h visited highest (d # ds) =
    (if d_uid d \<in> set visited \<or> \<not> IsDeltaNonSequential d then (True, visited, highest)
     else if kTransactionInitialId \<le> ts h d then (False, d_uid d # visited, highest)
     else contributors_walk h (d_uid d # visited) (max highest (ts h d)) ds)"

fun contributors :: "db \<Rightarrow> nat list \<Rightarrow> nat \<Rightarrow> (delta_owner \<times> nat) list \<Rightarrow> nat option" where
  "contributors db visited highest [] = Some highest"
| "contributors db visited highest ((owner, uid) # ods) =
    (case contributors_walk (db_heap db) visited highest (dropWhile (\<lambda>d. d_uid d \<noteq> uid) (chain_of db owner)) of
       (False, _, _) \<Rightarrow> None
     | (True, visited', highest') \<Rightarrow> contributors db visited' highest' ods)"

definition leave_waiting :: "db \<Rightarrow> gc_deltas \<Rightarrow> storage_error + gc_deltas option" where
  "leave_waiting db b = (case gd_commit_info b of None \<Rightarrow> Inl Dangling_pointer
     | Some ci \<Rightarrow> Inr (map_option (\<lambda>t. b\<lparr>gd_unlinkable_timestamp := t\<rparr>)
         (contributors db [] (ci_timestamp (h_commit_infos (db_heap db) ci)) (gd_deltas b))))"

fun process_waiting :: "db \<Rightarrow> gc_deltas list \<Rightarrow> storage_error + gc_deltas list \<times> gc_deltas list" where
  "process_waiting db [] = Inr ([], [])"
| "process_waiting db (b # bs) =
    bind_result (leave_waiting db b) (\<lambda>r.
    bind_result (process_waiting db bs) (\<lambda>(moved, waiting).
      Inr (case r of None \<Rightarrow> (moved, b # waiting) | Some b' \<Rightarrow> (b' # moved, waiting))))"

section \<open>Unlinking\<close>

text \<open>One delta of a finished transaction.  A delta that is not in the chain of its object any more was cut off together
  with a newer delta, which is its predecessor, has the same commit information or is finished too, and is left alone.\<close>

definition gc_cut :: "nat \<Rightarrow> delta list \<Rightarrow> delta list" where
  "gc_cut uid ds = takeWhile (\<lambda>d. d_uid d \<noteq> uid) ds"

definition gc_keeps :: "delta_heap \<Rightarrow> nat \<Rightarrow> nat option \<Rightarrow> delta \<Rightarrow> bool" where
  "gc_keeps h oldest_active_start_timestamp commit_info prev_delta \<longleftrightarrow>
    commit_info = Some (d_commit_info prev_delta) \<or>
    ts h prev_delta < oldest_active_start_timestamp \<and> \<not> IsDeltaNonSequential prev_delta"

definition gc_unlink :: "nat \<Rightarrow> nat option \<Rightarrow> delta_owner \<times> nat \<Rightarrow> db \<times> gid list \<times> gid list \<Rightarrow> db \<times> gid list \<times> gid list" where
  "gc_unlink oldest commit_info od s = (case s of (db, current_deleted_edges, current_deleted_vertices) \<Rightarrow> (case od of
     (Owner_vertex g, uid) \<Rightarrow> (case db_vertices db g of None \<Rightarrow> s
       | Some v \<Rightarrow> (case prev_in uid Prev_object (v_deltas v) of
           Prev_object \<Rightarrow>
             (put_vertex (v\<lparr>v_deltas := [], v_has_uncommitted_non_sequential_deltas := False\<rparr>) db, current_deleted_edges,
              if v_deleted v then current_deleted_vertices @ [g] else current_deleted_vertices)
         | Prev_delta d \<Rightarrow>
             if gc_keeps (db_heap db) oldest commit_info d then s
             else (put_vertex (v\<lparr>v_deltas := gc_cut uid (v_deltas v)\<rparr>) db, current_deleted_edges, current_deleted_vertices)
         | Prev_null \<Rightarrow> s))
   | (Owner_edge e, uid) \<Rightarrow> (case db_edges db e of None \<Rightarrow> s
       | Some x \<Rightarrow> (case prev_in uid Prev_object (e_deltas x) of
           Prev_object \<Rightarrow>
             (put_edge (x\<lparr>e_deltas := []\<rparr>) db,
              if e_deleted x then current_deleted_edges @ [e] else current_deleted_edges, current_deleted_vertices)
         | Prev_delta d \<Rightarrow>
             if gc_keeps (db_heap db) oldest commit_info d then s
             else (put_edge (x\<lparr>e_deltas := gc_cut uid (e_deltas x)\<rparr>) db, current_deleted_edges, current_deleted_vertices)
         | Prev_null \<Rightarrow> s))))"

definition gc_unlink_buffer :: "nat \<Rightarrow> gc_deltas \<Rightarrow> db \<times> gid list \<times> gid list \<Rightarrow> db \<times> gid list \<times> gid list" where
  "gc_unlink_buffer oldest b s = fold (gc_unlink oldest (gd_commit_info b)) (gd_deltas b) s"

definition buffer_impact :: "db \<Rightarrow> gc_deltas list \<Rightarrow> IndexPerformanceTracker" where
  "buffer_impact db bs =
    fold (\<lambda>(owner, uid). case delta_in uid (chain_of db owner) of None \<Rightarrow> id | Some d \<Rightarrow> tracker_update (d_op d))
      (concat (map gd_deltas bs)) \<lparr>impacts_vertex_indexes = False, impacts_edge_indexes = False\<rparr>"

section \<open>Removing objects\<close>

text \<open>The removal from a skip list asserts that the key was there.\<close>

fun remove_all :: "gid list \<Rightarrow> (gid \<rightharpoonup> 'a) \<Rightarrow> storage_error + (gid \<rightharpoonup> 'a)" where
  "remove_all [] m = Inr m"
| "remove_all (g # gs) m = (case m g of None \<Rightarrow> Inl Assertion_failed | Some _ \<Rightarrow> remove_all gs (m(g := None)))"

definition gc_remove_objects :: "gc_env \<Rightarrow> gid list \<Rightarrow> gid list \<Rightarrow> db \<Rightarrow> storage_error + db" where
  "gc_remove_objects env es vs db =
    bind_result (if es \<noteq> [] \<and> cfg_enable_edges_metadata (db_config db) then remove_all es (db_edges_metadata db) else Inr (db_edges_metadata db)) (\<lambda>metadata.
    let remove_vertices = (if vs \<noteq> [] \<and> \<not> ge_vector_index_empty env then [Vector_RemoveVertices vs] else []);
        remove_edges = (if es \<noteq> [] \<and> \<not> ge_vector_edge_index_empty env then [Vector_RemoveEdges es] else [])
    in bind_result (remove_all vs (db_vertices db)) (\<lambda>vertices.
       bind_result (remove_all es (db_edges db)) (\<lambda>edges.
         Inr (calls (remove_vertices @ remove_edges)
           (db\<lparr>db_edges_metadata := metadata, db_vertices := vertices, db_edges := edges\<rparr>)))))"

definition dead_vertex :: "vertex \<Rightarrow> bool" where
  "dead_vertex v \<longleftrightarrow> v_deltas v = [] \<and> v_deleted v"

definition dead_edge :: "edge \<Rightarrow> bool" where
  "dead_edge x \<longleftrightarrow> e_deltas x = [] \<and> e_deleted x"

text \<open>The scan over all vertices and edges after deletions in the analytical mode; the call to a vector index is recorded
  also when there is nothing to remove from it.\<close>

definition gc_scan_vertices :: "gc_env \<Rightarrow> db \<Rightarrow> db" where
  "gc_scan_vertices env db =
    calls ((if ge_vector_index_empty env then [] else [Vector_RemoveDeletedVertices])
        @ (if ge_vector_edge_index_empty env then [] else [Vector_RemoveDeletedEdges]))
      (db\<lparr>db_vertices := (\<lambda>g. case db_vertices db g of None \<Rightarrow> None | Some v \<Rightarrow> if dead_vertex v then None else Some v)\<rparr>)"

definition gc_scan_edges :: "gc_env \<Rightarrow> db \<Rightarrow> db" where
  "gc_scan_edges env db =
    calls (if \<not> ge_full_scan_vertices env \<and> \<not> ge_vector_edge_index_empty env then [Vector_RemoveDeletedEdges] else [])
      (db\<lparr>db_edges := (\<lambda>e. case db_edges db e of None \<Rightarrow> None | Some x \<Rightarrow> if dead_edge x then None else Some x),
          db_edges_metadata := (\<lambda>e. case db_edges db e of None \<Rightarrow> db_edges_metadata db e
            | Some x \<Rightarrow> if dead_edge x then None else db_edges_metadata db e)\<rparr>)"

section \<open>A run\<close>

text \<open>Buffers that were unlinked before are freed when no transaction can hold a pointer into them.\<close>

definition nothing_active :: "gc_env \<Rightarrow> nat \<Rightarrow> db \<Rightarrow> bool" where
  "nothing_active env oldest db \<longleftrightarrow> ge_main_guard_owned env \<or> db_timestamp db = oldest"

definition free_garbage :: "gc_env \<Rightarrow> nat \<Rightarrow> db \<Rightarrow> gc_deltas list \<Rightarrow> gc_deltas list" where
  "free_garbage env oldest db bs =
    (if nothing_active env oldest db then [] else dropWhile (\<lambda>b. gd_mark_timestamp b \<le> oldest) bs)"

definition gc_index_calls :: "gc_env \<Rightarrow> nat \<Rightarrow> IndexPerformanceTracker \<Rightarrow> gid list \<Rightarrow> gid list \<Rightarrow> side_call list" where
  "gc_index_calls env oldest impact es vs =
    (if ge_stop_requested env then []
     else (if ge_full_scan_vertices env \<or> vs \<noteq> [] \<or> ge_index_vertex_hint env \<or> impacts_vertex_indexes impact
           then [Index_RemoveObsoleteVertexEntries oldest, Unique_RemoveObsoleteEntries oldest] else [])
        @ (if ge_full_scan_edges env \<or> es \<noteq> [] \<or> ge_index_edge_hint env \<or> impacts_edge_indexes impact
           then [Index_RemoveObsoleteEdgeEntries oldest] else []))"

definition CollectGarbage :: "gc_env \<Rightarrow> db \<Rightarrow> storage_error + db" where
  "CollectGarbage env db =
    (if \<not> ge_gc_lock_free env then Inr db
     else
       let oldest = gc_horizon env db; gc = db_gc db
       in bind_result (process_waiting db (gc_waiting_deltas gc)) (\<lambda>(moved, waiting).
          let garbage = free_garbage env oldest db (gc_garbage_undo_buffers gc);
              buffers = gc_committed_transactions gc @ moved;
              unlinkable = filter (\<lambda>b. gd_unlinkable_timestamp b < oldest) buffers;
              linked = filter (\<lambda>b. \<not> gd_unlinkable_timestamp b < oldest) buffers;
              (db1, es, vs) = fold (gc_unlink_buffer oldest) unlinkable (db, gc_deleted_edges gc, gc_deleted_vertices gc);
              db2 = calls (gc_index_calls env oldest (buffer_impact db unlinkable) es vs) db1;
              garbage' = (if nothing_active env oldest db then garbage
                          else garbage @ map (\<lambda>b. b\<lparr>gd_mark_timestamp := db_timestamp db\<rparr>) unlinkable);
              db3 = db2\<lparr>db_gc := \<lparr>gc_committed_transactions = linked, gc_waiting_deltas = waiting,
                      gc_garbage_undo_buffers = garbage', gc_deleted_vertices = [], gc_deleted_edges = []\<rparr>\<rparr>
          in bind_result (gc_remove_objects env es vs db3) (\<lambda>db4.
             let db5 = (if ge_full_scan_vertices env then gc_scan_vertices env db4 else db4)
             in Inr (if ge_full_scan_edges env then gc_scan_edges env db5 else db5))))"

end
