(* ===== verification/GcSteps.thy ===== *)
theory GcSteps
  imports CommitSteps GarbageCollection
begin

text \<open>
  A run of the garbage collector is one internal step of the multi-version machine: it cuts off only deltas that every
  transaction sees, removes only deleted objects without deltas, and none of its assertions fails.  The buffers
  and lists it works on are described by \<open>gc_inv\<close>, which all other steps keep.
\<close>

section \<open>Cutting a chain\<close>

definition chain_unlink :: "delta_heap \<Rightarrow> nat \<Rightarrow> nat option \<Rightarrow> nat \<Rightarrow> delta list \<Rightarrow> delta list" where
  "chain_unlink h oldest commit_info uid ds = (case prev_in uid Prev_object ds of
     Prev_object \<Rightarrow> []
   | Prev_delta d \<Rightarrow> if gc_keeps h oldest commit_info d then ds else gc_cut uid ds
   | Prev_null \<Rightarrow> ds)"

text \<open>Everything below a delta that is finished before the horizon is finished before it too.\<close>

definition below :: "actives \<Rightarrow> delta_heap \<Rightarrow> nat \<Rightarrow> delta \<Rightarrow> bool" where
  "below A h oldest d \<longleftrightarrow> A (d_commit_info d) = None \<and> ts h d < oldest"

lemma below_rest:
  assumes "chain_ok A h now (pre @ d # post)" and "below A h oldest d"
  shows "\<forall>e \<in> set (d # post). below A h oldest e"
proof -
  have "over A h d e" if "e \<in> set post" for e
    using assms(1) that by (simp add: chain_ok_def sorted_wrt_append)
  then show ?thesis
    using assms(2) by (fastforce simp: below_def over_def ts_def)
qed

lemma chain_unlink_suffix:
  assumes ok: "chain_ok A h now ds" and own: "\<forall>d \<in> set ds. d_uid d = uid \<longrightarrow> below A h oldest d"
  shows "\<exists>old. ds = chain_unlink h oldest ci uid ds @ old \<and> (\<forall>d \<in> set old. below A h oldest d)"
proof (cases "prev_in uid Prev_object ds")
  case Prev_object
  then obtain d post where ds: "ds = [] @ d # post" "d_uid d = uid"
    unfolding prev_in_object by (cases ds) auto
  then have "below A h oldest d"
    using own by simp
  then have "\<forall>e \<in> set ds. below A h oldest e"
    using below_rest[of A h now "[]" d post oldest] ok ds by simp
  then show ?thesis
    using Prev_object by (simp add: chain_unlink_def)
next
  case (Prev_delta p)
  then obtain xs d post where ds: "ds = (xs @ [p]) @ d # post" "d_uid d = uid" "\<forall>x \<in> insert p (set xs). d_uid x \<noteq> uid"
    using prev_in_delta[OF Prev_delta] by auto
  have "gc_cut uid ds = xs @ [p]"
    using ds by (simp add: gc_cut_def takeWhile_append)
  moreover have "\<forall>e \<in> set (d # post). below A h oldest e"
    using below_rest[of A h now "xs @ [p]" d post oldest] ok own ds by simp
  ultimately show ?thesis
    using Prev_delta ds(1) by (auto simp: chain_unlink_def)
next
  case Prev_null
  then show ?thesis
    by (simp add: chain_unlink_def)
qed

lemma chain_ok_prefix: "chain_ok A h now (ds @ old) \<Longrightarrow> chain_ok A h now ds"
  by (simp add: chain_ok_def sorted_wrt_append)

section \<open>One delta\<close>

definition append_gid :: "delta_owner \<Rightarrow> gid list \<times> gid list \<Rightarrow> gid list \<times> gid list" where
  "append_gid o' l = (case o' of Owner_vertex g \<Rightarrow> (fst l, snd l @ [g]) | Owner_edge e \<Rightarrow> (fst l @ [e], snd l))"

lemma vector_ok_prefix: "vector_ok entry n es (ds @ old) \<Longrightarrow> vector_ok entry n es ds"
proof -
  assume v: "vector_ok entry n es (ds @ old)"
  have sub: "all_entries entry es ds \<subseteq> all_entries entry es (ds @ old)"
    by (auto simp: all_entries_def)
  then show ?thesis
    using v inj_on_subset[OF _ sub] by (auto simp: vector_ok_def sorted_wrt_append)
qed

lemma vertex_ok_prefix: "vertex_ok n g v \<Longrightarrow> v_deltas v = ds @ old \<Longrightarrow> vertex_ok n g (v\<lparr>v_deltas := ds\<rparr>)"
  by (auto simp: vertex_ok_def vertex_wf_def intro: vector_ok_prefix)

lemma gc_cut_prefix: "ds = gc_cut uid ds @ dropWhile (\<lambda>d. d_uid d \<noteq> uid) ds"
  by (simp add: gc_cut_def)

definition unlinked_to :: "db \<Rightarrow> db \<Rightarrow> bool" where
  "unlinked_to db db' \<longleftrightarrow> rest_frame db db' \<and> db_heap db' = db_heap db \<and> db_gc db' = db_gc db \<and> (store_ok db \<longrightarrow> store_ok db')"

lemma unlinked_to_refl [simp]: "unlinked_to db db"
  by (simp add: unlinked_to_def)

lemma unlinked_to_trans: "unlinked_to db db' \<Longrightarrow> unlinked_to db' db'' \<Longrightarrow> unlinked_to db db''"
  by (simp add: unlinked_to_def rest_frame_def)

lemma put_vertex_unlinked:
  assumes "db_vertices db g = Some v" "v_gid v = g" "v' = v\<lparr>v_deltas := ds\<rparr> \<or> v' = v\<lparr>v_deltas := ds, v_has_uncommitted_non_sequential_deltas := False\<rparr>"
    and "v_deltas v = ds @ old"
  shows "unlinked_to db (put_vertex v' db)" "objs (put_vertex v' db) = (objs db)(Owner_vertex g \<mapsto> (abs_vertex v, ds))"
proof -
  have v': "v_gid v' = g" "v_deltas v' = ds" "abs_vertex v' = abs_vertex v"
    using assms(2,3) by (auto simp: abs_vertex_def)
  have "vertex_ok n g v'" if "vertex_ok n g v" for n
    using vertex_ok_prefix[OF that assms(4)] assms(3) by (auto simp: vertex_ok_def vertex_wf_def)
  then show "unlinked_to db (put_vertex v' db)"
    using assms(1) v' by (auto simp: unlinked_to_def store_ok_def)
  show "objs (put_vertex v' db) = (objs db)(Owner_vertex g \<mapsto> (abs_vertex v, ds))"
    using objs_put_vertex[of "put_vertex v' db" db g v'] v' by simp
qed

lemma put_edge_unlinked:
  assumes "db_edges db e = Some x" "e_gid x = e" and "e_deltas x = ds @ old"
  shows "unlinked_to db (put_edge (x\<lparr>e_deltas := ds\<rparr>) db)" "objs (put_edge (x\<lparr>e_deltas := ds\<rparr>) db) = (objs db)(Owner_edge e \<mapsto> (abs_edge x, ds))"
proof -
  let ?x = "x\<lparr>e_deltas := ds\<rparr>"
  have "dom (db_edges (put_edge ?x db)) = dom (db_edges db)"
    using assms by auto
  then have "store_ok db \<longrightarrow> store_ok (put_edge ?x db)"
    using assms unfolding store_ok_def by (simp add: edge_ok_def)
  then show "unlinked_to db (put_edge ?x db)"
    by (simp add: unlinked_to_def)
  show "objs (put_edge ?x db) = (objs db)(Owner_edge e \<mapsto> (abs_edge x, ds))"
    using objs_put_edge[of "put_edge ?x db" db e ?x] assms(2) by (simp add: abs_edge_def)
qed

text \<open>What the step does to the objects and lists, for vertices and edges alike.\<close>

lemma gc_unlink_effect:
  assumes st: "store_ok db" and r: "gc_unlink oldest ci (o', uid) (db, es, vs) = (db', es', vs')"
  shows "unlinked_to db db'"
    "objs db' = (case objs db o' of None \<Rightarrow> objs db | Some (a, ds) \<Rightarrow> (objs db)(o' \<mapsto> (a, chain_unlink (db_heap db) oldest ci uid ds)))"
    "(es', vs') = (case objs db o' of None \<Rightarrow> (es, vs)
       | Some (a, ds) \<Rightarrow> if prev_in uid Prev_object ds = Prev_object \<and> a_deleted a then append_gid o' (es, vs) else (es, vs))"
proof -
  have all: "unlinked_to db db' \<and>
    objs db' = (case objs db o' of None \<Rightarrow> objs db | Some (a, ds) \<Rightarrow> (objs db)(o' \<mapsto> (a, chain_unlink (db_heap db) oldest ci uid ds))) \<and>
    (es', vs') = (case objs db o' of None \<Rightarrow> (es, vs)
       | Some (a, ds) \<Rightarrow> if prev_in uid Prev_object ds = Prev_object \<and> a_deleted a then append_gid o' (es, vs) else (es, vs))"
  proof (cases o')
    case (Owner_vertex g)
    show ?thesis
    proof (cases "db_vertices db g")
      case None
      then show ?thesis
        using r Owner_vertex by (simp add: gc_unlink_def)
    next
      case (Some v)
      have gid: "v_gid v = g"
        by (rule store_ok_gids(1)[OF st Some])
      have same: "(objs db)(Owner_vertex g \<mapsto> (abs_vertex v, v_deltas v)) = objs db"
        using Some by (simp add: map_upd_triv)
      note p1 = put_vertex_unlinked[OF Some gid, of _ "[]" "v_deltas v"]
        and p2 = put_vertex_unlinked[OF Some gid _ gc_cut_prefix[of "v_deltas v" uid]]
      show ?thesis
        using r Owner_vertex Some p1 p2 same
        by (auto simp: gc_unlink_def chain_unlink_def append_gid_def abs_vertex_def split: prev.splits if_splits)
    qed
  next
    case (Owner_edge e)
    show ?thesis
    proof (cases "db_edges db e")
      case None
      then show ?thesis
        using r Owner_edge by (simp add: gc_unlink_def)
    next
      case (Some x)
      have gid: "e_gid x = e"
        by (rule store_ok_gids(2)[OF st Some])
      have same: "(objs db)(Owner_edge e \<mapsto> (abs_edge x, e_deltas x)) = objs db"
        using Some by (simp add: map_upd_triv)
      note p1 = put_edge_unlinked[OF Some gid, of "[]" "e_deltas x"]
        and p2 = put_edge_unlinked[OF Some gid gc_cut_prefix[of "e_deltas x" uid]]
      show ?thesis
        using r Owner_edge Some p1 p2 same
        by (auto simp: gc_unlink_def chain_unlink_def append_gid_def abs_edge_def split: prev.splits if_splits)
    qed
  qed
  then show "unlinked_to db db'"
    "objs db' = (case objs db o' of None \<Rightarrow> objs db | Some (a, ds) \<Rightarrow> (objs db)(o' \<mapsto> (a, chain_unlink (db_heap db) oldest ci uid ds)))"
    "(es', vs') = (case objs db o' of None \<Rightarrow> (es, vs)
       | Some (a, ds) \<Rightarrow> if prev_in uid Prev_object ds = Prev_object \<and> a_deleted a then append_gid o' (es, vs) else (es, vs))"
    by simp_all
qed

section \<open>The unlinking loop\<close>

type_synonym objects = "delta_owner \<rightharpoonup> aversion \<times> delta list"

definition cut_to :: "actives \<Rightarrow> delta_heap \<Rightarrow> nat \<Rightarrow> objects \<Rightarrow> objects \<Rightarrow> bool" where
  "cut_to A h oldest before after \<longleftrightarrow> (\<forall>o'. case before o' of None \<Rightarrow> after o' = None
     | Some (a, ds) \<Rightarrow> \<exists>new old. ds = new @ old \<and> after o' = Some (a, new) \<and> (\<forall>d \<in> set old. below A h oldest d))"

lemma cut_to_refl: "cut_to A h oldest f f"
  by (auto simp: cut_to_def split: option.splits)

lemma cut_toD:
  assumes "cut_to A h oldest before after"
  shows "after o' = Some (a, new) \<Longrightarrow> \<exists>old. before o' = Some (a, new @ old) \<and> (\<forall>d \<in> set old. below A h oldest d)"
    "before o' = None \<Longrightarrow> after o' = None" "after o' = None \<Longrightarrow> before o' = None"
  using assms[unfolded cut_to_def, rule_format, of o'] by (auto split: option.splits)

lemma cut_to_put:
  assumes "cut_to A h oldest before after" and "after o' = Some (a, new @ old)" and "\<forall>d \<in> set old. below A h oldest d"
  shows "cut_to A h oldest before (after(o' \<mapsto> (a, new)))"
  unfolding cut_to_def
proof
  fix o''
  obtain old' where b: "before o' = Some (a, (new @ old) @ old')" "\<forall>d \<in> set old'. below A h oldest d"
    using cut_toD(1)[OF assms(1,2)] by blast
  show "case before o'' of None \<Rightarrow> (after(o' \<mapsto> (a, new))) o'' = None
     | Some (b, ds) \<Rightarrow> \<exists>new' old. ds = new' @ old \<and> (after(o' \<mapsto> (a, new))) o'' = Some (b, new') \<and> (\<forall>d \<in> set old. below A h oldest d)"
  proof (cases "o'' = o'")
    case True
    then show ?thesis
      using b assms(3) by (auto intro: exI[of _ "old @ old'"])
  next
    case False
    then show ?thesis
      using assms(1)[unfolded cut_to_def, rule_format, of o''] by (auto split: option.splits)
  qed
qed

definition dead_in :: "objects \<Rightarrow> delta_owner \<Rightarrow> bool" where
  "dead_in f o' \<longleftrightarrow> (\<exists>a. f o' = Some (a, []) \<and> a_deleted a)"

definition lists_dead :: "objects \<Rightarrow> gid list \<times> gid list \<Rightarrow> bool" where
  "lists_dead f l \<longleftrightarrow> distinct (fst l) \<and> distinct (snd l) \<and> (\<forall>e \<in> set (fst l). dead_in f (Owner_edge e)) \<and>
     (\<forall>g \<in> set (snd l). dead_in f (Owner_vertex g))"

definition listed :: "delta_owner \<Rightarrow> gid list \<times> gid list \<Rightarrow> bool" where
  "listed o' l \<longleftrightarrow> (case o' of Owner_vertex g \<Rightarrow> g \<in> set (snd l) | Owner_edge e \<Rightarrow> e \<in> set (fst l))"

lemma lists_dead_listed: "lists_dead f l \<Longrightarrow> listed o' l \<Longrightarrow> dead_in f o'"
  by (auto simp: lists_dead_def listed_def split: delta_owner.splits)

lemma lists_dead_put: "lists_dead f l \<Longrightarrow> \<not> listed o' l \<Longrightarrow> lists_dead (f(o' \<mapsto> x)) l"
  by (auto simp: lists_dead_def listed_def dead_in_def split: delta_owner.splits)

lemma lists_dead_append: "lists_dead f l \<Longrightarrow> \<not> listed o' l \<Longrightarrow> dead_in f o' \<Longrightarrow> lists_dead f (append_gid o' l)"
  by (auto simp: lists_dead_def listed_def append_gid_def split: delta_owner.splits)

text \<open>The chains hold no delta of a pair that was handled, as far as it is the first one before the horizon.\<close>

definition first_below :: "actives \<Rightarrow> delta_heap \<Rightarrow> nat \<Rightarrow> delta list \<Rightarrow> delta option" where
  "first_below A h oldest ds = find (below A h oldest) ds"

definition gc_loop :: "actives \<Rightarrow> nat \<Rightarrow> db \<Rightarrow> (nat option \<times> delta_owner \<times> nat) set \<Rightarrow> db \<times> gid list \<times> gid list \<Rightarrow> bool" where
  "gc_loop A oldest db P s \<longleftrightarrow> (case s of (db1, l) \<Rightarrow> unlinked_to db db1 \<and> cut_to A (db_heap db) oldest (objs db) (objs db1) \<and>
     lists_dead (objs db1) l \<and>
     (\<forall>o' a ds d. objs db1 o' = Some (a, ds) \<longrightarrow> first_below A (db_heap db) oldest ds = Some d \<longrightarrow> (Some (d_commit_info d), o', d_uid d) \<notin> P))"

lemma find_prefix: "find P xs = Some x \<Longrightarrow> find P (xs @ ys) = Some x"
  by (induction xs) auto

lemma find_split: "find P xs = Some x \<Longrightarrow> \<exists>pre post. xs = pre @ x # post \<and> P x \<and> (\<forall>y \<in> set pre. \<not> P y)"
proof (induction xs)
  case (Cons y ys)
  show ?case
  proof (cases "P y")
    case True
    then show ?thesis
      using Cons.prems by (intro exI[of _ "[]"] exI[of _ ys]) simp
  next
    case False
    then obtain pre post where "ys = pre @ x # post" "P x" "\<forall>y \<in> set pre. \<not> P y"
      using Cons by auto
    then show ?thesis
      using False by (intro exI[of _ "y # pre"] exI[of _ post]) simp
  qed
qed simp

text \<open>The first such delta of a chain is cut off when its turn comes.\<close>

lemma unlink_first:
  assumes ok: "chain_ok A h now ds" and d: "first_below A h oldest ds = Some d"
    and act: "\<And>e. e \<in> set ds \<Longrightarrow> A (d_commit_info e) \<noteq> None \<Longrightarrow> oldest \<le> ts h e"
  shows "d \<notin> set (chain_unlink h oldest (Some (d_commit_info d)) (d_uid d) ds)"
proof -
  obtain pre post where ds: "ds = pre @ d # post" "below A h oldest d" "\<forall>e \<in> set pre. \<not> below A h oldest e"
    using find_split[OF d[unfolded first_below_def]] by blast
  have "d_uid d \<notin> d_uid ` set pre"
    using ok ds(1) by (simp add: chain_ok_def)
  then have uids: "\<forall>e \<in> set pre. d_uid e \<noteq> d_uid d"
    by (metis image_eqI)
  show ?thesis
  proof (cases pre rule: rev_cases)
    case Nil
    then have "prev_in (d_uid d) Prev_object ds = Prev_object"
      using ds(1) by (simp add: prev_in_object)
    then show ?thesis
      by (simp add: chain_unlink_def)
  next
    case (snoc xs p)
    have step: "prev_in u q (ys @ p # e # zs) = Prev_delta p" if "\<forall>y \<in> set (ys @ [p]). d_uid y \<noteq> u" "d_uid e = u" for u q ys e zs
      using that by (induction ys arbitrary: q) auto
    have prev: "prev_in (d_uid d) Prev_object ds = Prev_delta p"
      using step[of xs "d_uid d" d Prev_object post] uids ds(1) snoc by simp
    have "\<not> below A h oldest p"
      using ds(3) snoc by simp
    moreover have "A (d_commit_info p) \<noteq> None \<Longrightarrow> oldest \<le> ts h p"
      using act[of p] ds(1) snoc by simp
    moreover have "d_commit_info p = d_commit_info d \<Longrightarrow> below A h oldest p"
      using ds(2) by (simp add: below_def ts_def)
    ultimately have "\<not> gc_keeps h oldest (Some (d_commit_info d)) p"
      by (auto simp: gc_keeps_def below_def)
    moreover have "gc_cut (d_uid d) ds = pre"
      using ds(1) uids by (auto simp: gc_cut_def takeWhile_append)
    ultimately show ?thesis
      using prev uids by (auto simp: chain_unlink_def)
  qed
qed

lemma gc_loop_step:
  assumes ok: "db_ok A db" and H: "\<And>i T. A i = Some T \<Longrightarrow> oldest \<le> tx_id T" and l: "gc_loop A oldest db P (db1, es, vs)"
    and own: "\<And>a ds d. objs db o' = Some (a, ds) \<Longrightarrow> d \<in> set ds \<Longrightarrow> d_uid d = uid \<Longrightarrow> below A (db_heap db) oldest d"
    and r: "gc_unlink oldest ci (o', uid) (db1, es, vs) = (db2, es2, vs2)"
  shows "gc_loop A oldest db (insert (ci, o', uid) P) (db2, es2, vs2)"
proof -
  note inv = l[unfolded gc_loop_def prod.case]
  have u1: "unlinked_to db db1" and c1: "cut_to A (db_heap db) oldest (objs db) (objs db1)" and d1: "lists_dead (objs db1) (es, vs)"
    using inv by auto
  have f1: "\<And>o' a ds d. objs db1 o' = Some (a, ds) \<Longrightarrow> first_below A (db_heap db) oldest ds = Some d \<Longrightarrow> (Some (d_commit_info d), o', d_uid d) \<notin> P"
    using inv by blast
  have heap: "db_heap db1 = db_heap db" and st: "store_ok db1"
    using u1 ok by (auto simp: unlinked_to_def db_ok_def)
  note eff = gc_unlink_effect[OF st r, unfolded heap]
  have u2: "unlinked_to db db2"
    by (rule unlinked_to_trans[OF u1 eff(1)])
  show ?thesis
  proof (cases "objs db1 o'")
    case None
    then have "objs db2 = objs db1" "es2 = es" "vs2 = vs"
      using eff(2,3) by auto
    then show ?thesis
      using u2 c1 d1 f1 None by (auto simp: gc_loop_def)
  next
    case (Some p)
    obtain a ds where o: "objs db1 o' = Some (a, ds)"
      using Some by (cases p) auto
    obtain old where ds: "objs db o' = Some (a, ds @ old)"
      using cut_toD(1)[OF c1 o] by blast
    have chain: "chain_ok A (db_heap db) (db_timestamp db) ds"
      using obj_okD(1)[OF mv_invD(2), of "mv_of A db" o' a "ds @ old"] ok ds by (auto simp: db_ok_def intro: chain_ok_prefix)
    let ?new = "chain_unlink (db_heap db) oldest ci uid ds"
    obtain rest where rest: "ds = ?new @ rest" "\<forall>d \<in> set rest. below A (db_heap db) oldest d"
      using chain_unlink_suffix[OF chain, of uid oldest ci] own[OF ds] by auto
    have objs2: "objs db2 = (objs db1)(o' \<mapsto> (a, ?new))"
      using eff(2) o by simp
    have lists: "(es2, vs2) = (if prev_in uid Prev_object ds = Prev_object \<and> a_deleted a then append_gid o' (es, vs) else (es, vs))"
      using eff(3) o by simp
    have c2: "cut_to A (db_heap db) oldest (objs db) (objs db2)"
      unfolding objs2 by (rule cut_to_put[OF c1 _ rest(2)]) (use o rest(1) in simp)
    have d2: "lists_dead (objs db2) (es2, vs2)"
    proof (cases "ds = []")
      case True
      then have "objs db2 = objs db1" "(es2, vs2) = (es, vs)"
        using objs2 lists o by (simp_all add: chain_unlink_def map_upd_triv)
      then show ?thesis
        using d1 by simp
    next
      case False
      then have nl: "\<not> listed o' (es, vs)"
        using lists_dead_listed[OF d1, of o'] o by (auto simp: dead_in_def)
      have "lists_dead (objs db2) (es, vs)"
        unfolding objs2 by (rule lists_dead_put[OF d1 nl])
      moreover have "dead_in (objs db2) o'" if "prev_in uid Prev_object ds = Prev_object" "a_deleted a"
        using that objs2 by (simp add: dead_in_def chain_unlink_def)
      ultimately show ?thesis
        unfolding lists using lists_dead_append[OF _ nl] by auto
    qed
    have "(Some (d_commit_info d), o'', d_uid d) \<notin> insert (ci, o', uid) P"
      if o2: "objs db2 o'' = Some (b, es')" and fb: "first_below A (db_heap db) oldest es' = Some d" for o'' b es' d
    proof (cases "o'' = o'")
      case True
      then have es': "es' = ?new"
        using o2 objs2 by simp
      then have fb': "first_below A (db_heap db) oldest ds = Some d"
        using fb find_prefix rest(1) unfolding first_below_def by metis
      have act: "oldest \<le> ts (db_heap db) e" if e: "e \<in> set ds" and ac: "A (d_commit_info e) \<noteq> None" for e
      proof -
        obtain T where T: "A (d_commit_info e) = Some T"
          using ac by auto
        have "delta_ok A (db_heap db) (db_timestamp db) e"
          using chain e by (simp add: chain_ok_def)
        then have "ts (db_heap db) e = d_commit_info e"
          using ts_active[OF mv_invD(1)[of "mv_of A db"]] T ok by (simp add: db_ok_def)
        then show ?thesis
          using H[OF T] db_ok_tx[OF ok T] by (simp add: tx_ok_def)
      qed
      have "d \<in> set es'"
        using find_split[OF fb[unfolded first_below_def]] by auto
      then have "(ci, uid) \<noteq> (Some (d_commit_info d), d_uid d)"
        using unlink_first[OF chain fb' act] es' by auto
      then show ?thesis
        using f1[OF o fb'] True by auto
    next
      case False
      then show ?thesis
        using f1[of o'' b es' d] o2 fb objs2 by simp
    qed
    then show ?thesis
      using u2 c2 d2 unfolding gc_loop_def by blast
  qed
qed

section \<open>The buffers\<close>

text \<open>A buffer of a finished transaction; it may be unlinked once the commit timestamp is before the horizon.\<close>

definition buffer_ok :: "mv \<Rightarrow> gc_deltas \<Rightarrow> bool" where
  "buffer_ok m b \<longleftrightarrow> (\<exists>ci. gd_commit_info b = Some ci \<and> mv_active m ci = None \<and> ci < mv_next_id m \<and>
     gd_unlinkable_timestamp b = ci_timestamp (h_commit_infos (mv_heap m) ci) \<and> owned m ci (set (gd_deltas b)))"

lemma buffer_ok_below:
  assumes "buffer_ok (mv_of A db) b" and "gd_unlinkable_timestamp b < oldest" and "(o', uid) \<in> set (gd_deltas b)"
    and "objs db o' = Some (a, ds)" "d \<in> set ds" "d_uid d = uid"
  shows "below A (db_heap db) oldest d"
proof -
  obtain ci where ci: "A ci = None" "gd_unlinkable_timestamp b = ci_timestamp (h_commit_infos (db_heap db) ci)" "owned (mv_of A db) ci (set (gd_deltas b))"
    using assms(1) by (auto simp: buffer_ok_def)
  have "d_commit_info d = ci"
    using ownedD(2)[OF ci(3), of o' d a ds] assms(3-6) by simp
  then show ?thesis
    using ci(1,2) assms(2) by (simp add: below_def ts_def)
qed

lemma gc_unlink_buffer_loop:
  assumes ok: "db_ok A db" and H: "\<And>i T. A i = Some T \<Longrightarrow> oldest \<le> tx_id T"
    and own: "\<And>o' uid a ds d. (o', uid) \<in> set ods \<Longrightarrow> objs db o' = Some (a, ds) \<Longrightarrow> d \<in> set ds \<Longrightarrow> d_uid d = uid \<Longrightarrow> below A (db_heap db) oldest d"
    and l: "gc_loop A oldest db P s"
  shows "gc_loop A oldest db (P \<union> Pair ci ` set ods) (fold (gc_unlink oldest ci) ods s)"
  using own l
proof (induction ods arbitrary: P s)
  case (Cons od ods)
  obtain o' uid where od: "od = (o', uid)"
    by (cases od)
  obtain db1 es vs db2 es2 vs2 where s: "s = (db1, es, vs)" and r: "gc_unlink oldest ci (o', uid) (db1, es, vs) = (db2, es2, vs2)"
    by (cases s; cases "gc_unlink oldest ci (o', uid) s") auto
  have own1: "below A (db_heap db) oldest d" if "objs db o' = Some (a, ds)" "d \<in> set ds" "d_uid d = uid" for a ds d
    by (rule Cons.prems(1)[OF _ that]) (simp add: od)
  have own2: "below A (db_heap db) oldest d" if "(p, u) \<in> set ods" "objs db p = Some (a, ds)" "d \<in> set ds" "d_uid d = u" for p u a ds d
    by (rule Cons.prems(1)[OF _ that(2-4)]) (simp add: that(1))
  have step: "gc_loop A oldest db (insert (ci, o', uid) P) (db2, es2, vs2)"
    by (rule gc_loop_step[OF ok H _ own1 r]) (use Cons.prems(2) s in simp_all)
  have "gc_loop A oldest db (insert (ci, o', uid) P \<union> Pair ci ` set ods) (fold (gc_unlink oldest ci) ods (db2, es2, vs2))"
    by (rule Cons.IH[OF own2 step])
  then show ?case
    using r s od by simp
qed simp

definition pairs :: "gc_deltas list \<Rightarrow> (nat option \<times> delta_owner \<times> nat) set" where
  "pairs bs = (\<Union>b \<in> set bs. Pair (gd_commit_info b) ` set (gd_deltas b))"

lemma gc_buffers_loop:
  assumes ok: "db_ok A db" and H: "\<And>i T. A i = Some T \<Longrightarrow> oldest \<le> tx_id T"
    and "\<forall>b \<in> set bs. buffer_ok (mv_of A db) b \<and> gd_unlinkable_timestamp b < oldest" and "gc_loop A oldest db P s"
  shows "gc_loop A oldest db (P \<union> pairs bs) (fold (gc_unlink_buffer oldest) bs s)"
  using assms(3,4)
proof (induction bs arbitrary: P s)
  case (Cons b bs)
  have "gc_loop A oldest db (P \<union> Pair (gd_commit_info b) ` set (gd_deltas b)) (gc_unlink_buffer oldest b s)"
    unfolding gc_unlink_buffer_def
    by (rule gc_unlink_buffer_loop[OF ok H buffer_ok_below Cons.prems(2)]) (use Cons.prems(1) in simp_all)
  then have "gc_loop A oldest db (P \<union> Pair (gd_commit_info b) ` set (gd_deltas b) \<union> pairs bs) (fold (gc_unlink_buffer oldest) bs (gc_unlink_buffer oldest b s))"
    using Cons.prems(1) by (intro Cons.IH) auto
  then show ?case
    by (simp add: pairs_def Un_assoc)
qed (simp add: pairs_def)

section \<open>The waiting room\<close>

lemma chain_of_objs: "chain_of db o' = (case objs db o' of None \<Rightarrow> [] | Some (a, ds) \<Rightarrow> ds)"
  by (auto simp: chain_of_def objs_def split: delta_owner.splits option.splits)

lemma chain_of_sequential:
  assumes "db_ok A db" and "d \<in> set (chain_of db o')"
  shows "\<not> IsDeltaNonSequential d"
proof -
  obtain a ds where "objs db o' = Some (a, ds)" "d \<in> set ds"
    using assms(2) by (cases "objs db o'") (auto simp: chain_of_objs)
  then show ?thesis
    using obj_okD(4)[OF mv_invD(2), of "mv_of A db" o' a ds d] assms(1) by (auto simp: db_ok_def delta_ok_def)
qed

lemma contributors_none:
  assumes "db_ok A db"
  shows "contributors db visited highest ods = Some highest"
proof (induction ods)
  case (Cons od ods)
  obtain o' uid where od: "od = (o', uid)"
    by (cases od)
  have "contributors_walk (db_heap db) visited highest (dropWhile (\<lambda>d. d_uid d \<noteq> uid) (chain_of db o')) = (True, visited, highest)"
  proof (cases "dropWhile (\<lambda>d. d_uid d \<noteq> uid) (chain_of db o')")
    case Nil
    show ?thesis
      unfolding Nil by simp
  next
    case (Cons d ds)
    then have "d \<in> set (chain_of db o')"
      using set_dropWhileD[of d _ "chain_of db o'"] by (metis list.set_intros(1))
    then show ?thesis
      using chain_of_sequential[OF assms] unfolding Cons by simp
  qed
  then show ?case
    using Cons od by simp
qed simp

lemma process_waiting_all:
  assumes "db_ok A db" and "\<forall>b \<in> set bs. buffer_ok (mv_of A db) b"
  shows "process_waiting db bs = Inr (bs, [])"
  using assms(2)
proof (induction bs)
  case (Cons b bs)
  then obtain ci where "gd_commit_info b = Some ci" "gd_unlinkable_timestamp b = ci_timestamp (h_commit_infos (db_heap db) ci)"
    by (auto simp: buffer_ok_def)
  then have "leave_waiting db b = Inr (Some b)"
    by (simp add: leave_waiting_def contributors_none[OF assms(1)])
  then show ?case
    using Cons by simp
qed simp

section \<open>Removing objects\<close>

lemma remove_all_Inr:
  assumes "distinct gs" and "set gs \<subseteq> dom m"
  shows "remove_all gs m = Inr (\<lambda>g. if g \<in> set gs then None else m g)"
  using assms
proof (induction gs arbitrary: m)
  case (Cons g gs)
  then obtain x where "m g = Some x"
    by auto
  moreover have "remove_all gs (m(g := None)) = Inr (\<lambda>k. if k \<in> set gs then None else (m(g := None)) k)"
    using Cons by (intro Cons.IH) auto
  ultimately show ?case
    by (auto simp: fun_eq_iff)
qed simp

text \<open>What is left of the objects when dead ones are removed.\<close>

definition removes_dead :: "db \<Rightarrow> db \<Rightarrow> bool" where
  "removes_dead db db' \<longleftrightarrow> (\<forall>o'. objs db' o' = objs db o' \<or> objs db' o' = None \<and> dead_in (objs db) o') \<and> db_heap db' = db_heap db \<and>
     ids_frame db db' \<and> db_gc db' = db_gc db \<and> (store_ok db \<longrightarrow> store_ok db')"

lemma removes_dead_trans:
  assumes "removes_dead db db'" and "removes_dead db' db''"
  shows "removes_dead db db''"
proof -
  have "objs db'' o' = objs db o' \<or> objs db'' o' = None \<and> dead_in (objs db) o'" for o'
    using assms unfolding removes_dead_def dead_in_def by metis
  then show ?thesis
    using assms by (simp add: removes_dead_def ids_frame_def)
qed

lemma removes_dead_refl: "removes_dead db db"
  by (simp add: removes_dead_def ids_frame_def)

lemma dead_in_objects:
  "dead_in (objs db) (Owner_vertex g) \<longleftrightarrow> (\<exists>v. db_vertices db g = Some v \<and> dead_vertex v)"
  "dead_in (objs db) (Owner_edge e) \<longleftrightarrow> (\<exists>x. db_edges db e = Some x \<and> dead_edge x)"
  by (cases "db_vertices db g"; auto simp: dead_in_def dead_vertex_def abs_vertex_def)
     (cases "db_edges db e"; auto simp: dead_in_def dead_edge_def abs_edge_def)

lemma objs_subset:
  assumes "\<And>g. db_vertices db' g = (if P (Owner_vertex g) then None else db_vertices db g)"
    and "\<And>e. db_edges db' e = (if P (Owner_edge e) then None else db_edges db e)"
  shows "objs db' o' = (if P o' then None else objs db o')"
  using assms by (simp add: objs_def split: delta_owner.splits)

lemma store_ok_metadata: "store_ok db \<Longrightarrow> cfg_enable_edges_metadata (db_config db) \<Longrightarrow> db_edges db e = Some x \<Longrightarrow> \<exists>g. db_edges_metadata db e = Some g"
  unfolding store_ok_def by blast

lemma gc_remove_objects_dead:
  assumes l: "lists_dead (objs db) (es, vs)" and st: "store_ok db"
  shows "\<exists>db'. gc_remove_objects env es vs db = Inr db' \<and> removes_dead db db'"
proof -
  have dead: "\<forall>e \<in> set es. dead_in (objs db) (Owner_edge e)" "\<forall>g \<in> set vs. dead_in (objs db) (Owner_vertex g)" "distinct es" "distinct vs"
    using l by (simp_all add: lists_dead_def)
  then have dom: "set es \<subseteq> dom (db_edges db)" "set vs \<subseteq> dom (db_vertices db)"
    by (auto simp: dead_in_objects)
  let ?vertices = "\<lambda>g. if g \<in> set vs then None else db_vertices db g" and ?edges = "\<lambda>e. if e \<in> set es then None else db_edges db e"
  define metadata where "metadata = (if es \<noteq> [] \<and> cfg_enable_edges_metadata (db_config db)
    then (\<lambda>e. if e \<in> set es then None else db_edges_metadata db e) else db_edges_metadata db)"
  have "(if es \<noteq> [] \<and> cfg_enable_edges_metadata (db_config db) then remove_all es (db_edges_metadata db) else Inr (db_edges_metadata db)) = Inr metadata"
    using remove_all_Inr[OF dead(3), of "db_edges_metadata db"] dom(1) st by (auto simp: metadata_def store_ok_def)
  then obtain cs where r: "gc_remove_objects env es vs db = Inr (calls cs (db\<lparr>db_edges_metadata := metadata, db_vertices := ?vertices, db_edges := ?edges\<rparr>))"
    using remove_all_Inr[OF dead(4) dom(2)] remove_all_Inr[OF dead(3) dom(1)] by (simp add: gc_remove_objects_def Let_def)
  let ?db = "calls cs (db\<lparr>db_edges_metadata := metadata, db_vertices := ?vertices, db_edges := ?edges\<rparr>)"
  have "objs ?db o' = (if listed o' (es, vs) then None else objs db o')" for o'
    by (rule objs_subset) (simp_all add: listed_def)
  then have "objs ?db o' = objs db o' \<or> objs ?db o' = None \<and> dead_in (objs db) o'" for o'
    using lists_dead_listed[OF l, of o'] by simp
  moreover have "store_ok ?db"
    using st store_ok_metadata[OF st] unfolding store_ok_def metadata_def by (auto split: if_splits)
  ultimately show ?thesis
    using r by (auto simp: removes_dead_def ids_frame_def)
qed

lemma gc_scan_vertices_dead: "removes_dead db (gc_scan_vertices env db)"
proof -
  have "objs (gc_scan_vertices env db) o' = (if (case o' of Owner_vertex g \<Rightarrow> dead_in (objs db) o' | Owner_edge e \<Rightarrow> False) then None else objs db o')" for o'
    by (rule objs_subset) (auto simp: gc_scan_vertices_def dead_in_objects split: option.splits)
  then have "objs (gc_scan_vertices env db) o' = objs db o' \<or> objs (gc_scan_vertices env db) o' = None \<and> dead_in (objs db) o'" for o'
    by (cases o') auto
  moreover have "store_ok db \<longrightarrow> store_ok (gc_scan_vertices env db)"
    by (auto simp: store_ok_def gc_scan_vertices_def split: option.splits if_splits)
  ultimately show ?thesis
    by (auto simp: removes_dead_def ids_frame_def gc_scan_vertices_def)
qed

lemma gc_scan_edges_dead: "removes_dead db (gc_scan_edges env db)"
proof -
  have "objs (gc_scan_edges env db) o' = (if (case o' of Owner_edge e \<Rightarrow> dead_in (objs db) o' | Owner_vertex g \<Rightarrow> False) then None else objs db o')" for o'
    by (rule objs_subset) (auto simp: gc_scan_edges_def dead_in_objects split: option.splits)
  then have "objs (gc_scan_edges env db) o' = objs db o' \<or> objs (gc_scan_edges env db) o' = None \<and> dead_in (objs db) o'" for o'
    by (cases o') auto
  moreover have "store_ok db \<longrightarrow> store_ok (gc_scan_edges env db)"
    using store_ok_metadata[of db] unfolding store_ok_def gc_scan_edges_def by (auto split: option.splits if_splits)
  ultimately show ?thesis
    by (auto simp: removes_dead_def ids_frame_def gc_scan_edges_def)
qed

section \<open>A run\<close>

text \<open>What holds of the lists the collector works on: the buffers belong to finished transactions, the listed objects are
  dead, and every delta of a finished transaction is in a buffer unless the transaction is pending, which means
  that its commit timestamp is still to be marked as finished.\<close>

definition gc_buffers :: "gc_state \<Rightarrow> gc_deltas list" where
  "gc_buffers gc = gc_committed_transactions gc @ gc_waiting_deltas gc"

definition accounted :: "gc_deltas list \<Rightarrow> nat set \<Rightarrow> delta_owner \<Rightarrow> delta \<Rightarrow> bool" where
  "accounted bs pend o' d \<longleftrightarrow> (\<exists>b \<in> set bs. gd_commit_info b = Some (d_commit_info d) \<and> (o', d_uid d) \<in> set (gd_deltas b)) \<or>
     d_commit_info d \<in> pend"

definition gc_inv :: "mv \<Rightarrow> nat set \<Rightarrow> gc_state \<Rightarrow> bool" where
  "gc_inv m pend gc \<longleftrightarrow> (\<forall>b \<in> set (gc_buffers gc). buffer_ok m b) \<and>
     lists_dead (mv_objs m) (gc_deleted_edges gc, gc_deleted_vertices gc) \<and>
     (\<forall>o' a ds d. mv_objs m o' = Some (a, ds) \<longrightarrow> d \<in> set ds \<longrightarrow> mv_active m (d_commit_info d) = None \<longrightarrow> accounted (gc_buffers gc) pend o' d)"

definition pending_unfinished :: "db \<Rightarrow> nat set \<Rightarrow> bool" where
  "pending_unfinished db pend \<longleftrightarrow> (\<forall>ci \<in> pend. ci_timestamp (h_commit_infos (db_heap db) ci) \<notin> finished (db_commit_log db))"

lemma gc_inv_core: "gc_core gc' = gc_core gc \<Longrightarrow> gc_inv m pend gc' \<longleftrightarrow> gc_inv m pend gc"
  by (simp add: gc_inv_def gc_core_def gc_buffers_def)

lemma horizon_bounds:
  assumes "db_ok A db"
  shows "gc_horizon env db \<le> OldestActive (db_commit_log db)" "A i = Some T \<Longrightarrow> gc_horizon env db \<le> tx_start T"
    "A i = Some T \<Longrightarrow> gc_horizon env db \<le> tx_id T"
proof -
  show le: "gc_horizon env db \<le> OldestActive (db_commit_log db)"
    by (auto simp: gc_horizon_def Let_def split: option.splits)
  have start: "OldestActive (db_commit_log db) \<le> tx_start U" if "A j = Some U" for j U
    using cl.below_oldest[OF log_okD(1)[OF assms], of "tx_start U"] log_okD(2)[OF assms that] by (meson not_le)
  then show st: "A i = Some T \<Longrightarrow> gc_horizon env db \<le> tx_start T"
    using le by force
  show "A i = Some T \<Longrightarrow> gc_horizon env db \<le> tx_id T"
  proof -
    assume T: "A i = Some T"
    have "tx_start T < db_timestamp db" "db_timestamp db \<le> kTransactionInitialId" "kTransactionInitialId \<le> tx_id T"
      using db_ok_tx[OF assms T] assms mv_invD(1)[of "mv_of A db"] by (auto simp: tx_ok_def db_ok_def txs_ok_def)
    then show ?thesis
      using st[OF T] by simp
  qed
qed

lemma prune_step:
  assumes "\<forall>o'. pruned (mv_of A db) (objs db o') (objs db' o')" and "db_heap db' = db_heap db" "db_timestamp db' = db_timestamp db"
    "db_transaction_id db' = db_transaction_id db"
  shows "mv_step Internal i (mv_of A db) (mv_of A db')"
  using mv_step.prune[of "mv_of A db" "objs db'" i] assms by (simp add: mv_of_def)

text \<open>The deltas of the buffers that are unlinked are not reachable from any object any more.\<close>

definition unreachable :: "db \<Rightarrow> gc_deltas \<Rightarrow> bool" where
  "unreachable db b \<longleftrightarrow> (\<forall>(o', uid) \<in> set (gd_deltas b). \<forall>a ds. objs db o' = Some (a, ds) \<longrightarrow> uid \<notin> d_uid ` set ds)"

lemma no_first_below:
  assumes "first_below A h oldest ds = None" and "d \<in> set ds"
  shows "\<not> below A h oldest d"
  using assms by (auto simp: first_below_def find_None_iff)

text \<open>After the unlinking loop no chain has a delta before the horizon.\<close>

lemma unlinked_no_below:
  assumes ok: "db_ok A db" and gc: "gc_inv (mv_of A db) pend (db_gc db)" "pending_unfinished db pend" and h: "oldest \<le> OldestActive (db_commit_log db)"
    and l: "gc_loop A oldest db (pairs (filter (\<lambda>b. gd_unlinkable_timestamp b < oldest) (gc_buffers (db_gc db)))) (db1, es, vs)"
    and o: "objs db1 o' = Some (a, ds)" "d \<in> set ds"
  shows "\<not> below A (db_heap db) oldest d"
proof (rule no_first_below[OF _ o(2)], rule ccontr)
  assume "first_below A (db_heap db) oldest ds \<noteq> None"
  then obtain e where e: "first_below A (db_heap db) oldest ds = Some e"
    by auto
  obtain old where ds: "objs db o' = Some (a, ds @ old)"
    using l cut_toD(1)[of A "db_heap db" oldest "objs db" "objs db1" o' a ds] o(1) by (auto simp: gc_loop_def)
  have b: "below A (db_heap db) oldest e" "e \<in> set ds"
    using find_split[OF e[unfolded first_below_def]] by auto
  then have "ts (db_heap db) e \<in> finished (db_commit_log db)"
    using cl.below_oldest[OF log_okD(1)[OF ok], of "ts (db_heap db) e"] h by (simp add: below_def)
  moreover have "accounted (gc_buffers (db_gc db)) pend o' e"
    using gc(1) ds b by (auto simp: gc_inv_def below_def)
  ultimately obtain c where c: "c \<in> set (gc_buffers (db_gc db))" "gd_commit_info c = Some (d_commit_info e)" "(o', d_uid e) \<in> set (gd_deltas c)"
    using gc(2) by (auto simp: accounted_def pending_unfinished_def ts_def)
  have "buffer_ok (mv_of A db) c"
    using gc(1) c(1) by (simp add: gc_inv_def)
  then have "gd_unlinkable_timestamp c < oldest"
    using c(2) b(1) by (auto simp: buffer_ok_def below_def ts_def)
  then have "(Some (d_commit_info e), o', d_uid e) \<in> pairs (filter (\<lambda>b. gd_unlinkable_timestamp b < oldest) (gc_buffers (db_gc db)))"
    using c by (force simp: pairs_def)
  then show False
    using l o(1) e by (auto simp: gc_loop_def)
qed

theorem CollectGarbage_step:
  assumes ok: "db_ok A db" and gc: "gc_inv (mv_of A db) pend (db_gc db)" "pending_unfinished db pend"
  shows "\<exists>db'. CollectGarbage env db = Inr db' \<and> mv_step Internal i (mv_of A db) (mv_of A db') \<and> db_ok A db' \<and> gc_inv (mv_of A db') pend (db_gc db') \<and>
    db_commit_log db' = db_commit_log db \<and> db_timestamp db' = db_timestamp db \<and> db_transaction_id db' = db_transaction_id db \<and>
    db_config db' = db_config db \<and> db_heap db' = db_heap db \<and>
    (\<forall>b \<in> set (gc_buffers (db_gc db)). b \<in> set (gc_buffers (db_gc db')) \<or> unreachable db' b) \<and>
    (ge_gc_lock_free env \<longrightarrow> (\<forall>o' a ds d. objs db' o' = Some (a, ds) \<longrightarrow> d \<in> set ds \<longrightarrow> \<not> below A (db_heap db) (gc_horizon env db) d))"
proof (cases "ge_gc_lock_free env")
  case False
  then show ?thesis
    using ok gc prune_step[of A db db i] by (auto simp: CollectGarbage_def pruned_def split: option.splits)
next
  case True
  define H where "H = gc_horizon env db"
  define un where "un = filter (\<lambda>b. gd_unlinkable_timestamp b < H) (gc_buffers (db_gc db))"
  define li where "li = filter (\<lambda>b. \<not> gd_unlinkable_timestamp b < H) (gc_buffers (db_gc db))"
  have bufs: "\<forall>b \<in> set (gc_buffers (db_gc db)). buffer_ok (mv_of A db) b"
    using gc(1) by (simp add: gc_inv_def)
  obtain db1 es vs where f: "fold (gc_unlink_buffer H) un (db, gc_deleted_edges (db_gc db), gc_deleted_vertices (db_gc db)) = (db1, es, vs)"
    by (cases "fold (gc_unlink_buffer H) un (db, gc_deleted_edges (db_gc db), gc_deleted_vertices (db_gc db))")
  have l: "gc_loop A H db (pairs un) (db1, es, vs)"
  proof -
    have start: "gc_loop A H db {} (db, gc_deleted_edges (db_gc db), gc_deleted_vertices (db_gc db))"
      using gc(1) by (simp add: gc_loop_def gc_inv_def cut_to_refl)
    have H: "H \<le> tx_id T" if "A j = Some T" for j T
      unfolding H_def by (rule horizon_bounds(3)[OF ok that])
    have "\<forall>b \<in> set un. buffer_ok (mv_of A db) b \<and> gd_unlinkable_timestamp b < H"
      using bufs by (simp add: un_def)
    from gc_buffers_loop[OF ok H this start] show ?thesis
      by (simp add: f)
  qed
  then have u1: "unlinked_to db db1" and c1: "cut_to A (db_heap db) H (objs db) (objs db1)" and d1: "lists_dead (objs db1) (es, vs)"
    by (auto simp: gc_loop_def)
  have wait: "process_waiting db (gc_waiting_deltas (db_gc db)) = Inr (gc_waiting_deltas (db_gc db), [])"
    by (rule process_waiting_all[OF ok]) (use bufs in \<open>auto simp: gc_buffers_def\<close>)
  define garbage where "garbage = (if nothing_active env H db then free_garbage env H db (gc_garbage_undo_buffers (db_gc db))
    else free_garbage env H db (gc_garbage_undo_buffers (db_gc db)) @ map (\<lambda>b. b\<lparr>gd_mark_timestamp := db_timestamp db\<rparr>) un)"
  define db3 where "db3 = (calls (gc_index_calls env H (buffer_impact db un) es vs) db1)\<lparr>db_gc := \<lparr>gc_committed_transactions = li, gc_waiting_deltas = [],
      gc_garbage_undo_buffers = garbage, gc_deleted_vertices = [], gc_deleted_edges = []\<rparr>\<rparr>"
  have o3: "objs db3 = objs db1"
    by (rule objs_eqI) (simp_all add: db3_def)
  have st3: "store_ok db3"
    using u1 ok by (auto simp: db3_def unlinked_to_def db_ok_def store_ok_def)
  obtain db4 where r4: "gc_remove_objects env es vs db3 = Inr db4" "removes_dead db3 db4"
    using gc_remove_objects_dead[of db3 es vs env] d1 o3 st3 by auto
  define db5 where "db5 = (if ge_full_scan_vertices env then gc_scan_vertices env db4 else db4)"
  define db6 where "db6 = (if ge_full_scan_edges env then gc_scan_edges env db5 else db5)"
  have run: "CollectGarbage env db = Inr db6"
    unfolding CollectGarbage_def Let_def
    by (simp only: True simp_thms if_False wait bind_result.simps prod.case H_def[symmetric] gc_buffers_def[symmetric] un_def[symmetric] li_def[symmetric] f
        garbage_def[symmetric] db3_def[symmetric] r4(1) db5_def[symmetric] db6_def[symmetric])
  have rd: "removes_dead db3 db6"
  proof -
    have "removes_dead db4 db5"
      unfolding db5_def using gc_scan_vertices_dead removes_dead_refl by simp
    moreover have "removes_dead db5 db6"
      unfolding db6_def using gc_scan_edges_dead removes_dead_refl by simp
    ultimately show ?thesis
      by (rule removes_dead_trans[OF removes_dead_trans[OF r4(2)]])
  qed
  have fields: "db_heap db6 = db_heap db" "db_commit_log db6 = db_commit_log db" "db_timestamp db6 = db_timestamp db"
    "db_transaction_id db6 = db_transaction_id db" "db_config db6 = db_config db" "store_ok db6"
    "db_gc db6 = \<lparr>gc_committed_transactions = li, gc_waiting_deltas = [], gc_garbage_undo_buffers = garbage, gc_deleted_vertices = [], gc_deleted_edges = []\<rparr>"
    using rd u1 st3 by (auto simp: removes_dead_def ids_frame_def unlinked_to_def rest_frame_def db3_def)
  have left: "objs db6 o' = objs db1 o' \<or> objs db6 o' = None \<and> dead_in (objs db1) o'" for o'
    using rd o3 by (simp add: removes_dead_def)
  have obs: "obsolete (mv_of A db) d" if "below A (db_heap db) H d" for d
    using that horizon_bounds(2)[OF ok, of _ _ env] by (fastforce simp: obsolete_def below_def H_def)
  have "pruned (mv_of A db) (objs db o') (objs db6 o')" for o'
  proof (cases "objs db o'")
    case None
    then show ?thesis
      using left[of o'] cut_toD(2)[OF c1, of o'] by (auto simp: pruned_def dead_in_def)
  next
    case (Some p)
    obtain a ds where o: "objs db o' = Some (a, ds)"
      using Some by (cases p) auto
    then obtain new old where n: "ds = new @ old" "objs db1 o' = Some (a, new)" "\<forall>d \<in> set old. below A (db_heap db) H d"
      using c1[unfolded cut_to_def, rule_format, of o'] by auto
    then show ?thesis
      using left[of o'] o obs by (auto simp: pruned_def dead_in_def)
  qed
  then have step: "mv_step Internal i (mv_of A db) (mv_of A db6)"
    by (intro prune_step) (simp_all add: fields)
  have ok6: "db_ok A db6"
    using ok mv_step_inv[OF step] fields by (simp add: db_ok_def log_ok_def)
  have same6: "objs db1 o' = Some (a, ds)" if "objs db6 o' = Some (a, ds)" for o' a ds
    using left[of o'] that by simp
  have chain6: "\<exists>es. objs db o' = Some (a, ds @ es)" if "objs db6 o' = Some (a, ds)" for o' a ds
    using cut_toD(1)[OF c1 same6[OF that]] by blast
  have nobelow: "\<not> below A (db_heap db) H d" if "objs db6 o' = Some (a, ds)" "d \<in> set ds" for o' a ds d
    by (rule unlinked_no_below[OF ok gc _ l[unfolded un_def] same6[OF that(1)] that(2)])
       (unfold H_def, rule horizon_bounds(1)[OF ok])
  have unr: "unreachable db6 b" if "b \<in> set un" for b
    unfolding unreachable_def
  proof clarify
    fix o' uid a ds d
    assume "(o', d_uid d) \<in> set (gd_deltas b)" and o: "objs db6 o' = Some (a, ds)" "d \<in> set ds"
    moreover obtain es where "objs db o' = Some (a, ds @ es)"
      using chain6[OF o(1)] by blast
    ultimately have "below A (db_heap db) H d"
      using buffer_ok_below[of A db b H o' "d_uid d" a "ds @ es" d] bufs that by (auto simp: un_def)
    then show False
      using nobelow[OF o] by simp
  qed
  have mem: "\<And>b. b \<in> set (gc_buffers (db_gc db)) \<Longrightarrow> b \<notin> set un \<Longrightarrow> b \<in> set li"
    by (simp add: un_def li_def)
  have b6: "gc_buffers (db_gc db6) = li"
    by (simp add: gc_buffers_def fields(7))
  have "buffer_ok (mv_of A db6) b" if "b \<in> set li" for b
  proof -
    have "b \<in> set (gc_buffers (db_gc db))"
      using that by (simp add: li_def)
    then obtain ci where ci: "gd_commit_info b = Some ci" "A ci = None" "ci < db_transaction_id db"
      "gd_unlinkable_timestamp b = ci_timestamp (h_commit_infos (db_heap db) ci)" "owned (mv_of A db) ci (set (gd_deltas b))"
      using bufs by (auto simp: buffer_ok_def)
    then show ?thesis
      using mv_step_owned[OF step ci(5)] fields by (simp add: buffer_ok_def)
  qed
  moreover have "accounted li pend o' d" if o: "objs db6 o' = Some (a, ds)" "d \<in> set ds" and "A (d_commit_info d) = None" for o' a ds d
  proof -
    obtain es where "objs db o' = Some (a, ds @ es)"
      using chain6[OF o(1)] by blast
    then have "accounted (gc_buffers (db_gc db)) pend o' d"
      using gc(1) that by (auto simp: gc_inv_def)
    moreover have "b \<notin> set un" if "(o', d_uid d) \<in> set (gd_deltas b)" for b
      using unr[of b] o that unfolding unreachable_def by blast
    ultimately show ?thesis
      unfolding accounted_def using mem by blast
  qed
  ultimately have gc6: "gc_inv (mv_of A db6) pend (db_gc db6)"
    unfolding gc_inv_def b6 unfolding fields(7) by (auto simp: lists_dead_def)
  have "b \<in> set (gc_buffers (db_gc db6)) \<or> unreachable db6 b" if "b \<in> set (gc_buffers (db_gc db))" for b
    unfolding b6 using mem[OF that] unr[of b] by blast
  then show ?thesis
    using run step ok6 gc6 fields nobelow unfolding H_def by blast
qed

end
