(* ===== verification/GcHandover.thy ===== *)
theory GcHandover
  imports GcSteps
begin

text \<open>
  What the transactions hand over to the garbage collector: the steps of the machine keep the invariant of
  the collector's lists, a committed transaction is pending until it is finalized, and then its buffer
  has exactly its deltas.
\<close>

section \<open>Where deltas come from\<close>

text \<open>A delta of a finished transaction in a chain was there before, and its transaction was finished or commits.\<close>

lemma step_delta:
  assumes "mv_step ev i m m'" and "mv_inv m" and "mv_objs m' o' = Some (a, ds)" "d \<in> set ds" and "mv_active m' (d_commit_info d) = None"
  shows "\<exists>b es. mv_objs m o' = Some (b, es) \<and> d \<in> set es \<and> (mv_active m (d_commit_info d) = None \<or> ev = Commit \<and> d_commit_info d = i)"
  using assms(1)
proof (cases rule: mv_step.cases)
  case (begin_tx T)
  then show ?thesis
    using assms(3-5) by (auto split: if_splits)
next
  case (local T T' h')
  then show ?thesis
    using assms(3-5) by (auto split: if_splits)
next
  case (push T p b es T' h' new a')
  have "tx_id T = i"
    using txs_okD[OF mv_invD(1)[OF assms(2)] push(3)] by (simp add: tx_ok_def)
  then show ?thesis
    using push assms(3-5) by (auto simp: pushed_def split: if_splits)
next
  case (create T p T' h' e a')
  have "tx_id T = i"
    using txs_okD[OF mv_invD(1)[OF assms(2)] create(3)] by (simp add: tx_ok_def)
  then show ?thesis
    using create assms(3-5) by (auto simp: pushed_def split: if_splits)
next
  case tick
  then show ?thesis
    using assms(3-5) by auto
next
  case (commit T h')
  then show ?thesis
    using assms(3-5) by (auto split: if_splits)
next
  case (abort T h')
  then have "rolled_back i (mv_objs m o') = Some (a, ds)"
    using assms(3) by simp
  then obtain a0 ds0 where o: "mv_objs m o' = Some (a0, ds0)" "ds = below_block i ds0"
    by (rule rolled_back_SomeD)
  have "d_commit_info d \<noteq> i"
    using below_block_other[OF obj_okD(1)[OF mv_invD(2)[OF assms(2) o(1)]] abort(3)] assms(4) o(2) by simp
  moreover have "d \<in> set ds0"
    using assms(4) o(2) by (auto simp: below_block_def dest: set_dropWhileD)
  ultimately show ?thesis
    using o(1) assms(5) abort(2) by (simp split: if_splits)
next
  case (prune objs')
  have "objs' o' = Some (a, ds)"
    using assms(3) prune(2) by simp
  then have "pruned m (mv_objs m o') (Some (a, ds))"
    using prune(3) by metis
  then show ?thesis
    using assms(4,5) prune(2) by (auto dest: prunedD)
qed

text \<open>All deltas of a transaction are in a set.\<close>

definition covers :: "mv \<Rightarrow> nat \<Rightarrow> (delta_owner \<times> nat) set \<Rightarrow> bool" where
  "covers m i D \<longleftrightarrow> (\<forall>o' a ds d. mv_objs m o' = Some (a, ds) \<longrightarrow> d \<in> set ds \<longrightarrow> d_commit_info d = i \<longrightarrow> (o', d_uid d) \<in> D)"

lemma covers_active: "mv_inv m \<Longrightarrow> mv_active m i = Some T \<Longrightarrow> covers m i (set (tx_deltas T))"
  unfolding covers_def using obj_okD(6)[OF mv_invD(2)] by blast

lemma covers_step:
  assumes "mv_step ev j m m'" and "mv_inv m" and "mv_active m' i = None" and "covers m i D"
  shows "covers m' i D"
  unfolding covers_def using step_delta[OF assms(1,2)] assms(3,4) by (metis covers_def)

section \<open>The lists\<close>

lemma dead_step:
  assumes "mv_step ev i m m'" and "ev \<noteq> Internal" and "dead_in (mv_objs m) o'"
  shows "dead_in (mv_objs m') o'"
  using assms
proof (cases rule: mv_step.cases)
  case (abort T h')
  then show ?thesis
    using assms(3) by (auto simp: dead_in_def rolled_back_def own_block_def below_block_def)
qed (auto simp: dead_in_def)

lemma lists_dead_mono: "lists_dead f l \<Longrightarrow> (\<And>o'. dead_in f o' \<Longrightarrow> dead_in f' o') \<Longrightarrow> lists_dead f' l"
  by (simp add: lists_dead_def)

lemma buffer_ok_step:
  assumes "mv_step ev i m m'" and "mv_inv m" and "buffer_ok m b"
  shows "buffer_ok m' b"
proof -
  obtain ci where ci: "gd_commit_info b = Some ci" "mv_active m ci = None" "ci < mv_next_id m"
    "gd_unlinkable_timestamp b = ci_timestamp (h_commit_infos (mv_heap m) ci)" "owned m ci (set (gd_deltas b))"
    using assms(3) by (auto simp: buffer_ok_def)
  then show ?thesis
    using mv_step_finished[OF assms(1,2) ci(2,3)] mv_step_owned[OF assms(1) ci(5)] by (simp add: buffer_ok_def)
qed

lemma accounted_mono: "accounted bs pend o' d \<Longrightarrow> set bs \<subseteq> set bs' \<Longrightarrow> pend \<subseteq> pend' \<Longrightarrow> accounted bs' pend' o' d"
  unfolding accounted_def by blast

lemma gc_inv_step:
  assumes step: "mv_step ev i m m'" and inv: "mv_inv m" and gc: "gc_inv m pend gc" and ev: "ev \<noteq> Internal"
    and pend: "pend \<subseteq> pend'" "ev = Commit \<Longrightarrow> i \<in> pend'"
  shows "gc_inv m' pend' gc"
proof -
  have "accounted (gc_buffers gc) pend' o' d" if d: "mv_objs m' o' = Some (a, ds)" "d \<in> set ds" "mv_active m' (d_commit_info d) = None" for o' a ds d
  proof -
    obtain b es where o: "mv_objs m o' = Some (b, es)" "d \<in> set es" and "mv_active m (d_commit_info d) = None \<or> ev = Commit \<and> d_commit_info d = i"
      using step_delta[OF step inv d] by blast
    then show ?thesis
    proof (elim disjE)
      assume "mv_active m (d_commit_info d) = None"
      then have "accounted (gc_buffers gc) pend o' d"
        using gc o by (simp add: gc_inv_def)
      then show ?thesis
        by (rule accounted_mono) (use pend in auto)
    qed (use pend(2) in \<open>auto simp: accounted_def\<close>)
  qed
  moreover have "buffer_ok m' b" if "b \<in> set (gc_buffers gc)" for b
    using buffer_ok_step[OF step inv] gc that by (simp add: gc_inv_def)
  moreover have "lists_dead (mv_objs m') (gc_deleted_edges gc, gc_deleted_vertices gc)"
    using gc dead_step[OF step ev] by (auto simp: gc_inv_def intro: lists_dead_mono)
  ultimately show ?thesis
    by (auto simp: gc_inv_def)
qed

lemma gc_inv_tick: "gc_inv (m\<lparr>mv_now := t\<rparr>) pend gc \<longleftrightarrow> gc_inv m pend gc"
  by (simp add: gc_inv_def buffer_ok_def owned_def)

section \<open>The ends of a transaction\<close>

lemma db_ok_mv_inv: "db_ok A db \<Longrightarrow> mv_inv (mv_of A db)"
  by (simp add: db_ok_def)

text \<open>The commit timestamps of the transactions that are committed and not yet finalized.\<close>

definition pending_before :: "db \<Rightarrow> nat set \<Rightarrow> bool" where
  "pending_before db pend \<longleftrightarrow> (\<forall>ci \<in> pend. ci_timestamp (h_commit_infos (db_heap db) ci) < db_timestamp db)"

text \<open>When a commit discards deltas then all chains become empty, since there is no other user of a delta.\<close>

lemma discard_empties:
  assumes ok: "db_ok A db" and T: "A i = Some T" and other: "A(i := None) = Map.empty"
    and gc: "gc_inv (mv_of A db) {} (db_gc db)" and d: "gc_discarded t db T db'" and o: "objs db' o' = Some (a, ds)"
  shows "ds = []"
proof (cases ds)
  case (Cons e es)
  obtain P where P: "objs db' = (\<lambda>o'. map_option (\<lambda>(a, ds). (a, if P o' then [] else ds)) (objs db o'))"
    using d by (auto simp: gc_discarded_def)
  have o0: "objs db o' = Some (a, e # es)"
    using o Cons unfolding P by (auto split: if_splits)
  have off: "(o', d_uid e) \<notin> handed_over (db_gc db) T"
    using d o Cons by (auto simp: gc_discarded_def heads_off_def)
  show ?thesis
  proof (cases "d_commit_info e = i")
    case True
    have "covers (mv_of A db) i (set (tx_deltas T))"
      using covers_active[OF db_ok_mv_inv[OF ok]] T by simp
    then show ?thesis
      using off o0 True by (auto simp: covers_def handed_over_def)
  next
    case False
    then have "A (d_commit_info e) = None"
      using fun_cong[OF other, of "d_commit_info e"] by simp
    then have "accounted (gc_buffers (db_gc db)) {} o' e"
      using gc o0 by (simp add: gc_inv_def)
    then show ?thesis
      using off by (auto simp: accounted_def handed_over_def gc_buffers_def)
  qed
qed

lemma gc_discarded_lists:
  assumes "gc_discarded t db T db'" and "lists_dead (objs db) (gc_deleted_edges (db_gc db), gc_deleted_vertices (db_gc db))"
  shows "lists_dead (objs db') (gc_deleted_edges (db_gc db'), gc_deleted_vertices (db_gc db'))" "gc_buffers (db_gc db') = []"
proof -
  obtain P es vs where P: "objs db' = (\<lambda>o'. map_option (\<lambda>(a, ds). (a, if P o' then [] else ds)) (objs db o'))"
    and core: "gc_core (db_gc db') = ([], [], gc_deleted_vertices (db_gc db) @ vs, gc_deleted_edges (db_gc db) @ es)"
    and l: "emptied_lists (objs db) (objs db') es vs"
    using assms(1) by (auto simp: gc_discarded_def)
  have keep: "dead_in (objs db') o'" if "dead_in (objs db) o'" for o'
    using that by (auto simp: dead_in_def P)
  have new: "dead_in (objs db') o'" "\<not> dead_in (objs db) o'" if "emptied (objs db) (objs db') o'" for o'
    using that by (auto simp: dead_in_def emptied_def)
  show "lists_dead (objs db') (gc_deleted_edges (db_gc db'), gc_deleted_vertices (db_gc db'))"
    using assms(2) core l keep new unfolding lists_dead_def emptied_lists_def gc_core_def by auto
  show "gc_buffers (db_gc db') = []"
    using core by (simp add: gc_core_def gc_buffers_def)
qed

lemma gc_inv_commits:
  assumes ok: "db_ok A db" and T: "A i = Some T" and gc: "gc_inv (mv_of A db) pend (db_gc db)"
    and pend: "pending_unfinished db pend" "pending_before db pend" "\<forall>ci \<in> pend. ci_timestamp (h_commit_infos (db_heap db) ci) \<noteq> tx_start T"
    and c: "commits i A db T acc' db'"
  shows "gc_inv (mv_of (A(i := None)) db') (insert i pend) (db_gc db')" "covers (mv_of (A(i := None)) db') i (set (tx_deltas (acc_transaction acc')))"
proof -
  let ?A = "A(i := None)"
  obtain m where m: "mv_step Commit i (mv_of A db) m" "gc_after i ?A m db T acc' db'" and ok': "db_ok ?A db'"
    and fin: "finished (db_commit_log db') = insert (tx_start T) (finished (db_commit_log db))"
    using c by (auto simp: commits_def)
  have gm: "gc_inv m (insert i pend) (db_gc db)"
    by (rule gc_inv_step[OF m(1) db_ok_mv_inv[OF ok] gc]) auto
  have "mv_active m i = None"
    using m(1) by (cases rule: mv_step.cases) simp
  then have cm: "covers m i (set (tx_deltas T))"
    using covers_step[OF m(1) db_ok_mv_inv[OF ok]] covers_active[OF db_ok_mv_inv[OF ok]] T by simp
  have "gc_inv (mv_of ?A db') (insert i pend) (db_gc db') \<and> covers (mv_of ?A db') i (set (tx_deltas (acc_transaction acc')))"
  proof (cases "mv_of ?A db' = m \<and> acc_transaction acc' = T \<and> gc_core (db_gc db') = gc_core (db_gc db)")
    case True
    then show ?thesis
      using gm cm gc_inv_core[of "db_gc db'" "db_gc db"] by simp
  next
    case False
    then have d: "?A = Map.empty" "gc_discarded (db_timestamp db) db T db'"
      using m(2) by (auto simp: gc_after_def simp del: fun_upd_apply)
    have "ci \<notin> pend" for ci
      using cl.below_oldest[OF log_okD(1)[OF ok'], of "ci_timestamp (h_commit_infos (db_heap db) ci)"] d(2) fin pend
      by (auto simp: gc_discarded_def pending_unfinished_def pending_before_def)
    then have "pend = {}"
      by blast
    then have "d \<notin> set ds" if "objs db' o' = Some (a, ds)" for o' a ds d
      using discard_empties[OF ok T d(1) _ d(2) that] gc by simp
    moreover have "lists_dead (objs db) (gc_deleted_edges (db_gc db), gc_deleted_vertices (db_gc db))"
      using gc by (simp add: gc_inv_def)
    ultimately show ?thesis
      using gc_discarded_lists[OF d(2)] unfolding gc_inv_def covers_def by auto
  qed
  then show "gc_inv (mv_of ?A db') (insert i pend) (db_gc db')" "covers (mv_of ?A db') i (set (tx_deltas (acc_transaction acc')))"
    by auto
qed

lemma gc_inv_aborts:
  assumes ok: "db_ok A db" and gc: "gc_inv (mv_of A db) pend (db_gc db)" and c: "aborts i A db T acc' db'"
  shows "gc_inv (mv_of (A(i := None)) db') pend (db_gc db')"
proof -
  obtain m where m: "m = mv_of A db \<or> m = (mv_of A db)\<lparr>mv_now := db_timestamp db + 1\<rparr> \<and> mv_step Internal i (mv_of A db) m"
    "mv_step Abort_tx i m (mv_of (A(i := None)) db')" and core: "gc_core (db_gc db') = gc_core (db_gc db)"
    using c by (auto simp: aborts_def)
  have "gc_inv m pend (db_gc db) \<and> mv_inv m"
    using m(1) gc db_ok_mv_inv[OF ok] gc_inv_tick mv_step_inv by metis
  then have "gc_inv (mv_of (A(i := None)) db') pend (db_gc db)"
    using gc_inv_step[OF m(2)] by blast
  then show ?thesis
    using gc_inv_core[OF core] by blast
qed

end
