(* ===== verification/Operations.thy ===== *)
theory Operations
  imports DeleteSteps GcHandover
begin

text \<open>
  The calls a user of an accessor can make, as one type, and which of them the version machine covers: every covered
  call, failed or not, is a sequence of steps of its transaction (src/storage/v2/vertex_accessor.cpp,
  edge_accessor.cpp, storage.cpp, inmemory/storage.cpp).
\<close>

section \<open>What a transaction does\<close>

datatype operation =
    Op_AdvanceCommand
  | Op_CreateVertex
  | Op_CreateEdge vertex_accessor vertex_accessor edge_type_id
  | Op_AddLabel label_id vertex_accessor
  | Op_RemoveLabel label_id vertex_accessor
  | Op_SetProperty property_id pv vertex_accessor
  | Op_InitProperties property_map vertex_accessor
  | Op_UpdateProperties property_map vertex_accessor
  | Op_ClearProperties vertex_accessor
  | Op_edge_SetProperty property_id pv edge_accessor
  | Op_edge_InitProperties property_map edge_accessor
  | Op_edge_UpdateProperties property_map edge_accessor
  | Op_edge_ClearProperties edge_accessor
  | Op_DetachDelete "vertex_accessor list" "edge_accessor list" bool
  | Op_DeleteVertex vertex_accessor
  | Op_DeleteEdge edge_accessor
  | Op_FindVertex gid View
  | Op_HasLabel label_id vertex_accessor View
  | Op_Labels vertex_accessor View
  | Op_GetProperty property_id vertex_accessor View
  | Op_Properties vertex_accessor View
  | Op_InEdges "edge_type_id list" "gid option" "hops_limit option" vertex_accessor View
  | Op_OutEdges "edge_type_id list" "gid option" "hops_limit option" vertex_accessor View
  | Op_InDegree vertex_accessor View
  | Op_OutDegree vertex_accessor View

text \<open>The error of a call, if any, with the transaction and the storage after it.\<close>

definition outcome :: "(storage_error + 'a) \<times> transaction \<times> db \<Rightarrow> storage_error option \<times> transaction \<times> db" where
  "outcome x = (case x of (Inl e, s) \<Rightarrow> (Some e, s) | (Inr _, s) \<Rightarrow> (None, s))"

definition outcome_read :: "db \<Rightarrow> (storage_error + 'a) \<times> transaction \<Rightarrow> storage_error option \<times> transaction \<times> db" where
  "outcome_read db x = (case x of (r, tx) \<Rightarrow> outcome (r, tx, db))"

fun run :: "operation \<Rightarrow> transaction \<Rightarrow> db \<Rightarrow> storage_error option \<times> transaction \<times> db" where
  "run Op_AdvanceCommand T db = (None, AdvanceCommand T db)"
| "run Op_CreateVertex T db = outcome (CreateVertex T db)"
| "run (Op_CreateEdge src dst t) T db = outcome (CreateEdge src dst t T db)"
| "run (Op_AddLabel l acc) T db = outcome (AddLabel l acc T db)"
| "run (Op_RemoveLabel l acc) T db = outcome (RemoveLabel l acc T db)"
| "run (Op_SetProperty p w acc) T db = outcome (VertexAccessor_SetProperty p w acc T db)"
| "run (Op_InitProperties ps acc) T db = outcome (VertexAccessor_InitProperties ps acc T db)"
| "run (Op_UpdateProperties ps acc) T db = outcome (VertexAccessor_UpdateProperties ps acc T db)"
| "run (Op_ClearProperties acc) T db = outcome (VertexAccessor_ClearProperties acc T db)"
| "run (Op_edge_SetProperty p w acc) T db = outcome (EdgeAccessor_SetProperty p w acc T db)"
| "run (Op_edge_InitProperties ps acc) T db = outcome (EdgeAccessor_InitProperties ps acc T db)"
| "run (Op_edge_UpdateProperties ps acc) T db = outcome (EdgeAccessor_UpdateProperties ps acc T db)"
| "run (Op_edge_ClearProperties acc) T db = outcome (EdgeAccessor_ClearProperties acc T db)"
| "run (Op_DetachDelete nodes edges detach) T db = outcome (DetachDelete nodes edges detach T db)"
| "run (Op_DeleteVertex acc) T db = outcome (DeleteVertex acc T db)"
| "run (Op_DeleteEdge acc) T db = outcome (DeleteEdge acc T db)"
| "run (Op_FindVertex g view) T db = outcome (FindVertex g view T db)"
| "run (Op_HasLabel l acc view) T db = outcome_read db (HasLabel l acc view T db)"
| "run (Op_Labels acc view) T db = outcome_read db (Labels acc view T db)"
| "run (Op_GetProperty p acc view) T db = outcome_read db (VertexAccessor_GetProperty p acc view T db)"
| "run (Op_Properties acc view) T db = outcome_read db (Properties acc view T db)"
| "run (Op_InEdges types dst hops acc view) T db =
    (case InEdges types dst hops acc view T db of (r, tx, _) \<Rightarrow> outcome (r, tx, db))"
| "run (Op_OutEdges types dst hops acc view) T db =
    (case OutEdges types dst hops acc view T db of (r, tx, _) \<Rightarrow> outcome (r, tx, db))"
| "run (Op_InDegree acc view) T db = outcome_read db (InDegree acc view T db)"
| "run (Op_OutDegree acc view) T db = outcome_read db (OutDegree acc view T db)"

text \<open>
  The calls the transition system covers.  An edge is created without non-sequential deltas, that is, when the chains
  of its ends carry no uncommitted delta of another transaction; property maps are ordered; the equality of values that
  \<open>UpdateProperties\<close> uses to skip a delta is exact.  A failed deletion, and a failed \<open>UpdateProperties\<close> of a vertex, can leave
  writes behind that no delta undoes.
\<close>

definition covered :: "operation \<Rightarrow> transaction \<Rightarrow> db \<Rightarrow> bool" where
  "covered op T db \<longleftrightarrow> (case op of
     Op_CreateEdge src dst t \<Rightarrow> sequential_end db T (va_vertex src) \<and> sequential_end db T (va_vertex dst)
   | Op_InitProperties ps acc \<Rightarrow> ordered_map ps
   | Op_UpdateProperties ps acc \<Rightarrow> ordered_map ps \<and> (\<forall>a b. cfg_value_eq (db_config db) a b \<longrightarrow> a = b) \<and> fst (run op T db) = None
   | Op_edge_InitProperties ps acc \<Rightarrow> ordered_map ps
   | Op_edge_UpdateProperties ps acc \<Rightarrow> ordered_map ps \<and> (\<forall>a b. cfg_value_eq (db_config db) a b \<longrightarrow> a = b)
   | Op_DetachDelete nodes edges detach \<Rightarrow> fst (run op T db) = None
   | Op_DeleteVertex acc \<Rightarrow> fst (run op T db) = None
   | Op_DeleteEdge acc \<Rightarrow> fst (run op T db) = None
   | _ \<Rightarrow> True)"

section \<open>Every covered call is a progress of its transaction\<close>

lemma outcome_snd [simp]: "snd (outcome (r, s)) = s"
  by (simp add: outcome_def split: sum.split)

lemma outcome_None: "fst (outcome x) = None \<Longrightarrow> \<exists>y s. x = (Inr y, s) \<and> outcome x = (None, s)"
  by (cases x; cases "fst x") (auto simp: outcome_def)

lemma outcome_progress:
  assumes "outcome x = (e, T', db')" and "case x of (r, T', db') \<Rightarrow> progress i A db T' db'"
  shows "progress i A db T' db'"
  using assms outcome_snd[of "fst x" "snd x"] by (cases x) auto

text \<open>A read changes at most the cache of its transaction.\<close>

definition cache_only :: "transaction \<Rightarrow> (storage_error + 'a) \<times> transaction \<Rightarrow> bool" where
  "cache_only T x \<longleftrightarrow> (\<exists>c. snd x = T\<lparr>tx_cache := c\<rparr>)"

lemma cache_only_reads:
  "cache_only T (HasLabel l acc view T db)" "cache_only T (Labels acc view T db)"
  "cache_only T (VertexAccessor_GetProperty p acc view T db)" "cache_only T (Properties acc view T db)"
  "cache_only T (InDegree acc view T db)" "cache_only T (OutDegree acc view T db)"
  "cache_only T (read_edges dir types dst hops acc view T db)"
  unfolding cache_only_def HasLabel_def Labels_def VertexAccessor_GetProperty_def Properties_def InDegree_def OutDegree_def read_edges_def
  by (rule vertex_read_tx)+

lemma cache_only_FindVertex: "\<exists>r c. FindVertex g view T db = (r, T\<lparr>tx_cache := c\<rparr>, db)"
proof -
  define P where "P t \<longleftrightarrow> (\<exists>c. t = T\<lparr>tx_cache := c\<rparr>)" for t
  have P: "P T" "P (T\<lparr>tx_cache := c\<rparr>)" for c
    unfolding P_def by (rule exI[of _ "tx_cache T"], simp) blast
  then have "P (snd (IsVisible_detail g T view db))"
    unfolding IsVisible_detail_def by (simp split: option.split sum.split prod.split)
  then have "P (snd (VertexAccessor_Create g T view db))"
    by (auto simp: VertexAccessor_Create_def split: sum.split prod.split)
  then have "\<exists>r t. FindVertex g view T db = (r, t, db) \<and> P t"
    using P(1) by (cases "VertexAccessor_Create g T view db") (simp add: FindVertex_def)
  then show ?thesis
    unfolding P_def by blast
qed

lemma read_progress:
  assumes "db_ok A db" and "A i = Some T" and "cache_only T x" and "outcome_read db x = (e, T', db')"
  shows "progress i A db T' db'"
proof -
  obtain r c where "x = (r, T\<lparr>tx_cache := c\<rparr>)"
    using assms(3) by (cases x) (auto simp: cache_only_def)
  then have "T' = T\<lparr>tx_cache := c\<rparr>" "db' = db"
    using assms(4) outcome_snd[of r "(T\<lparr>tx_cache := c\<rparr>, db)"] by (simp_all add: outcome_read_def)
  then show ?thesis
    using progress_cache[OF assms(1,2), of db c] by simp
qed

lemma edges_progress:
  assumes "db_ok A db" and "A i = Some T"
    and "(case InEdges types dst hops acc view T db of (r, tx, _) \<Rightarrow> outcome (r, tx, db)) = (e, T', db') \<or>
      (case OutEdges types dst hops acc view T db of (r, tx, _) \<Rightarrow> outcome (r, tx, db)) = (e, T', db')"
  shows "progress i A db T' db'"
proof -
  have "snd (case InEdges types dst hops acc view T db of (r, tx, _) \<Rightarrow> outcome (r, tx, db)) =
      (snd (read_edges IN_DIR types dst hops acc view T db), db)"
    "snd (case OutEdges types dst hops acc view T db of (r, tx, _) \<Rightarrow> outcome (r, tx, db)) =
      (snd (read_edges OUT_DIR types dst hops acc view T db), db)"
    by (simp_all add: InEdges_def OutEdges_def split_beta Let_def)
  then obtain dir where "(snd (read_edges dir types dst hops acc view T db), db) = (T', db')"
    using assms(3) by fastforce
  moreover obtain c where "snd (read_edges dir types dst hops acc view T db) = T\<lparr>tx_cache := c\<rparr>"
    using cache_only_reads(7)[of T dir types dst hops acc view db] by (auto simp: cache_only_def)
  ultimately show ?thesis
    using progress_cache[OF assms(1,2), of db c] by simp
qed

lemma AdvanceCommand_progress:
  assumes "db_ok A db" and "A i = Some T" and "AdvanceCommand T db = (T', db')"
  shows "progress i A db T' db'"
  using assms(3) by (intro progress_tx[OF assms(1,2)]) (auto simp: AdvanceCommand_def)

theorem run_progress:
  assumes ok: "db_ok A db" and T: "A i = Some T" and c: "covered op T db" and r: "run op T db = (e, T', db')"
  shows "progress i A db T' db'"
proof (cases op)
  case Op_AdvanceCommand
  then show ?thesis
    using r AdvanceCommand_progress[OF ok T] by simp
next
  case Op_CreateVertex
  then show ?thesis
    using r by (auto intro: outcome_progress[OF _ CreateVertex_progress[OF ok T]])
next
  case (Op_CreateEdge src dst t)
  then show ?thesis
    using r c by (auto simp: covered_def intro: outcome_progress[OF _ CreateEdge_progress[OF ok T]])
next
  case (Op_AddLabel l acc)
  then show ?thesis
    using r by (auto intro: outcome_progress[OF _ AddLabel_progress[OF ok T]])
next
  case (Op_RemoveLabel l acc)
  then show ?thesis
    using r by (auto intro: outcome_progress[OF _ RemoveLabel_progress[OF ok T]])
next
  case (Op_SetProperty p w acc)
  then show ?thesis
    using r by (auto intro: outcome_progress[OF _ SetProperty_progress[OF ok T]])
next
  case (Op_InitProperties ps acc)
  then show ?thesis
    using r c by (auto simp: covered_def intro: outcome_progress[OF _ InitProperties_progress[OF ok T]])
next
  case (Op_UpdateProperties ps acc)
  then obtain y where "VertexAccessor_UpdateProperties ps acc T db = (Inr y, T', db')"
    using r c outcome_None[of "VertexAccessor_UpdateProperties ps acc T db"] by (auto simp: covered_def)
  then show ?thesis
    using UpdateProperties_progress[OF ok T, of ps acc] c Op_UpdateProperties by (simp add: covered_def)
next
  case (Op_ClearProperties acc)
  then show ?thesis
    using r by (auto intro: outcome_progress[OF _ ClearProperties_progress[OF ok T]])
next
  case (Op_edge_SetProperty p w acc)
  then show ?thesis
    using r by (auto intro: outcome_progress[OF _ edge_SetProperty_progress[OF ok T]])
next
  case (Op_edge_InitProperties ps acc)
  then show ?thesis
    using r c by (auto simp: covered_def intro: outcome_progress[OF _ edge_InitProperties_progress[OF ok T]])
next
  case (Op_edge_UpdateProperties ps acc)
  then show ?thesis
    using r c by (auto simp: covered_def intro: outcome_progress[OF _ edge_UpdateProperties_progress[OF ok T]])
next
  case (Op_edge_ClearProperties acc)
  then show ?thesis
    using r by (auto intro: outcome_progress[OF _ edge_ClearProperties_progress[OF ok T]])
next
  case (Op_DetachDelete nodes edges detach)
  then obtain y where "DetachDelete nodes edges detach T db = (Inr y, T', db')"
    using r c outcome_None[of "DetachDelete nodes edges detach T db"] by (auto simp: covered_def)
  then show ?thesis
    by (rule DetachDelete_progress[OF ok T])
next
  case (Op_DeleteVertex acc)
  then obtain y where "DeleteVertex acc T db = (Inr y, T', db')"
    using r c outcome_None[of "DeleteVertex acc T db"] by (auto simp: covered_def)
  then show ?thesis
    by (rule DeleteVertex_progress[OF ok T])
next
  case (Op_DeleteEdge acc)
  then obtain y where "DeleteEdge acc T db = (Inr y, T', db')"
    using r c outcome_None[of "DeleteEdge acc T db"] by (auto simp: covered_def)
  then show ?thesis
    by (rule DeleteEdge_progress[OF ok T])
next
  case (Op_FindVertex g view)
  obtain r0 c0 where "FindVertex g view T db = (r0, T\<lparr>tx_cache := c0\<rparr>, db)"
    using cache_only_FindVertex[of g view T db] by blast
  then show ?thesis
    using r Op_FindVertex outcome_snd[of r0 "(T\<lparr>tx_cache := c0\<rparr>, db)"] progress_cache[OF ok T, of db c0] by simp
next
  case (Op_InEdges types dst hops acc view)
  then show ?thesis
    using r by (intro edges_progress[OF ok T, of types dst hops acc view e T' db']) simp
next
  case (Op_OutEdges types dst hops acc view)
  then show ?thesis
    using r by (intro edges_progress[OF ok T, of types dst hops acc view e T' db']) simp
qed (use r in \<open>auto intro: read_progress[OF ok T] cache_only_reads\<close>)

end
