(* ===== verification/System.thy ===== *)
theory System
  imports Operations
begin

text \<open>
  The in-memory storage as a whole (src/storage/v2/inmemory/storage.cpp): the accessors that are open on it,
  what each of them may do, and the garbage collector, as one transition system over the operations of the
  other theories.  Its invariant joins the invariants of the version chains, the commit log and the lists of the
  collector.
\<close>

section \<open>The transition system\<close>

text \<open>The storage and its open accessors, by the id of their transaction.\<close>

record sys =
  sys_db :: db
  sys_accessors :: "nat \<rightharpoonup> accessor"

definition Sys_new :: "config \<Rightarrow> sys" where
  "Sys_new cfg = \<lparr>sys_db = new_storage cfg, sys_accessors = Map.empty\<rparr>"

datatype sys_event = Ev_begin IsolationLevel bool | Ev_run operation | Ev_commit commit_env | Ev_commit_read_only commit_env
  | Ev_abort | Ev_destroy | Ev_collect gc_env

text \<open>
  A transaction with nothing to commit is still active after \<open>PrepareForCommitPhase\<close>, so the destructor of
  its accessor aborts it and finishes its start timestamp once more; the step covers the case in which the block of the commit
  log with that timestamp is still there.
\<close>

inductive sys_step :: "sys_event \<Rightarrow> nat \<Rightarrow> sys \<Rightarrow> sys \<Rightarrow> bool" where
  sys_begin: "\<lbrakk>Accessor_new il IN_MEMORY_TRANSACTIONAL c (sys_db s) = (acc, db'); db_timestamp (sys_db s) < kTransactionInitialId;
    i = tx_id (acc_transaction acc)\<rbrakk>
   \<Longrightarrow> sys_step (Ev_begin il c) i s \<lparr>sys_db = db', sys_accessors = (sys_accessors s)(i \<mapsto> acc)\<rparr>"
| sys_run: "\<lbrakk>sys_accessors s i = Some acc; acc_is_transaction_active acc; covered op (acc_transaction acc) (sys_db s);
    run op (acc_transaction acc) (sys_db s) = (e, T', db')\<rbrakk>
   \<Longrightarrow> sys_step (Ev_run op) i s \<lparr>sys_db = db', sys_accessors = (sys_accessors s)(i \<mapsto> acc\<lparr>acc_transaction := T'\<rparr>)\<rparr>"
| sys_commit: "\<lbrakk>sys_accessors s i = Some acc; may_commit env acc; db_timestamp (sys_db s) < kTransactionInitialId;
    PrepareForCommitPhase env acc (sys_db s) = (r, acc', db')\<rbrakk>
   \<Longrightarrow> sys_step (Ev_commit env) i s \<lparr>sys_db = db', sys_accessors = (sys_accessors s)(i \<mapsto> acc')\<rparr>"
| sys_commit_read_only: "\<lbrakk>sys_accessors s i = Some acc; acc_is_transaction_active acc; tx_deltas (acc_transaction acc) = [];
    \<not> ce_has_md_deltas env; PrepareForCommitPhase env acc (sys_db s) = (Inr u, acc', db1);
    cl_head_start (db_commit_log db1) \<le> tx_start (acc_transaction acc); Accessor_destroy acc' db1 = Inr db'\<rbrakk>
   \<Longrightarrow> sys_step (Ev_commit_read_only env) i s \<lparr>sys_db = db', sys_accessors = (sys_accessors s)(i := None)\<rparr>"
| sys_abort: "\<lbrakk>sys_accessors s i = Some acc; Abort acc (sys_db s) = Inr (acc', db')\<rbrakk>
   \<Longrightarrow> sys_step Ev_abort i s \<lparr>sys_db = db', sys_accessors = (sys_accessors s)(i \<mapsto> acc')\<rparr>"
| sys_destroy: "\<lbrakk>sys_accessors s i = Some acc; Accessor_destroy acc (sys_db s) = Inr db'\<rbrakk>
   \<Longrightarrow> sys_step Ev_destroy i s \<lparr>sys_db = db', sys_accessors = (sys_accessors s)(i := None)\<rparr>"
| sys_collect: "CollectGarbage env (sys_db s) = Inr db' \<Longrightarrow> sys_step (Ev_collect env) i s (s\<lparr>sys_db := db'\<rparr>)"

section \<open>The invariant\<close>

definition actives_of :: "(nat \<rightharpoonup> accessor) \<Rightarrow> actives" where
  "actives_of accs i = (case accs i of None \<Rightarrow> None
     | Some acc \<Rightarrow> if acc_is_transaction_active acc then Some (acc_transaction acc) else None)"

text \<open>The transactions that are committed and whose accessor is not destroyed yet.\<close>

definition pending_of :: "(nat \<rightharpoonup> accessor) \<Rightarrow> nat set" where
  "pending_of accs = {i. \<exists>acc t. accs i = Some acc \<and> acc_commit_timestamp acc = Some t}"

text \<open>The timestamp an accessor keeps unfinished.\<close>

definition open_ts :: "accessor \<Rightarrow> nat option" where
  "open_ts acc = (if acc_is_transaction_active acc then Some (tx_start (acc_transaction acc)) else acc_commit_timestamp acc)"

definition committed_ok :: "mv \<Rightarrow> nat \<Rightarrow> nat \<Rightarrow> transaction \<Rightarrow> bool" where
  "committed_ok m i t T \<longleftrightarrow> tx_commit_info T = Some i \<and> ci_timestamp (h_commit_infos (mv_heap m) i) = t \<and>
     owned m i (set (tx_deltas T)) \<and> covers m i (set (tx_deltas T))"

definition accessor_ok :: "mv \<Rightarrow> nat \<Rightarrow> accessor \<Rightarrow> bool" where
  "accessor_ok m i acc \<longleftrightarrow> i < mv_next_id m \<and>
     (if acc_is_transaction_active acc then acc_commit_timestamp acc = None
      else case acc_commit_timestamp acc of None \<Rightarrow> tx_deltas (acc_transaction acc) = []
        | Some t \<Rightarrow> committed_ok m i t (acc_transaction acc))"

text \<open>The timestamps given out are finished or kept open by exactly one accessor.\<close>

definition opened :: "(nat \<rightharpoonup> accessor) \<Rightarrow> nat \<rightharpoonup> nat" where
  "opened accs i = Option.bind (accs i) open_ts"

definition stamps_ok :: "(nat \<rightharpoonup> nat) \<Rightarrow> nat set \<Rightarrow> nat \<Rightarrow> bool" where
  "stamps_ok f fin now \<longleftrightarrow> (\<forall>i t. f i = Some t \<longrightarrow> t < now \<and> t \<notin> fin) \<and> (\<forall>i j t. f i = Some t \<longrightarrow> f j = Some t \<longrightarrow> i = j) \<and>
     (\<forall>t < now. t \<in> fin \<or> (\<exists>i. f i = Some t))"

definition open_ok :: "(nat \<rightharpoonup> accessor) \<Rightarrow> db \<Rightarrow> bool" where
  "open_ok accs db \<longleftrightarrow> stamps_ok (opened accs) (finished (db_commit_log db)) (db_timestamp db)"

lemma opened_simps [simp]:
  "accs i = Some acc \<Longrightarrow> opened accs i = open_ts acc" "opened (accs(i \<mapsto> acc)) = (opened accs)(i := open_ts acc)"
  "opened (accs(i := None)) = (opened accs)(i := None)" "opened Map.empty = Map.empty"
  by (auto simp: opened_def fun_eq_iff)

lemma stamps_okI:
  "(\<And>i t. f i = Some t \<Longrightarrow> t < now \<and> t \<notin> fin) \<Longrightarrow> (\<And>i j t. f i = Some t \<Longrightarrow> f j = Some t \<Longrightarrow> i = j) \<Longrightarrow>
   (\<And>t. t < now \<Longrightarrow> t \<notin> fin \<Longrightarrow> \<exists>i. f i = Some t) \<Longrightarrow> stamps_ok f fin now"
  unfolding stamps_ok_def by blast

lemma stamps_okD:
  "stamps_ok f fin now \<Longrightarrow> f i = Some t \<Longrightarrow> t < now" "stamps_ok f fin now \<Longrightarrow> f i = Some t \<Longrightarrow> t \<notin> fin"
  "stamps_ok f fin now \<Longrightarrow> f i = Some t \<Longrightarrow> f j = Some t \<Longrightarrow> i = j"
  "stamps_ok f fin now \<Longrightarrow> t < now \<Longrightarrow> t \<notin> fin \<Longrightarrow> \<exists>i. f i = Some t"
  unfolding stamps_ok_def by blast+

lemma stamps_ok_close:
  assumes ok: "stamps_ok f fin now" and t: "f i = Some t" and "now \<le> now'"
  shows "stamps_ok (f(i := None)) (insert t (fin \<union> {now..<now'})) now'"
proof (rule stamps_okI)
  fix j u
  assume "(f(i := None)) j = Some u"
  then have j: "f j = Some u" "j \<noteq> i"
    by (auto split: if_splits)
  then have "u \<noteq> t"
    using stamps_okD(3)[OF ok t] by blast
  then show "u < now' \<and> u \<notin> insert t (fin \<union> {now..<now'})"
    using stamps_okD(1,2)[OF ok j(1)] assms(3) by auto
next
  fix j k u
  assume "(f(i := None)) j = Some u" "(f(i := None)) k = Some u"
  then show "j = k"
    using stamps_okD(3)[OF ok, of j u k] by (auto split: if_splits)
next
  fix u
  assume "u < now'" "u \<notin> insert t (fin \<union> {now..<now'})"
  then have u: "u < now" "u \<notin> fin" "u \<noteq> t"
    by auto
  then obtain j where j: "f j = Some u"
    using stamps_okD(4)[OF ok] by blast
  then have "j \<noteq> i"
    using t u(3) by auto
  then show "\<exists>j. (f(i := None)) j = Some u"
    using j by (intro exI[of _ j]) simp
qed

lemma stamps_ok_open:
  assumes ok: "stamps_ok f fin now" and i: "f i = None" and fin: "fin \<subseteq> {..<now}"
  shows "stamps_ok (f(i \<mapsto> now)) fin (now + 1)"
proof (rule stamps_okI)
  fix j u
  assume "(f(i \<mapsto> now)) j = Some u"
  then show "u < now + 1 \<and> u \<notin> fin"
    using stamps_okD(1,2)[OF ok, of j u] fin by (auto split: if_splits)
next
  fix j k u
  assume "(f(i \<mapsto> now)) j = Some u" "(f(i \<mapsto> now)) k = Some u"
  then show "j = k"
    using stamps_okD(1)[OF ok, of j u] stamps_okD(1)[OF ok, of k u] stamps_okD(3)[OF ok, of j u k] by (auto split: if_splits)
next
  fix u
  assume u: "u < now + 1" "u \<notin> fin"
  show "\<exists>j. (f(i \<mapsto> now)) j = Some u"
  proof (cases "u = now")
    case False
    then obtain j where j: "f j = Some u"
      using u stamps_okD(4)[OF ok, of u] by auto
    then have "j \<noteq> i"
      using i by auto
    then show ?thesis
      using j by (intro exI[of _ j]) simp
  qed auto
qed

abbreviation machine :: "sys \<Rightarrow> mv" where
  "machine s \<equiv> mv_of (actives_of (sys_accessors s)) (sys_db s)"

definition sys_inv :: "sys \<Rightarrow> bool" where
  "sys_inv s \<longleftrightarrow> kTransactionInitialId \<le> db_transaction_id (sys_db s) \<and> db_ok (actives_of (sys_accessors s)) (sys_db s) \<and> own_deltas (machine s) \<and>
     gc_inv (machine s) (pending_of (sys_accessors s)) (db_gc (sys_db s)) \<and>
     (\<forall>i acc. sys_accessors s i = Some acc \<longrightarrow> accessor_ok (machine s) i acc) \<and> open_ok (sys_accessors s) (sys_db s)"

lemma actives_of_simps [simp]:
  "actives_of (accs(i := None)) = (actives_of accs)(i := None)"
  "acc_is_transaction_active acc \<Longrightarrow> actives_of (accs(i \<mapsto> acc)) = (actives_of accs)(i \<mapsto> acc_transaction acc)"
  "\<not> acc_is_transaction_active acc \<Longrightarrow> actives_of (accs(i \<mapsto> acc)) = (actives_of accs)(i := None)"
  "actives_of Map.empty = Map.empty"
  by (auto simp: actives_of_def fun_eq_iff)

lemma actives_of_Some: "actives_of accs i = Some T \<longleftrightarrow> (\<exists>acc. accs i = Some acc \<and> acc_is_transaction_active acc \<and> acc_transaction acc = T)"
  by (auto simp: actives_of_def split: option.splits)

lemma pending_of_simps [simp]:
  "pending_of (accs(i := None)) = pending_of accs - {i}"
  "acc_commit_timestamp acc = None \<Longrightarrow> pending_of (accs(i \<mapsto> acc)) = pending_of accs - {i}"
  "acc_commit_timestamp acc = Some t \<Longrightarrow> pending_of (accs(i \<mapsto> acc)) = insert i (pending_of accs)"
  "pending_of Map.empty = {}"
  by (auto simp: pending_of_def split: if_splits)

lemma sys_invD:
  assumes "sys_inv s"
  shows "db_ok (actives_of (sys_accessors s)) (sys_db s)" "own_deltas (machine s)"
    "gc_inv (machine s) (pending_of (sys_accessors s)) (db_gc (sys_db s))"
    "sys_accessors s i = Some acc \<Longrightarrow> accessor_ok (machine s) i acc" "open_ok (sys_accessors s) (sys_db s)"
    "mv_inv (machine s)" "kTransactionInitialId \<le> db_transaction_id (sys_db s)"
  using assms by (auto simp: sys_inv_def db_ok_def)

lemma sys_inv_pending:
  assumes "sys_inv s" and "ci \<in> pending_of (sys_accessors s)"
  shows "opened (sys_accessors s) ci = Some (ci_timestamp (h_commit_infos (db_heap (sys_db s)) ci))" "actives_of (sys_accessors s) ci = None"
proof -
  obtain acc t where acc: "sys_accessors s ci = Some acc" "acc_commit_timestamp acc = Some t"
    using assms(2) by (auto simp: pending_of_def)
  then show "opened (sys_accessors s) ci = Some (ci_timestamp (h_commit_infos (db_heap (sys_db s)) ci))" "actives_of (sys_accessors s) ci = None"
    using sys_invD(4)[OF assms(1) acc(1)] by (auto simp: accessor_ok_def open_ts_def committed_ok_def actives_of_def split: if_splits)
qed

lemma sys_inv_pending_ok:
  assumes "sys_inv s"
  shows "pending_unfinished (sys_db s) (pending_of (sys_accessors s))" "pending_before (sys_db s) (pending_of (sys_accessors s))"
    "actives_of (sys_accessors s) i = Some T \<Longrightarrow> \<forall>ci \<in> pending_of (sys_accessors s). ci_timestamp (h_commit_infos (db_heap (sys_db s)) ci) \<noteq> tx_start T"
proof -
  note ok = sys_invD(5)[OF assms, unfolded open_ok_def] and p = sys_inv_pending[OF assms]
  show "pending_unfinished (sys_db s) (pending_of (sys_accessors s))"
    unfolding pending_unfinished_def using stamps_okD(2)[OF ok p(1)] by blast
  show "pending_before (sys_db s) (pending_of (sys_accessors s))"
    unfolding pending_before_def using stamps_okD(1)[OF ok p(1)] by blast
  assume T: "actives_of (sys_accessors s) i = Some T"
  then have "opened (sys_accessors s) i = Some (tx_start T)"
    by (auto simp: actives_of_Some open_ts_def)
  then show "\<forall>ci \<in> pending_of (sys_accessors s). ci_timestamp (h_commit_infos (db_heap (sys_db s)) ci) \<noteq> tx_start T"
    using stamps_okD(3)[OF ok] p T by (metis option.distinct(1))
qed

section \<open>What other accessors rely on\<close>

text \<open>Any number of steps of the machine.\<close>

definition mv_steps :: "mv \<Rightarrow> mv \<Rightarrow> bool" where
  "mv_steps = (\<lambda>m m'. \<exists>ev i. mv_step ev i m m')\<^sup>*\<^sup>*"

lemma mv_steps_trans [trans]: "mv_steps m m' \<Longrightarrow> mv_steps m' m'' \<Longrightarrow> mv_steps m m''"
  unfolding mv_steps_def by (rule rtranclp_trans)

lemma mv_steps_step: "mv_step ev i m m' \<Longrightarrow> mv_steps m m'"
  unfolding mv_steps_def by (rule r_into_rtranclp) blast

lemma mv_steps_own: "(own_step i)\<^sup>*\<^sup>* m m' \<Longrightarrow> mv_steps m m'"
  unfolding mv_steps_def by (erule rtranclp_mono[THEN predicate2D, rotated]) (unfold own_step_def, blast)

lemma mv_steps_keep:
  assumes "mv_steps m m'" and "mv_inv m" and "own_deltas m"
  shows "mv_inv m' \<and> own_deltas m' \<and> mv_next_id m \<le> mv_next_id m' \<and>
    (mv_active m i = None \<and> i < mv_next_id m \<and> committed_ok m i t T \<longrightarrow> mv_active m' i = None \<and> committed_ok m' i t T)"
  using assms(1) unfolding mv_steps_def
proof (induction rule: rtranclp_induct)
  case base
  then show ?case
    using assms(2,3) by simp
next
  case (step m1 m2)
  obtain ev j where st: "mv_step ev j m1 m2"
    using step(2) by blast
  have "mv_next_id m1 \<le> mv_next_id m2"
    using st by (cases rule: mv_step.cases) simp_all
  moreover have "mv_active m2 i = None \<and> committed_ok m2 i t T"
    if "mv_active m1 i = None" "i < mv_next_id m1" "committed_ok m1 i t T"
    using mv_step_finished[OF st _ that(1,2)] mv_step_owned[OF st] covers_step[OF st] step(3) that(3) by (simp add: committed_ok_def)
  ultimately show ?case
    using step(3) mv_step_inv[OF st] mv_step_own_deltas[OF st] by auto
qed

lemma accessor_ok_steps:
  assumes "mv_steps m m'" and "mv_inv m" and "own_deltas m" and "accessor_ok m j acc" and "\<not> acc_is_transaction_active acc \<longrightarrow> mv_active m j = None"
  shows "accessor_ok m' j acc"
proof -
  have n: "mv_next_id m \<le> mv_next_id m'"
    using mv_steps_keep[OF assms(1-3)] by blast
  have keep: "committed_ok m' j t T" if "mv_active m j = None" "j < mv_next_id m" "committed_ok m j t T" for t T
    using mv_steps_keep[OF assms(1-3)] that by auto
  show ?thesis
    using assms(4,5) less_le_trans[OF _ n, of j] keep by (auto simp: accessor_ok_def split: option.splits if_splits)
qed

lemma sys_invI:
  assumes inv: "sys_inv s" and steps: "mv_steps (machine s) (machine s')"
    and same: "\<And>j. j \<noteq> i \<Longrightarrow> sys_accessors s' j = sys_accessors s j"
    and ok: "db_ok (actives_of (sys_accessors s')) (sys_db s')"
    and gc: "gc_inv (machine s') (pending_of (sys_accessors s')) (db_gc (sys_db s'))"
    and own: "\<And>acc. sys_accessors s' i = Some acc \<Longrightarrow> accessor_ok (machine s') i acc"
    and op: "open_ok (sys_accessors s') (sys_db s')"
  shows "sys_inv s'"
proof -
  note inv' = sys_invD(6,2)[OF inv]
  have "accessor_ok (machine s') j acc" if "sys_accessors s' j = Some acc" for j acc
  proof (cases "j = i")
    case False
    then have j: "sys_accessors s j = Some acc"
      using that same by simp
    then have "\<not> acc_is_transaction_active acc \<longrightarrow> mv_active (machine s) j = None"
      by (auto simp: actives_of_def)
    then show ?thesis
      using accessor_ok_steps[OF steps inv' sys_invD(4)[OF inv j]] by blast
  qed (use that own in simp)
  moreover have "own_deltas (machine s')" "db_transaction_id (sys_db s) \<le> db_transaction_id (sys_db s')"
    using mv_steps_keep[OF steps inv'] by simp_all
  ultimately show ?thesis
    using order_trans[OF sys_invD(7)[OF inv]] ok gc op by (simp add: sys_inv_def)
qed

section \<open>Every step keeps the invariant\<close>

lemma gc_inv_progress:
  assumes ok: "db_ok A db" and gc: "gc_inv (mv_of A db) pend (db_gc db)" and p: "progress i A db T' db'"
  shows "gc_inv (mv_of (A(i \<mapsto> T')) db') pend (db_gc db')"
proof -
  have "(own_step i)\<^sup>*\<^sup>* (mv_of A db) (mv_of (A(i \<mapsto> T')) db')"
    using p by (simp add: progress_def)
  then have "gc_inv (mv_of (A(i \<mapsto> T')) db') pend (db_gc db) \<and> mv_inv (mv_of (A(i \<mapsto> T')) db')"
  proof (induction rule: rtranclp_induct)
    case base
    then show ?case
      using gc db_ok_mv_inv[OF ok] by simp
  next
    case (step m m')
    then obtain ev where ev: "mv_step ev i m m'" "ev = Work \<or> ev = Write"
      by (auto simp: own_step_def)
    then show ?case
      using gc_inv_step[OF ev(1) _ _ _ subset_refl, of pend "db_gc db"] mv_step_inv[OF ev(1)] step.IH by auto
  qed
  then show ?thesis
    using gc_inv_core[of "db_gc db'" "db_gc db"] p by (simp add: progress_def)
qed

lemma active_accessor:
  assumes "sys_inv s" and "sys_accessors s i = Some acc" and "acc_is_transaction_active acc"
  shows "actives_of (sys_accessors s) i = Some (acc_transaction acc)" "acc_commit_timestamp acc = None"
    "opened (sys_accessors s) i = Some (tx_start (acc_transaction acc))" "i \<notin> pending_of (sys_accessors s)"
    "i < db_transaction_id (sys_db s)"
  using assms sys_invD(4)[OF assms(1,2)] by (auto simp: actives_of_def open_ts_def accessor_ok_def pending_of_def)

definition sys_with :: "db \<Rightarrow> nat \<Rightarrow> accessor option \<Rightarrow> sys \<Rightarrow> sys" where
  "sys_with db' i x s = \<lparr>sys_db = db', sys_accessors = (sys_accessors s)(i := x)\<rparr>"

lemma sys_with_simps [simp]:
  "sys_db (sys_with db' i x s) = db'" "sys_accessors (sys_with db' i x s) = (sys_accessors s)(i := x)"
  "sys_with db'' i y (sys_with db' i x s) = sys_with db'' i y s"
  by (simp_all add: sys_with_def)

lemma sys_inv_progress:
  assumes inv: "sys_inv s" and acc: "sys_accessors s i = Some acc" "acc_is_transaction_active acc"
    and p: "progress i (actives_of (sys_accessors s)) (sys_db s) T' db'"
  shows "sys_inv (sys_with db' i (Some (acc\<lparr>acc_transaction := T'\<rparr>)) s)"
    "mv_steps (machine s) (machine (sys_with db' i (Some (acc\<lparr>acc_transaction := T'\<rparr>)) s))" "tx_start T' = tx_start (acc_transaction acc)"
proof -
  let ?A = "actives_of (sys_accessors s)" and ?s = "sys_with db' i (Some (acc\<lparr>acc_transaction := T'\<rparr>)) s"
  note a = active_accessor[OF inv acc] and ok = sys_invD(1)[OF inv]
  have A: "actives_of (sys_accessors ?s) = ?A(i \<mapsto> T')"
    using acc(2) by simp
  have steps: "(own_step i)\<^sup>*\<^sup>* (machine s) (machine ?s)"
    using p A by (simp add: progress_def)
  then show "mv_steps (machine s) (machine ?s)"
    by (rule mv_steps_own)
  show start: "tx_start T' = tx_start (acc_transaction acc)"
    using own_steps_start[OF steps, of i "acc_transaction acc"] a(1) acc(2) by simp
  show "sys_inv ?s"
  proof (rule sys_invI[OF inv \<open>mv_steps (machine s) (machine ?s)\<close>])
    show "db_ok (actives_of (sys_accessors ?s)) (sys_db ?s)"
      unfolding A using progress_db_ok[OF ok a(1) p] by simp
    show "gc_inv (machine ?s) (pending_of (sys_accessors ?s)) (db_gc (sys_db ?s))"
      unfolding A using gc_inv_progress[OF ok sys_invD(3)[OF inv] p] a(2,4) by simp
    show "accessor_ok (machine ?s) i acc'" if "sys_accessors ?s i = Some acc'" for acc'
      using that sys_invD(4)[OF inv acc(1)] p acc(2) by (auto simp: accessor_ok_def progress_def)
    have "(opened (sys_accessors s))(i := open_ts (acc\<lparr>acc_transaction := T'\<rparr>)) = opened (sys_accessors s)"
      using a(3) start acc(2) by (auto simp: open_ts_def)
    then show "open_ok (sys_accessors ?s) (sys_db ?s)"
      using sys_invD(5)[OF inv] p by (simp add: open_ok_def progress_def)
  qed simp
qed

lemma aborts_steps:
  assumes "aborts i A db T acc' db'"
  shows "mv_steps (mv_of A db) (mv_of (A(i := None)) db')"
  using assms mv_steps_step mv_steps_trans unfolding aborts_def by metis

lemma commits_steps:
  assumes "commits i A db T acc' db'"
  shows "mv_steps (mv_of A db) (mv_of (A(i := None)) db')"
  using assms mv_steps_step mv_steps_trans unfolding commits_def gc_after_def by metis

lemma sys_inv_aborts:
  assumes inv: "sys_inv s" and acc: "sys_accessors s i = Some acc" "acc_is_transaction_active acc"
    and c: "aborts i (actives_of (sys_accessors s)) (sys_db s) (acc_transaction acc) acc' db'" and x: "x = None \<or> x = Some acc'"
  shows "sys_inv (sys_with db' i x s)" "mv_steps (machine s) (machine (sys_with db' i x s))"
proof -
  let ?A = "actives_of (sys_accessors s)" and ?s = "sys_with db' i x s"
  note a = active_accessor[OF inv acc] and ok = sys_invD(1)[OF inv]
  have acc': "\<not> acc_is_transaction_active acc'" "acc_commit_timestamp acc' = None" "tx_deltas (acc_transaction acc') = []"
    and ok': "db_ok (?A(i := None)) db'" and now: "db_timestamp (sys_db s) \<le> db_timestamp db'"
    and fin: "finished (db_commit_log db') = insert (tx_start (acc_transaction acc))
      (finished (db_commit_log (sys_db s)) \<union> {db_timestamp (sys_db s)..<db_timestamp db'})"
    and ids: "db_transaction_id db' = db_transaction_id (sys_db s)"
    using c by (simp_all add: aborts_def kept_ids_def)
  have A: "actives_of (sys_accessors ?s) = ?A(i := None)" and P: "pending_of (sys_accessors ?s) = pending_of (sys_accessors s)"
    and O: "opened (sys_accessors ?s) = (opened (sys_accessors s))(i := None)"
    using x acc' a(4) by (elim disjE; simp add: open_ts_def)+
  show steps: "mv_steps (machine s) (machine ?s)"
    unfolding A using aborts_steps[OF c] by simp
  show "sys_inv ?s"
  proof (rule sys_invI[OF inv steps])
    show "db_ok (actives_of (sys_accessors ?s)) (sys_db ?s)"
      unfolding A using ok' by simp
    show "gc_inv (machine ?s) (pending_of (sys_accessors ?s)) (db_gc (sys_db ?s))"
      unfolding A P using gc_inv_aborts[OF ok sys_invD(3)[OF inv] c] by simp
    show "accessor_ok (machine ?s) i b" if "sys_accessors ?s i = Some b" for b
      using that x acc' a(5) ids by (auto simp: accessor_ok_def)
    show "open_ok (sys_accessors ?s) (sys_db ?s)"
      unfolding open_ok_def O using stamps_ok_close[OF sys_invD(5)[OF inv, unfolded open_ok_def] a(3) now] fin by simp
  qed simp
qed

lemma sys_inv_commits:
  assumes inv: "sys_inv s" and acc: "sys_accessors s i = Some acc" "acc_is_transaction_active acc"
    and c: "commits i (actives_of (sys_accessors s)) (sys_db s) (acc_transaction acc) acc' db'"
  shows "sys_inv (sys_with db' i (Some acc') s)" "mv_steps (machine s) (machine (sys_with db' i (Some acc') s))"
proof -
  let ?A = "actives_of (sys_accessors s)" and ?s = "sys_with db' i (Some acc') s" and ?T = "acc_transaction acc"
  note a = active_accessor[OF inv acc] and ok = sys_invD(1)[OF inv]
  obtain m where m: "mv_step Commit i (machine s) m" "gc_after i (?A(i := None)) m (sys_db s) ?T acc' db'"
    using c by (auto simp: commits_def)
  have acc': "\<not> acc_is_transaction_active acc'" "acc_commit_timestamp acc' = Some (db_timestamp (sys_db s))"
    and ok': "db_ok (?A(i := None)) db'" and now: "db_timestamp db' = db_timestamp (sys_db s) + 1"
    and fin: "finished (db_commit_log db') = insert (tx_start ?T) (finished (db_commit_log (sys_db s)))"
    and ids: "db_transaction_id db' = db_transaction_id (sys_db s)"
    using c by (simp_all add: commits_def kept_ids_def)
  have A: "actives_of (sys_accessors ?s) = ?A(i := None)" and P: "pending_of (sys_accessors ?s) = insert i (pending_of (sys_accessors s))"
    and O: "opened (sys_accessors ?s) = (opened (sys_accessors s))(i := None, i \<mapsto> db_timestamp (sys_db s))"
    using acc' by (auto simp: open_ts_def)
  show steps: "mv_steps (machine s) (machine ?s)"
    unfolding A using commits_steps[OF c] by simp
  note gc = gc_inv_commits[OF ok a(1) sys_invD(3)[OF inv] sys_inv_pending_ok(1,2)[OF inv] sys_inv_pending_ok(3)[OF inv a(1)] c]
  have m': "mv_active m i = None" "tx_commit_info ?T = Some i" "ci_timestamp (h_commit_infos (mv_heap m) i) = db_timestamp (sys_db s)"
    "mv_next_id m = db_transaction_id (sys_db s)"
    using m(1) a(1) by (cases rule: mv_step.cases; simp)+
  have inv_m: "mv_inv m" "owned m i (set (tx_deltas ?T))"
    using mv_step_inv[OF m(1) sys_invD(6)[OF inv]] mv_step_owned[OF m(1)] sys_invD(2)[OF inv] a(1) by (auto simp: own_deltas_def)
  have com: "committed_ok (machine ?s) i (db_timestamp (sys_db s)) (acc_transaction acc')"
  proof (cases "mv_of (?A(i := None)) db' = m \<and> acc_transaction acc' = ?T")
    case True
    then show ?thesis
      unfolding A committed_ok_def using gc(2) m' inv_m by simp
  next
    case False
    then have st: "mv_step Internal i m (mv_of (?A(i := None)) db')" and T': "acc_transaction acc' = ?T\<lparr>tx_deltas := []\<rparr>"
      using m(2) by (auto simp: gc_after_def)
    show ?thesis
      unfolding A committed_ok_def using gc(2) m' T' mv_step_finished[OF st inv_m(1) m'(1)] a(5)
      by (simp add: owned_def)
  qed
  show "sys_inv ?s"
  proof (rule sys_invI[OF inv steps])
    show "db_ok (actives_of (sys_accessors ?s)) (sys_db ?s)"
      unfolding A using ok' by simp
    show "gc_inv (machine ?s) (pending_of (sys_accessors ?s)) (db_gc (sys_db ?s))"
      unfolding A P using gc(1) by simp
    show "accessor_ok (machine ?s) i b" if "sys_accessors ?s i = Some b" for b
      using that acc' a(5) ids com by (auto simp: accessor_ok_def)
    have "stamps_ok ((opened (sys_accessors s))(i := None)) (finished (db_commit_log db')) (db_timestamp (sys_db s))"
      using stamps_ok_close[OF sys_invD(5)[OF inv, unfolded open_ok_def] a(3) order_refl] fin by simp
    moreover have "finished (db_commit_log db') \<subseteq> {..<db_timestamp (sys_db s)}"
      using fin log_okD(3)[OF ok] start_before[OF ok a(1)] by auto
    ultimately show "open_ok (sys_accessors ?s) (sys_db ?s)"
      unfolding open_ok_def O using stamps_ok_open[of "(opened (sys_accessors s))(i := None)" "finished (db_commit_log db')" "db_timestamp (sys_db s)" i] now by simp
  qed simp
qed

lemma sys_inv_new: "sys_inv (Sys_new cfg)"
proof -
  have o: "objs (new_storage cfg) o' = None" for o'
    by (cases o') (simp_all add: objs_def new_storage_def)
  have "mv_inv (mv_of Map.empty (new_storage cfg))"
    using o by (simp add: mv_inv_def txs_ok_def mv_of_def new_storage_def kTimestampInitialId_def)
  then have "db_ok Map.empty (new_storage cfg)"
    using CommitLog_new_inv CommitLog_new_finished by (auto simp: db_ok_def store_ok_def log_ok_def new_storage_def)
  then show ?thesis
    using o CommitLog_new_finished
    by (auto simp: sys_inv_def Sys_new_def own_deltas_def gc_inv_def gc_buffers_def lists_dead_def open_ok_def stamps_ok_def)
       (auto simp: new_storage_def kTimestampInitialId_def)
qed

lemma begin_step:
  assumes ok: "db_ok A db" and lim: "db_timestamp db < kTransactionInitialId" "kTransactionInitialId \<le> db_transaction_id db"
    and r: "Accessor_new il IN_MEMORY_TRANSACTIONAL c db = (acc, db')" and i: "i = tx_id (acc_transaction acc)"
  shows "mv_step Begin i (mv_of A db) (mv_of (A(i \<mapsto> acc_transaction acc)) db')" "db_ok (A(i \<mapsto> acc_transaction acc)) db'"
    "tx_start (acc_transaction acc) = db_timestamp db" "i = db_transaction_id db" "db_timestamp db' = db_timestamp db + 1"
    "db_transaction_id db' = db_transaction_id db + 1" "db_commit_log db' = db_commit_log db" "db_gc db' = db_gc db"
    "acc_is_transaction_active acc" "acc_commit_timestamp acc = None" "tx_isolation_level (acc_transaction acc) = il"
    "tx_deltas (acc_transaction acc) = []" "tx_commit_info (acc_transaction acc) = None"
proof -
  let ?T = "acc_transaction acc"
  have T: "tx_id ?T = db_transaction_id db" "tx_start ?T = db_timestamp db" "tx_commit_info ?T = None" "tx_deltas ?T = []"
    "tx_storage_mode ?T = IN_MEMORY_TRANSACTIONAL" "tx_isolation_level ?T = il"
    and db': "db' = db\<lparr>db_transaction_id := db_transaction_id db + 1, db_timestamp := db_timestamp db + 1\<rparr>"
    and acc: "acc_is_transaction_active acc" "acc_commit_timestamp acc = None"
    using r by (auto simp: Accessor_new_def CreateTransaction_def Transaction_new_def)
  have "objs db' = objs db"
    by (rule objs_eqI) (simp_all add: db')
  then have m: "mv_of (A(i \<mapsto> ?T)) db' = (mv_of A db)\<lparr>mv_active := A(i \<mapsto> ?T), mv_now := db_timestamp db + 1, mv_next_id := db_transaction_id db + 1\<rparr>"
    by (simp add: mv_of_def db')
  have t: "tx_ok (db_heap db) (db_timestamp db + 1) (db_transaction_id db + 1) i ?T"
    using T i lim(2) by (simp add: tx_ok_def)
  show st: "mv_step Begin i (mv_of A db) (mv_of (A(i \<mapsto> ?T)) db')"
    using mv_step.begin_tx[of i "mv_of A db" ?T] t T lim(1) i m by simp
  have lo: "log_ok A db" and fin: "finished (db_commit_log db) \<subseteq> {..<db_timestamp db + 1}" "db_timestamp db \<notin> finished (db_commit_log db)"
    using ok log_okD(3)[OF ok] by (auto simp: db_ok_def less_Suc_eq)
  have new: "tx_start U \<noteq> db_timestamp db" if "A j = Some U" for j U
    using start_before[OF ok that] by simp
  have "log_ok (A(i \<mapsto> ?T)) db'"
    using lo fin new unfolding log_ok_def db' by (simp add: T(2)) metis
  then show "db_ok (A(i \<mapsto> ?T)) db'"
    using mv_step_inv[OF st] ok by (simp add: db_ok_def store_ok_def db')
qed (use r i in \<open>auto simp: Accessor_new_def CreateTransaction_def Transaction_new_def\<close>)

lemma sys_inv_begin:
  assumes inv: "sys_inv s" and lim: "db_timestamp (sys_db s) < kTransactionInitialId"
    and r: "Accessor_new il IN_MEMORY_TRANSACTIONAL c (sys_db s) = (acc, db')" and i: "i = tx_id (acc_transaction acc)"
  shows "sys_inv (sys_with db' i (Some acc) s)"
proof -
  let ?A = "actives_of (sys_accessors s)" and ?s = "sys_with db' i (Some acc) s"
  note b = begin_step[OF sys_invD(1)[OF inv] lim sys_invD(7)[OF inv] r i]
  have "sys_accessors s i = None"
    using sys_invD(4)[OF inv, of i] b(4) by (cases "sys_accessors s i") (auto simp: accessor_ok_def)
  then have i: "opened (sys_accessors s) i = None" "i \<notin> pending_of (sys_accessors s)"
    by (simp_all add: opened_def pending_of_def)
  have A: "actives_of (sys_accessors ?s) = ?A(i \<mapsto> acc_transaction acc)" and P: "pending_of (sys_accessors ?s) = pending_of (sys_accessors s)"
    and O: "opened (sys_accessors ?s) = (opened (sys_accessors s))(i \<mapsto> db_timestamp (sys_db s))"
    using b(3,9,10) i(2) by (auto simp: open_ts_def)
  have step: "mv_step Begin i (machine s) (machine ?s)"
    unfolding A using b(1) by simp
  show ?thesis
  proof (rule sys_invI[OF inv mv_steps_step[OF step]])
    show "db_ok (actives_of (sys_accessors ?s)) (sys_db ?s)"
      unfolding A using b(2) by simp
    show "gc_inv (machine ?s) (pending_of (sys_accessors ?s)) (db_gc (sys_db ?s))"
      unfolding P using gc_inv_step[OF step sys_invD(6)[OF inv] sys_invD(3)[OF inv]] b(8) by simp
    show "accessor_ok (machine ?s) i a" if "sys_accessors ?s i = Some a" for a
      using that b(4,6,9,10) by (auto simp: accessor_ok_def)
    show "open_ok (sys_accessors ?s) (sys_db ?s)"
      unfolding open_ok_def O
      using stamps_ok_open[OF sys_invD(5)[OF inv, unfolded open_ok_def] i(1)] log_okD(3)[OF sys_invD(1)[OF inv]] b(5,7) by auto
  qed simp
qed

lemma sys_inv_collect:
  assumes inv: "sys_inv s" and r: "CollectGarbage env (sys_db s) = Inr db'"
  shows "sys_inv (s\<lparr>sys_db := db'\<rparr>)" "mv_step Internal i (machine s) (machine (s\<lparr>sys_db := db'\<rparr>))"
proof -
  let ?s = "s\<lparr>sys_db := db'\<rparr>"
  have c: "mv_step Internal i (machine s) (machine ?s)" "db_ok (actives_of (sys_accessors s)) db'"
      "gc_inv (machine ?s) (pending_of (sys_accessors s)) (db_gc db')" "db_commit_log db' = db_commit_log (sys_db s)"
      "db_timestamp db' = db_timestamp (sys_db s)" for i
    using CollectGarbage_step[OF sys_invD(1,3)[OF inv] sys_inv_pending_ok(1)[OF inv], of env i] r by auto
  show "mv_step Internal i (machine s) (machine ?s)"
    by (rule c)
  note steps = mv_steps_step[OF c(1)[of 0]]
  have "accessor_ok (machine ?s) j acc" if j: "sys_accessors s j = Some acc" for j acc
    using accessor_ok_steps[OF steps sys_invD(6,2)[OF inv] sys_invD(4)[OF inv j]] j by (simp add: actives_of_def)
  then show "sys_inv ?s"
    using c(2-5) sys_invD(5)[OF inv] by (intro sys_invI[OF inv steps, of 0]) (simp_all add: open_ok_def)
qed

text \<open>The end of a committed transaction: its commit timestamp is finished and its deltas go to the collector.\<close>

lemma gc_inv_append:
  assumes gc: "gc_inv m pend gc" and b: "buffer_ok m b" "gd_commit_info b = Some i" "covers m i (set (gd_deltas b))"
    and gc': "gc' = gc\<lparr>gc_waiting_deltas := gc_waiting_deltas gc @ [b]\<rparr> \<or> gc' = gc\<lparr>gc_committed_transactions := gc_committed_transactions gc @ [b]\<rparr>"
  shows "gc_inv m (pend - {i}) gc'"
proof -
  have bs: "set (gc_buffers gc') = insert b (set (gc_buffers gc))" and l: "gc_deleted_edges gc' = gc_deleted_edges gc" "gc_deleted_vertices gc' = gc_deleted_vertices gc"
    using gc' by (auto simp: gc_buffers_def)
  have "accounted (gc_buffers gc') (pend - {i}) o' d"
    if d: "mv_objs m o' = Some (a, ds)" "d \<in> set ds" "accounted (gc_buffers gc) pend o' d" for o' a ds d
    using d(3) b(2,3) d(1,2) unfolding accounted_def bs covers_def by (cases "d_commit_info d = i") auto
  then show ?thesis
    using gc b(1) unfolding gc_inv_def bs l by blast
qed

lemma gc_inv_drop:
  assumes "gc_inv m pend gc" and "covers m i {}"
  shows "gc_inv m (pend - {i}) gc"
  using assms unfolding gc_inv_def accounted_def covers_def by blast

lemma sys_inv_finalize:
  assumes inv: "sys_inv s" and acc: "sys_accessors s i = Some acc" "\<not> acc_is_transaction_active acc" and r: "FinalizeTransaction acc (sys_db s) = (acc', db')"
  shows "sys_inv (sys_with db' i None s)" "machine (sys_with db' i None s) = machine s"
proof -
  let ?A = "actives_of (sys_accessors s)" and ?s = "sys_with db' i None s" and ?T = "acc_transaction acc"
  have A: "actives_of (sys_accessors ?s) = ?A"
    using acc by (auto simp: actives_of_def)
  have "machine ?s = machine s \<and> sys_inv ?s"
  proof (cases "acc_commit_timestamp acc")
    case None
    then have db': "db' = sys_db s"
      using r by (simp add: FinalizeTransaction_def)
    have P: "pending_of (sys_accessors ?s) = pending_of (sys_accessors s)" and O: "opened (sys_accessors ?s) = opened (sys_accessors s)"
      using None acc by (auto simp: pending_of_def opened_def open_ts_def fun_eq_iff)
    have "accessor_ok (machine ?s) j a" if "sys_accessors ?s j = Some a" for j a
      using that sys_invD(4)[OF inv, of j a] unfolding A by (simp add: db' split: if_splits)
    then show ?thesis
      using inv unfolding sys_inv_def open_ok_def A P O by (simp add: db')
  next
    case (Some t)
    have com: "committed_ok (machine s) i t ?T" and i: "i < db_transaction_id (sys_db s)"
      using sys_invD(4)[OF inv acc(1)] acc(2) Some by (auto simp: accessor_ok_def)
    have t: "opened (sys_accessors s) i = Some t"
      using acc Some by (simp add: open_ts_def)
    have P: "pending_of (sys_accessors ?s) = pending_of (sys_accessors s) - {i}" and O: "opened (sys_accessors ?s) = (opened (sys_accessors s))(i := None)"
      by simp_all
    note stamps = sys_invD(5)[OF inv, unfolded open_ok_def]
    have "opened (sys_accessors s) j = Some (tx_start U) \<and> j \<noteq> i" if "?A j = Some U" for j U
      using that acc by (auto simp: actives_of_Some open_ts_def)
    then have other: "\<forall>j U. ?A j = Some U \<longrightarrow> tx_start U \<noteq> t"
      using stamps_okD(3)[OF stamps t] by metis
    note mark = db_ok_mark[OF sys_invD(1)[OF inv] stamps_okD(2,1)[OF stamps t] other]
    define db1 where "db1 = mark_finished t (sys_db s)"
    define b where "b = GCDeltas_new (db_heap db1) 0 (tx_deltas ?T) (tx_commit_info ?T) (tx_id ?T)"
    have heap: "db_heap db1 = db_heap (sys_db s)" and gc1: "db_gc db1 = db_gc (sys_db s)" and now: "db_timestamp db1 = db_timestamp (sys_db s)"
      and id1: "db_transaction_id db1 = db_transaction_id (sys_db s)"
      by (simp_all add: db1_def mark_finished_def)
    define gc' where "gc' = db_gc db'"
    have db': "db' = db1\<lparr>db_gc := gc'\<rparr>"
      and gc': "tx_deltas ?T = [] \<and> gc' = db_gc db1 \<or> gc' = (db_gc db1)\<lparr>gc_waiting_deltas := gc_waiting_deltas (db_gc db1) @ [b]\<rparr> \<or>
        gc' = (db_gc db1)\<lparr>gc_committed_transactions := gc_committed_transactions (db_gc db1) @ [b]\<rparr>"
      using r Some by (auto simp: FinalizeTransaction_def b_def db1_def gc'_def Let_def split: if_splits)
    have "objs db' = objs db1"
      by (rule objs_eqI) (simp_all add: db')
    then have m: "mv_of ?A db' = mv_of ?A db1"
      by (simp add: mv_of_def db')
    have ms: "machine ?s = machine s"
      unfolding A using m mark(2) by (simp add: db1_def)
    have "buffer_ok (machine s) b" "gd_commit_info b = Some i" "covers (machine s) i (set (gd_deltas b))"
      using com i sys_inv_pending(2)[OF inv, of i] Some acc(1) unfolding committed_ok_def
      by (auto simp: b_def GCDeltas_new_def buffer_ok_def heap pending_of_def)
    then have gc2: "gc_inv (machine s) (pending_of (sys_accessors s) - {i}) gc'"
      using gc' gc_inv_append[OF sys_invD(3)[OF inv], of b i gc'] gc_inv_drop[OF sys_invD(3)[OF inv], of i] gc1 com
      by (auto simp: committed_ok_def)
    have "db_ok ?A db'"
      using mark(1) m unfolding db1_def[symmetric] by (simp add: db_ok_def store_ok_def log_ok_def db')
    moreover have "open_ok (sys_accessors ?s) db'"
      unfolding open_ok_def O using stamps_ok_close[OF stamps t order_refl] cl.mark_fin[OF log_okD(1)[OF sys_invD(1)[OF inv]] stamps_okD(2)[OF stamps t]] now
      by (simp add: db' db1_def mark_finished_def)
    moreover have "accessor_ok (machine s) j a" if "sys_accessors ?s j = Some a" for j a
      using that sys_invD(4)[OF inv, of j a] by (simp split: if_splits)
    ultimately show ?thesis
      using inv gc2 ms unfolding sys_inv_def A P by (simp add: db' id1)
  qed
  then show "sys_inv ?s" "machine ?s = machine s"
    by auto
qed

section \<open>The ends of an accessor\<close>

lemma Abort_inactive: "\<not> acc_is_transaction_active acc \<Longrightarrow> Abort acc db = Inl Assertion_failed"
  by (simp add: Abort_def)

lemma sys_inv_Abort:
  assumes inv: "sys_inv s" and acc: "sys_accessors s i = Some acc" "acc_is_transaction_active acc"
  shows "\<exists>acc' db'. Abort acc (sys_db s) = Inr (acc', db') \<and> aborts i (actives_of (sys_accessors s)) (sys_db s) (acc_transaction acc) acc' db'"
  by (rule Abort_aborts[OF sys_invD(1)[OF inv] active_accessor(1)[OF inv acc] acc(2) active_accessor(2)[OF inv acc]])

lemma Accessor_destroy_active:
  assumes "acc_is_transaction_active acc" and "Abort acc db = Inr (acc', db')"
  shows "Accessor_destroy acc db = Inr db'"
  using assms by (simp add: Accessor_destroy_def FinalizeTransaction_def)

lemma Accessor_destroy_inactive: "\<not> acc_is_transaction_active acc \<Longrightarrow> Accessor_destroy acc db = Inr (snd (FinalizeTransaction acc db))"
  by (simp add: Accessor_destroy_def)

text \<open>The destructor always completes.\<close>

lemma sys_inv_destroy:
  assumes inv: "sys_inv s" and acc: "sys_accessors s i = Some acc"
  shows "\<exists>db'. Accessor_destroy acc (sys_db s) = Inr db' \<and> sys_inv (sys_with db' i None s) \<and>
    (machine (sys_with db' i None s) = machine s \<or>
     acc_is_transaction_active acc \<and> (\<exists>acc'. aborts i (actives_of (sys_accessors s)) (sys_db s) (acc_transaction acc) acc' db'))"
proof (cases "acc_is_transaction_active acc")
  case True
  obtain acc' db' where a: "Abort acc (sys_db s) = Inr (acc', db')" "aborts i (actives_of (sys_accessors s)) (sys_db s) (acc_transaction acc) acc' db'"
    using sys_inv_Abort[OF inv acc True] by blast
  have "sys_inv (sys_with db' i None s)"
    by (rule sys_inv_aborts(1)[OF inv acc True a(2)]) simp
  then show ?thesis
    using Accessor_destroy_active[OF True a(1)] True a(2) by blast
next
  case False
  have f: "FinalizeTransaction acc (sys_db s) = (fst (FinalizeTransaction acc (sys_db s)), snd (FinalizeTransaction acc (sys_db s)))"
    by simp
  show ?thesis
    using sys_inv_finalize[OF inv acc False f] Accessor_destroy_inactive[OF False, of "sys_db s"] by blast
qed

text \<open>A transaction without writes: what finishing its start timestamp twice does while the block is there.\<close>

definition handled :: "transaction \<Rightarrow> db \<Rightarrow> db" where
  "handled T db = call Abort_callbacks_RunAll (case tx_commit_info T of None \<Rightarrow> db | Some ci \<Rightarrow> db\<lparr>db_heap := set_ci_handled ci (db_heap db)\<rparr>)"

lemma Abort_no_deltas:
  "acc_is_transaction_active acc \<Longrightarrow> tx_deltas (acc_transaction acc) = [] \<Longrightarrow>
   Abort acc db = Inr (acc\<lparr>acc_is_transaction_active := False\<rparr>, mark_finished (tx_start (acc_transaction acc)) (handled (acc_transaction acc) db))"
  by (simp add: Abort_def handled_def Let_def)

lemma handled_mark: "handled T (mark_finished t db) = mark_finished t (handled T db)"
  by (simp add: handled_def mark_finished_def calls_def split: option.split)

lemma handled_log [simp]: "db_commit_log (handled T db) = db_commit_log db"
  by (simp add: handled_def calls_def split: option.split)

lemma read_only_eq:
  assumes act: "acc_is_transaction_active acc" and d: "tx_deltas (acc_transaction acc) = []"
    and md: "\<not> ce_has_md_deltas env" and p: "PrepareForCommitPhase env acc db = (Inr u, acc', db1)" and r: "Accessor_destroy acc' db1 = Inr db'"
    and a: "Abort acc db = Inr (acc2, db2)"
  shows "db1 = mark_finished (tx_start (acc_transaction acc)) db" "acc' = acc"
    "db' = mark_finished (tx_start (acc_transaction acc)) db2"
proof -
  show 1: "db1 = mark_finished (tx_start (acc_transaction acc)) db" "acc' = acc"
    using p act d md by (auto simp: PrepareForCommitPhase_def Let_def split: if_splits)
  show "db' = mark_finished (tx_start (acc_transaction acc)) db2"
    using r a Accessor_destroy_active[OF act Abort_no_deltas[OF act d], of "mark_finished (tx_start (acc_transaction acc)) db"]
    unfolding 1 Abort_no_deltas[OF act d] by (simp add: handled_mark)
qed

lemma mark_again:
  assumes "cl_inv cl" and "t \<in> finished cl" and "cl_head_start cl \<le> t"
  shows "cl_inv (MarkFinished t cl)" "finished (MarkFinished t cl) = finished cl"
  using MarkFinished_spec[OF assms(1,3)] assms(2) by auto

lemma aborts_mark_again:
  assumes c: "aborts i A db T acc' db'" and t: "cl_head_start (db_commit_log db') \<le> tx_start T"
  shows "aborts i A db T acc' (mark_finished (tx_start T) db')"
proof -
  have fin: "tx_start T \<in> finished (db_commit_log db')" and ok: "db_ok (A(i := None)) db'"
    using c by (auto simp: aborts_def)
  note m = mark_again[OF log_okD(1)[OF ok] fin t]
  have objs: "objs (mark_finished (tx_start T) db') = objs db'"
    by (rule objs_eqI) (simp_all add: mark_finished_def)
  have mv: "mv_of (A(i := None)) (mark_finished (tx_start T) db') = mv_of (A(i := None)) db'"
    using objs by (simp add: mv_of_def mark_finished_def)
  have "db_ok (A(i := None)) (mark_finished (tx_start T) db')"
    using ok m mv unfolding db_ok_def store_ok_def log_ok_def by (simp add: mark_finished_def)
  then show ?thesis
    using c m(2) unfolding aborts_def mv kept_ids_def by (simp add: mark_finished_def)
qed

lemma sys_inv_read_only:
  assumes inv: "sys_inv s" and acc: "sys_accessors s i = Some acc" "acc_is_transaction_active acc" and d: "tx_deltas (acc_transaction acc) = []"
    and md: "\<not> ce_has_md_deltas env" and p: "PrepareForCommitPhase env acc (sys_db s) = (Inr u, acc', db1)"
    and block: "cl_head_start (db_commit_log db1) \<le> tx_start (acc_transaction acc)" and r: "Accessor_destroy acc' db1 = Inr db'"
  shows "\<exists>acc2. aborts i (actives_of (sys_accessors s)) (sys_db s) (acc_transaction acc) acc2 db'"
proof -
  obtain acc2 db2 where a: "Abort acc (sys_db s) = Inr (acc2, db2)" "aborts i (actives_of (sys_accessors s)) (sys_db s) (acc_transaction acc) acc2 db2"
    using sys_inv_Abort[OF inv acc] by blast
  note e = read_only_eq[OF acc(2) d md p r a(1)]
  have "db_commit_log db2 = db_commit_log db1"
    using a(1) unfolding e(1) Abort_no_deltas[OF acc(2) d] by (auto simp: mark_finished_def)
  then show ?thesis
    using aborts_mark_again[OF a(2)] block unfolding e(3) by auto
qed

section \<open>Refinement\<close>

text \<open>Steps of the machine on behalf of one transaction, with a commit among them only where it is said.\<close>

definition path :: "bool \<Rightarrow> nat \<Rightarrow> mv \<Rightarrow> mv \<Rightarrow> bool" where
  "path c i = (\<lambda>m m'. \<exists>ev. mv_step ev i m m' \<and> (ev = Commit \<longrightarrow> c))\<^sup>*\<^sup>*"

lemma path_refl [simp]: "path c i m m"
  by (simp add: path_def)

lemma path_trans: "path c i m m' \<Longrightarrow> path c i m' m'' \<Longrightarrow> path c i m m''"
  unfolding path_def by (rule rtranclp_trans)

lemma path_step: "mv_step ev i m m' \<Longrightarrow> ev = Commit \<longrightarrow> c \<Longrightarrow> path c i m m'"
  unfolding path_def by (rule r_into_rtranclp) blast

lemma path_mono: "path False i m m' \<Longrightarrow> path c i m m'"
  unfolding path_def by (erule rtranclp_mono[THEN predicate2D, rotated]) blast

lemma path_own: "(own_step i)\<^sup>*\<^sup>* m m' \<Longrightarrow> path c i m m'"
  unfolding path_def by (erule rtranclp_mono[THEN predicate2D, rotated]) (unfold own_step_def, blast)

lemma path_progress: "progress i A db T' db' \<Longrightarrow> path c i (mv_of A db) (mv_of (A(i \<mapsto> T')) db')"
  by (simp add: progress_def path_own)

lemma path_aborts:
  assumes "aborts i A db T acc' db'"
  shows "path c i (mv_of A db) (mv_of (A(i := None)) db')"
proof -
  obtain m where m: "m = mv_of A db \<or> mv_step Internal i (mv_of A db) m" "mv_step Abort_tx i m (mv_of (A(i := None)) db')"
    using assms by (auto simp: aborts_def)
  have "path c i (mv_of A db) m"
    using m(1) by (elim disjE) (simp_all add: path_step)
  then show ?thesis
    by (rule path_trans) (rule path_step[OF m(2)], simp)
qed

lemma path_commits:
  assumes "commits i A db T acc' db'"
  shows "path True i (mv_of A db) (mv_of (A(i := None)) db')"
proof -
  obtain m where m: "mv_step Commit i (mv_of A db) m" "mv_of (A(i := None)) db' = m \<or> mv_step Internal i m (mv_of (A(i := None)) db')"
    using assms by (auto simp: commits_def gc_after_def)
  have "path True i m (mv_of (A(i := None)) db')"
    using m(2) by (elim disjE) (simp_all add: path_step)
  with path_step[OF m(1)] show ?thesis
    by (rule path_trans) simp
qed

text \<open>A commit, in the system: the machine commits or rolls back, as the result says.\<close>

lemma sys_commit_outcome:
  assumes inv: "sys_inv s" and acc: "sys_accessors s i = Some acc" and may: "may_commit env acc"
    and lim: "db_timestamp (sys_db s) < kTransactionInitialId" and r: "PrepareForCommitPhase env acc (sys_db s) = (r, acc', db')"
  obtains T1 db1 s1 where "s1 = sys_with db1 i (Some (acc\<lparr>acc_transaction := T1\<rparr>)) s" "sys_inv s1" "objs db1 = objs (sys_db s)"
    "path False i (machine s) (machine s1)" "sys_inv (sys_with db' i (Some acc') s)"
    "if fatal_error r then aborts i (actives_of (sys_accessors s1)) db1 T1 acc' db' else commits i (actives_of (sys_accessors s1)) db1 T1 acc' db'"
    "actives_of (sys_accessors s1) i = Some T1" "\<not> acc_is_transaction_active acc'"
proof -
  let ?A = "actives_of (sys_accessors s)"
  have act: "acc_is_transaction_active acc"
    using may by (simp add: may_commit_def)
  note a = active_accessor[OF inv acc act]
  obtain T1 db1 where p: "progress i ?A (sys_db s) T1 db1" "objs db1 = objs (sys_db s)"
    and out: "if fatal_error r then aborts i (?A(i \<mapsto> T1)) db1 T1 acc' db' else commits i (?A(i \<mapsto> T1)) db1 T1 acc' db'"
    using PrepareForCommitPhase_outcome[OF sys_invD(1)[OF inv] a(1) may lim r] by blast
  define s1 where "s1 = sys_with db1 i (Some (acc\<lparr>acc_transaction := T1\<rparr>)) s"
  have s1: "sys_inv s1" "actives_of (sys_accessors s1) = ?A(i \<mapsto> T1)" "sys_accessors s1 i = Some (acc\<lparr>acc_transaction := T1\<rparr>)" "sys_db s1 = db1"
    using sys_inv_progress(1)[OF inv acc act p(1)] act by (simp_all add: s1_def)
  have again: "sys_with db' i x s1 = sys_with db' i x s" for x
    by (simp add: s1_def)
  have inactive: "\<not> acc_is_transaction_active acc'"
    using out by (auto simp: aborts_def commits_def split: if_splits)
  have "sys_inv (sys_with db' i (Some acc') s1)"
  proof (cases "fatal_error r")
    case True
    then show ?thesis
      using sys_inv_aborts(1)[OF s1(1,3)] out act s1(2,4) by simp
  next
    case False
    then show ?thesis
      using sys_inv_commits(1)[OF s1(1,3)] out act s1(2,4) by simp
  qed
  moreover have "path False i (machine s) (machine s1)"
    using path_progress[OF p(1)] s1(2,4) by simp
  ultimately show thesis
    using that[of s1 db1 T1] s1 p(2) out inactive unfolding again by (simp add: s1_def)
qed

definition is_commit :: "sys_event \<Rightarrow> bool" where
  "is_commit ev \<longleftrightarrow> (case ev of Ev_commit _ \<Rightarrow> True | _ \<Rightarrow> False)"

theorem sys_step_refines:
  assumes "sys_step ev i s s'" and inv: "sys_inv s"
  shows "sys_inv s' \<and> path (is_commit ev) i (machine s) (machine s')"
  using assms(1)
proof (cases rule: sys_step.cases)
  case (sys_begin il c acc db')
  have "sys_inv (sys_with db' i (Some acc) s)"
    by (rule sys_inv_begin[OF inv sys_begin(4,3,5)])
  moreover have "acc_is_transaction_active acc" "mv_step Begin i (machine s) (mv_of ((actives_of (sys_accessors s))(i \<mapsto> acc_transaction acc)) db')"
    using begin_step(1,9)[OF sys_invD(1)[OF inv] sys_begin(4) sys_invD(7)[OF inv] sys_begin(3,5)] by simp_all
  ultimately show ?thesis
    using path_step[of Begin i "machine s"] by (simp add: sys_begin(1,2) sys_with_def)
next
  case (sys_run acc op e T' db')
  have p: "progress i (actives_of (sys_accessors s)) (sys_db s) T' db'"
    by (rule run_progress[OF sys_invD(1)[OF inv] active_accessor(1)[OF inv sys_run(3,4)] sys_run(5,6)])
  show ?thesis
    using sys_inv_progress(1)[OF inv sys_run(3,4) p] path_progress[OF p] sys_run(4) by (simp add: sys_run(1,2) sys_with_def)
next
  case (sys_commit acc env r acc' db')
  obtain T1 db1 s1 where s1: "s1 = sys_with db1 i (Some (acc\<lparr>acc_transaction := T1\<rparr>)) s" "path False i (machine s) (machine s1)"
    "sys_inv (sys_with db' i (Some acc') s)" "\<not> acc_is_transaction_active acc'"
    "if fatal_error r then aborts i (actives_of (sys_accessors s1)) db1 T1 acc' db' else commits i (actives_of (sys_accessors s1)) db1 T1 acc' db'"
    using sys_commit_outcome[OF inv sys_commit(3-6)] by metis
  have "path True i (machine s1) (mv_of ((actives_of (sys_accessors s1))(i := None)) db')"
    using s1(5) path_aborts path_commits by (metis s1(1) sys_with_simps(1))
  moreover have "(actives_of (sys_accessors s1))(i := None) = actives_of (sys_accessors s')"
    unfolding s1(1) sys_commit(2) using s1(4) may_commit_def[of env acc] sys_commit(4) by simp
  ultimately show ?thesis
    using path_trans[OF path_mono[OF s1(2)]] s1(3) by (simp add: sys_commit(1,2) is_commit_def sys_with_def)
next
  case (sys_commit_read_only acc env u acc' db1 db')
  obtain acc2 where a: "aborts i (actives_of (sys_accessors s)) (sys_db s) (acc_transaction acc) acc2 db'"
    using sys_inv_read_only[OF inv sys_commit_read_only(3-9)] by blast
  show ?thesis
    using sys_inv_aborts(1)[OF inv sys_commit_read_only(3,4) a, of None] path_aborts[OF a]
    by (simp add: sys_commit_read_only(1,2) sys_with_def)
next
  case (sys_abort acc acc' db')
  have act: "acc_is_transaction_active acc"
    using sys_abort(4) Abort_inactive[of acc "sys_db s"] by (cases "acc_is_transaction_active acc") auto
  have a: "aborts i (actives_of (sys_accessors s)) (sys_db s) (acc_transaction acc) acc' db'"
    using sys_inv_Abort[OF inv sys_abort(3) act] sys_abort(4) by simp
  moreover have "\<not> acc_is_transaction_active acc'"
    using a by (simp add: aborts_def)
  ultimately show ?thesis
    using sys_inv_aborts(1)[OF inv sys_abort(3) act a, of "Some acc'"] path_aborts[OF a] by (simp add: sys_abort(1,2) sys_with_def)
next
  case (sys_destroy acc db')
  then show ?thesis
    using sys_inv_destroy[OF inv sys_destroy(3)] path_aborts by (auto simp: sys_with_def)
next
  case (sys_collect env db')
  show ?thesis
    using sys_inv_collect[OF inv sys_collect(3)] path_step[of Internal i] by (simp add: sys_collect(1,2))
qed

end
