(* ===== verification/Guarantees.thy ===== *)
theory Guarantees
  imports System
begin

text \<open>
  What the storage promises to its users, for every reachable state of the transition system: isolation of the
  transactions from each other, atomicity of a commit, conflict detection, the completion of aborts and destructors,
  the safety of the garbage collector, and that everything can be reclaimed.
\<close>

section \<open>Transition systems with an invariant\<close>

definition steps_of :: "('e \<Rightarrow> 's \<Rightarrow> 's \<Rightarrow> bool) \<Rightarrow> ('e \<Rightarrow> bool) \<Rightarrow> 's \<Rightarrow> 's \<Rightarrow> bool" where
  "steps_of step C = (\<lambda>s s'. \<exists>e. C e \<and> step e s s')\<^sup>*\<^sup>*"

lemma steps_of_refl [simp]: "steps_of step C s s"
  by (simp add: steps_of_def)

lemma steps_of_step: "steps_of step C s s' \<Longrightarrow> C e \<Longrightarrow> step e s' s'' \<Longrightarrow> steps_of step C s s''"
  unfolding steps_of_def by (rule rtranclp.rtrancl_into_rtrancl) blast+

lemma steps_of_trans: "steps_of step C s s' \<Longrightarrow> steps_of step C s' s'' \<Longrightarrow> steps_of step C s s''"
  unfolding steps_of_def by (rule rtranclp_trans)

locale transition_system =
  fixes init :: "'s \<Rightarrow> bool" and step :: "'e \<Rightarrow> 's \<Rightarrow> 's \<Rightarrow> bool" and inv :: "'s \<Rightarrow> bool"
  assumes init_inv: "init s \<Longrightarrow> inv s"
    and step_inv: "inv s \<Longrightarrow> step e s s' \<Longrightarrow> inv s'"
begin

lemma steps_keep:
  assumes "steps_of step C s s'" and "inv s" and "Q s"
    and "\<And>e s s'. inv s \<Longrightarrow> Q s \<Longrightarrow> C e \<Longrightarrow> step e s s' \<Longrightarrow> Q s'"
  shows "inv s' \<and> Q s'"
  using assms(1) unfolding steps_of_def
proof (induction rule: rtranclp_induct)
  case base
  then show ?case
    using assms(2,3) by simp
next
  case (step s1 s2)
  then show ?case
    using assms(4) step_inv by blast
qed

lemma steps_inv: "steps_of step C s s' \<Longrightarrow> inv s \<Longrightarrow> inv s'"
  using steps_keep[of C s s' "\<lambda>_. True"] by blast

lemma reachable_inv: "init s \<Longrightarrow> steps_of step C s s' \<Longrightarrow> inv s'"
  using steps_inv init_inv by blast

lemma reachable_keep:
  assumes "init s" and "steps_of step C s s'" and "Q s" and "\<And>e s s'. inv s \<Longrightarrow> Q s \<Longrightarrow> C e \<Longrightarrow> step e s s' \<Longrightarrow> Q s'"
  shows "Q s'"
proof -
  have "inv s' \<and> Q s'"
    by (rule steps_keep[OF assms(2) init_inv[OF assms(1)], where Q = Q, OF assms(3)]) (rule assms(4))
  then show ?thesis
    by blast
qed

end

abbreviation sys_event_step :: "sys_event \<times> nat \<Rightarrow> sys \<Rightarrow> sys \<Rightarrow> bool" where
  "sys_event_step \<equiv> \<lambda>(ev, i). sys_step ev i"

definition fresh_storage :: "sys \<Rightarrow> bool" where
  "fresh_storage s \<longleftrightarrow> (\<exists>cfg. s = Sys_new cfg)"

interpretation storage: transition_system fresh_storage sys_event_step sys_inv
  by unfold_locales (auto simp: fresh_storage_def sys_inv_new dest: sys_step_refines)

definition reachable :: "sys \<Rightarrow> bool" where
  "reachable s \<longleftrightarrow> (\<exists>cfg. steps_of sys_event_step (\<lambda>_. True) (Sys_new cfg) s)"

text \<open>The steps of everyone but one transaction, the collector among them.\<close>

definition others :: "nat \<Rightarrow> sys \<Rightarrow> sys \<Rightarrow> bool" where
  "others j = steps_of sys_event_step (\<lambda>(ev, i). i \<noteq> j)"

definition others_uncommitted :: "nat \<Rightarrow> sys \<Rightarrow> sys \<Rightarrow> bool" where
  "others_uncommitted j = steps_of sys_event_step (\<lambda>(ev, i). i \<noteq> j \<and> \<not> is_commit ev)"

lemma reachable_sys_inv: "reachable s \<Longrightarrow> sys_inv s"
  using storage.reachable_inv by (auto simp: reachable_def fresh_storage_def)

lemma reachable_new: "reachable (Sys_new cfg)"
  unfolding reachable_def by (rule exI[of _ cfg]) simp

lemma reachable_step: "reachable s \<Longrightarrow> sys_step ev i s s' \<Longrightarrow> reachable s'"
  unfolding reachable_def using steps_of_step[of sys_event_step "\<lambda>_. True" _ s "(ev, i)" s'] by auto

lemma reachable_steps: "reachable s \<Longrightarrow> steps_of sys_event_step C s s' \<Longrightarrow> reachable s'"
  unfolding reachable_def steps_of_def by (elim exE) (rule exI, erule rtranclp_trans, erule rtranclp_mono[THEN predicate2D, rotated], blast)

section \<open>What a path of another transaction leaves\<close>

lemma path_keep:
  assumes "path c i m m'" and "mv_inv m" and "Q m" and "\<And>ev m m'. mv_inv m \<Longrightarrow> Q m \<Longrightarrow> mv_step ev i m m' \<Longrightarrow> ev = Commit \<longrightarrow> c \<Longrightarrow> Q m'"
  shows "Q m'"
  using assms(1) unfolding path_def
proof -
  assume "(\<lambda>m m'. \<exists>ev. mv_step ev i m m' \<and> (ev = Commit \<longrightarrow> c))\<^sup>*\<^sup>* m m'"
  then have "mv_inv m' \<and> Q m'"
  proof (induction rule: rtranclp_induct)
    case base
    then show ?case
      using assms(2,3) by simp
  next
    case (step m1 m2)
    then show ?case
      using assms(4) mv_step_inv by blast
  qed
  then show ?thesis
    by blast
qed

lemma path_stable:
  assumes "path c i m m'" and "mv_inv m" and "mv_active m j = Some u" and "j \<noteq> i"
    and "tx_isolation_level u = SNAPSHOT_ISOLATION \<or> tx_isolation_level u = READ_COMMITTED \<and> \<not> c"
  shows "mv_active m' j = Some u \<and> sees m' u view o' = sees m u view o'"
proof (rule path_keep[OF assms(1,2), of "\<lambda>m1. mv_active m1 j = Some u \<and> sees m1 u view o' = sees m u view o'"])
  show "mv_active m j = Some u \<and> sees m u view o' = sees m u view o'"
    using assms(3) by simp
next
  fix ev m1 m2
  assume "mv_inv m1" "mv_active m1 j = Some u \<and> sees m1 u view o' = sees m u view o'" "mv_step ev i m1 m2" "ev = Commit \<longrightarrow> c"
  then show "mv_active m2 j = Some u \<and> sees m2 u view o' = sees m u view o'"
    using mv_step_stable[of ev i m1 m2 j u view o'] assms(4,5) by auto
qed

lemma path_committed:
  assumes "path False i m m'" and "mv_inv m"
  shows "committed m' o' = committed m o'"
proof (rule path_keep[OF assms, of "\<lambda>m1. committed m1 o' = committed m o'"])
  fix ev m1 m2
  assume "mv_inv m1" "committed m1 o' = committed m o'" "mv_step ev i m1 m2" "ev = Commit \<longrightarrow> False"
  then show "committed m2 o' = committed m o'"
    using committed_stable[of ev i m1 m2 o'] by auto
qed simp

lemma sys_step_other: "sys_step ev i s s' \<Longrightarrow> j \<noteq> i \<Longrightarrow> sys_accessors s' j = sys_accessors s j"
  by (cases rule: sys_step.cases) auto

text \<open>What a transaction sees is not changed by steps of the others.\<close>

lemma others_stable:
  assumes inv: "sys_inv s" and acc: "sys_accessors s j = Some acc" "acc_is_transaction_active acc"
    and steps: "steps_of sys_event_step C s s'" and C: "\<And>ev i. C (ev, i) \<Longrightarrow> i \<noteq> j"
    and il: "tx_isolation_level (acc_transaction acc) = SNAPSHOT_ISOLATION \<or>
      tx_isolation_level (acc_transaction acc) = READ_COMMITTED \<and> (\<forall>ev i. C (ev, i) \<longrightarrow> \<not> is_commit ev)"
  shows "sys_inv s' \<and> sys_accessors s' j = Some acc \<and> sees (machine s') (acc_transaction acc) view o' = sees (machine s) (acc_transaction acc) view o'"
proof (rule storage.steps_keep[OF steps inv])
  show "sys_accessors s j = Some acc \<and> sees (machine s) (acc_transaction acc) view o' = sees (machine s) (acc_transaction acc) view o'"
    using acc(1) by simp
next
  fix e s1 s2
  assume inv1: "sys_inv s1" and Q: "sys_accessors s1 j = Some acc \<and> sees (machine s1) (acc_transaction acc) view o' = sees (machine s) (acc_transaction acc) view o'"
    and "C e" "sys_event_step e s1 s2"
  then obtain ev i where st: "sys_step ev i s1 s2" "C (ev, i)"
    by (cases e) auto
  have p: "path (is_commit ev) i (machine s1) (machine s2)"
    using sys_step_refines[OF st(1) inv1] by blast
  have "j \<noteq> i"
    using C[OF st(2)] by blast
  moreover have "mv_active (machine s1) j = Some (acc_transaction acc)"
    using active_accessor(1)[OF inv1] Q acc(2) by simp
  ultimately have "sees (machine s2) (acc_transaction acc) view o' = sees (machine s1) (acc_transaction acc) view o'"
    using path_stable[OF p sys_invD(6)[OF inv1]] il st(2) by blast
  then show "sys_accessors s2 j = Some acc \<and> sees (machine s2) (acc_transaction acc) view o' = sees (machine s) (acc_transaction acc) view o'"
    using Q sys_step_other[OF st(1) \<open>j \<noteq> i\<close>] by simp
qed

section \<open>Begin and commit\<close>

lemma sees_same: "mv_objs m' = mv_objs m \<Longrightarrow> mv_heap m' = mv_heap m \<Longrightarrow> sees m' u view o' = sees m u view o'"
  by (rule sees_eqI) simp_all

lemma begin_snapshot:
  assumes inv: "sys_inv s" and step: "sys_step (Ev_begin il c) i s s'" and il: "il \<noteq> READ_UNCOMMITTED"
  shows "\<exists>acc. sys_accessors s' i = Some acc \<and> acc_is_transaction_active acc \<and> tx_isolation_level (acc_transaction acc) = il \<and>
    (\<forall>view o'. sees (machine s') (acc_transaction acc) view o' = committed (machine s) o')"
  using step
proof (cases rule: sys_step.cases)
  case (sys_begin acc db')
  let ?T = "acc_transaction acc"
  note b = begin_step[OF sys_invD(1)[OF inv] sys_begin(3) sys_invD(7)[OF inv] sys_begin(2,4)]
  have s': "machine s' = mv_of ((actives_of (sys_accessors s))(i \<mapsto> ?T)) db'" "sys_accessors s' i = Some acc"
    using sys_begin(1) b(9) by simp_all
  have same: "mv_objs (machine s') = mv_objs (machine s)" "mv_heap (machine s') = mv_heap (machine s)"
    using b(1) unfolding s'(1) by (cases rule: mv_step.cases; simp)+
  have T: "tx_ok (db_heap (sys_db s)) (db_timestamp (sys_db s) + 1) (db_transaction_id (sys_db s) + 1) (db_transaction_id (sys_db s)) ?T"
    using db_ok_tx[OF b(2), of i ?T] same(2) b(4-6) unfolding s'(1) by simp
  have "sees (machine s') ?T view o' = committed (machine s) o'" for view o'
    unfolding sees_same[OF same] using begin_sees_committed[OF sys_invD(6)[OF inv] _ _ b(13), of view o'] T b(3,11) il by simp
  then show ?thesis
    using s'(2) b(9,11) by simp
qed

lemma written_same: "mv_objs m' = mv_objs m \<Longrightarrow> written_by m' i o' = written_by m i o'"
  by (simp add: written_by_def)

lemma written_seen:
  assumes "mv_inv m" and "mv_active m i = Some T" and "written_by m i o'"
  shows "\<exists>a ds. mv_objs m o' = Some (a, ds) \<and> sees m T NEW o' = alive a"
proof -
  obtain a ds d where "mv_objs m o' = Some (a, ds)" "d \<in> set ds" "d_commit_info d = i"
    using assms(3) by (auto simp: written_by_def list_ex_iff split: option.splits)
  then show ?thesis
    using own_write_seen[OF assms(1,2)] by blast
qed

text \<open>A commit installs what the transaction wrote, or nothing at all.\<close>

lemma commit_atomic_aux:
  assumes inv: "sys_inv s" and acc: "sys_accessors s i = Some acc" and may: "may_commit env acc"
    and lim: "db_timestamp (sys_db s) < kTransactionInitialId" and r: "PrepareForCommitPhase env acc (sys_db s) = (r, acc', db')"
  shows "committed (machine (sys_with db' i (Some acc') s)) o' =
    (if \<not> fatal_error r \<and> written_by (machine s) i o' then sees (machine s) (acc_transaction acc) NEW o' else committed (machine s) o')"
proof -
  obtain T1 db1 s1 where s1: "s1 = sys_with db1 i (Some (acc\<lparr>acc_transaction := T1\<rparr>)) s" "sys_inv s1" "objs db1 = objs (sys_db s)"
    "path False i (machine s) (machine s1)"
    and out: "if fatal_error r then aborts i (actives_of (sys_accessors s1)) db1 T1 acc' db' else commits i (actives_of (sys_accessors s1)) db1 T1 acc' db'"
    and T1: "actives_of (sys_accessors s1) i = Some T1" and inact: "\<not> acc_is_transaction_active acc'"
    by (rule sys_commit_outcome[OF inv acc may lim r]) metis
  have act: "acc_is_transaction_active acc"
    using may by (simp add: may_commit_def)
  have db1: "sys_db s1 = db1" and m1: "mv_objs (machine s1) = mv_objs (machine s)"
    using s1(1,3) by simp_all
  have m': "machine (sys_with db' i (Some acc') s) = mv_of ((actives_of (sys_accessors s1))(i := None)) db'"
    using inact act s1(1) by simp
  have c1: "committed (machine s1) o' = committed (machine s) o'"
    by (rule path_committed[OF s1(4) sys_invD(6)[OF inv]])
  show ?thesis
  proof (cases "fatal_error r")
    case True
    then have "path False i (machine s1) (machine (sys_with db' i (Some acc') s))"
      unfolding m' db1 using path_aborts out by simp
    then have "committed (machine (sys_with db' i (Some acc') s)) o' = committed (machine s1) o'"
      by (rule path_committed) (rule sys_invD(6)[OF s1(2)])
    then show ?thesis
      using c1 True by simp
  next
    case False
    then obtain m where m: "mv_step Commit i (machine s1) m" "mv_of ((actives_of (sys_accessors s1))(i := None)) db' = m \<or>
        mv_step Internal i m (mv_of ((actives_of (sys_accessors s1))(i := None)) db')"
      using out db1 by (auto simp: commits_def gc_after_def)
    have inv1: "mv_inv (machine s1)" and A1: "mv_active (machine s1) i = Some T1"
      using sys_invD(6)[OF s1(2)] T1 by simp_all
    have "committed (machine (sys_with db' i (Some acc') s)) o' = committed m o'"
      unfolding m' using m(2) committed_stable[of Internal i m _ o'] mv_step_inv[OF m(1) inv1] by auto
    also have "\<dots> = (if written_by (machine s1) i o' then sees (machine s1) T1 NEW o' else committed (machine s1) o')"
      by (rule commit_installs[OF m(1) inv1 A1])
    also have "written_by (machine s1) i o' = written_by (machine s) i o'"
      by (rule written_same[OF m1])
    also have "sees (machine s1) T1 NEW o' = sees (machine s) (acc_transaction acc) NEW o'" if w: "written_by (machine s) i o'"
      using written_seen[OF inv1 A1, of o'] written_seen[OF sys_invD(6)[OF inv], of i "acc_transaction acc" o'] w m1
        active_accessor(1)[OF inv acc act] written_same[OF m1, of i o'] by auto
    ultimately show ?thesis
      using False c1 by (auto simp del: sys_with_simps fun_upd_apply)
  qed
qed

section \<open>Conflicts\<close>

text \<open>An active transaction that wrote an object is the only one since its start.\<close>

lemma exclusive_writer:
  assumes inv: "mv_inv m" and T: "mv_active m i = Some T" and w: "written_by m i o'" and o: "mv_objs m o' = Some (a, ds)" and d: "d \<in> set ds"
  shows "d_commit_info d = i \<or> mv_active m (d_commit_info d) = None \<and> ts (mv_heap m) d < tx_start T"
proof (cases "d_commit_info d = i")
  case False
  obtain e where e: "e \<in> set ds" "d_commit_info e = i"
    using w o by (auto simp: written_by_def list_ex_iff)
  have "sorted_wrt (over (mv_active m) (mv_heap m)) ds"
    using obj_okD(1)[OF mv_invD(2)[OF inv o]] by (simp add: chain_ok_def)
  then have "over (mv_active m) (mv_heap m) e d \<or> over (mv_active m) (mv_heap m) d e"
    using d e False by (induction ds) auto
  then show ?thesis
    using False e(2) T by (auto simp: over_def)
qed simp

text \<open>A delta another transaction wrote, and that was not committed when the transaction started.\<close>

definition concurrent :: "mv \<Rightarrow> nat \<Rightarrow> transaction \<Rightarrow> delta \<Rightarrow> bool" where
  "concurrent m i T d \<longleftrightarrow> d_commit_info d \<noteq> i \<and> (mv_active m (d_commit_info d) \<noteq> None \<or> tx_start T \<le> ts (mv_heap m) d)"

lemma concurrent_blocks:
  assumes inv: "mv_inv m" and T: "mv_active m i = Some T" and o: "mv_objs m o' = Some (a, ds)" and d: "d \<in> set ds" "concurrent m i T d"
  shows "\<not> writable (mv_heap m) T ds"
proof -
  obtain e es where ds: "ds = e # es"
    using d(1) by (cases ds) auto
  note ok = mv_invD(2)[OF inv o] and txs = mv_invD(1)[OF inv]
  have tx: "tx_id T = i" "tx_start T < mv_now m" "mv_now m \<le> kTransactionInitialId"
    using txs_okD[OF txs T] txs by (auto simp: tx_ok_def txs_ok_def)
  have e_ok: "delta_ok (mv_active m) (mv_heap m) (mv_now m) e"
    using obj_okD(4)[OF ok] ds by simp
  have e_active: "ts (mv_heap m) e = d_commit_info e \<and> kTransactionInitialId \<le> d_commit_info e" if "mv_active m (d_commit_info e) = Some U" for U
    using txs_okD[OF txs that] e_ok that by (auto simp: delta_ok_def tx_ok_def ts_def)
  have rest: "over (mv_active m) (mv_heap m) e d" if "d \<noteq> e"
    using obj_okD(1)[OF ok] d(1) ds that by (simp add: chain_ok_def)
  show ?thesis
  proof
    assume "writable (mv_heap m) T ds"
    then have w: "ts (mv_heap m) e = i \<or> ts (mv_heap m) e < tx_start T"
      by (simp add: writable_def ds tx(1))
    show False
    proof (cases "mv_active m (d_commit_info e)")
      case None
      then have low: "ts (mv_heap m) e < tx_start T"
        using w e_ok tx txs_okD[OF txs T] by (auto simp: delta_ok_def tx_ok_def)
      show False
        using d(2) None low rest by (cases "d = e") (auto simp: concurrent_def over_def ts_def)
    next
      case (Some U)
      then have "d_commit_info e = i"
        using w e_active[OF Some] tx by auto
      then show False
        using d(2) T rest by (cases "d = e") (auto simp: concurrent_def over_def)
    qed
  qed
qed

text \<open>The calls that write to one vertex.\<close>

definition vertex_writes :: "vertex_accessor \<Rightarrow> operation set" where
  "vertex_writes acc = {Op_ClearProperties acc} \<union> range (\<lambda>l. Op_AddLabel l acc) \<union> range (\<lambda>l. Op_RemoveLabel l acc) \<union>
     range (\<lambda>(p, w). Op_SetProperty p w acc) \<union> range (\<lambda>ps. Op_InitProperties ps acc) \<union> range (\<lambda>ps. Op_UpdateProperties ps acc)"

lemma lock_vertex_conflict:
  assumes ok: "db_ok A db" and v: "db_vertices db (va_vertex acc) = Some v" and w: "\<not> writable (db_heap db) T (v_deltas v)"
    and im: "\<not> tx_edge_import_mode_active T"
  shows "lock_vertex acc T db = (Inl SERIALIZATION_ERROR, T\<lparr>tx_has_serialization_error := True\<rparr>)"
proof -
  have flag: "\<not> v_has_uncommitted_non_sequential_deltas v"
    using ok v by (auto simp: db_ok_def store_ok_def vertex_ok_def)
  have "fst (PrepareForWrite (db_heap db) T (v_deltas v) False) = False"
    using PrepareForWrite_writable[OF db_ok_chain(1)[OF ok v]] w by simp
  then have "PrepareForWrite (db_heap db) T (v_deltas v) False = (False, T\<lparr>tx_has_serialization_error := True\<rparr>)"
    using PrepareForWrite_tx[of "db_heap db" T "v_deltas v" False] by (simp add: prod_eq_iff)
  then show ?thesis
    using v im flag by (simp add: lock_vertex_def prepare_write_def)
qed

lemma vertex_write_conflict:
  assumes l: "lock_vertex acc T db = (Inl SERIALIZATION_ERROR, T')" and op: "op \<in> vertex_writes acc"
  shows "run op T db = (Some SERIALIZATION_ERROR, T', db)"
proof -
  have "lock_vertex_for_label acc T db = (Inl SERIALIZATION_ERROR, T')"
    using l by (simp add: lock_vertex_for_label_def)
  then show ?thesis
    using op l unfolding vertex_writes_def
    by (auto simp: AddLabel_def RemoveLabel_def VertexAccessor_SetProperty_def VertexAccessor_InitProperties_def
        VertexAccessor_UpdateProperties_def VertexAccessor_ClearProperties_def outcome_def)
qed

section \<open>Reads\<close>

text \<open>What a transaction sees is what its reads return.\<close>

lemma sees_read_ok:
  assumes ok: "db_ok A db" and s: "sees (mv_of A db) T view (Owner_vertex g) = Some b"
  shows "read_ok (T\<lparr>tx_cache := empty_cache\<rparr>) db view g b" "a_exists b" "\<not> a_deleted b"
proof -
  obtain v where v: "db_vertices db g = Some v" "alive (version_of (db_heap db) T view v) = Some b"
    using s by (auto simp: sees_def objs_def version_of_def split: option.splits)
  then show "a_exists b" "\<not> a_deleted b"
    by (auto simp: alive_def split: if_splits)
  have b: "version_of (db_heap db) T view v = b"
    using v(2) by (auto simp: alive_def split: if_splits)
  have "undoable_all (deltas_for (db_heap db) T view (v_deltas v)) (abs_vertex v)"
  proof -
    have "\<exists>rest. v_deltas v = deltas_for (db_heap db) T view (v_deltas v) @ rest"
    proof (cases "tx_isolation_level T = READ_UNCOMMITTED")
      case False
      show ?thesis
        unfolding deltas_for_takeWhile[OF db_ok_chain(1)[OF ok v(1)] False] by (metis takeWhile_dropWhile_id)
    qed (simp add: deltas_for_def)
    then obtain rest where "v_deltas v = deltas_for (db_heap db) T view (v_deltas v) @ rest"
      by blast
    then show ?thesis
      using db_ok_chain(2)[OF ok v(1)] undoable_all_append by metis
  qed
  moreover have "vertex_wf v"
    using ok v(1) by (auto simp: db_ok_def store_ok_def vertex_ok_def)
  ultimately show "read_ok (T\<lparr>tx_cache := empty_cache\<rparr>) db view g b"
    using v(1) b by (simp add: read_ok_def readable_def cache_coherent_def coherent_empty snapshot_def)
qed

section \<open>Reclamation\<close>

text \<open>The oldest active timestamp is the least one that an accessor keeps open.\<close>

lemma oldest_open:
  assumes inv: "sys_inv s"
  shows "OldestActive (db_commit_log (sys_db s)) = (LEAST t. t = db_timestamp (sys_db s) \<or> (\<exists>i. opened (sys_accessors s) i = Some t))"
proof (rule Least_equality[symmetric])
  let ?log = "db_commit_log (sys_db s)" and ?now = "db_timestamp (sys_db s)"
  note ok = sys_invD(1)[OF inv] and st = sys_invD(5)[OF inv, unfolded open_ok_def]
  have fin: "t < ?now" if "t \<in> finished ?log" for t
    by (rule log_okD(3)[OF ok that])
  have free: "OldestActive ?log \<notin> finished ?log"
    by (rule cl.oldest_free[OF log_okD(1)[OF ok]])
  have below: "i \<in> finished ?log" if "i < OldestActive ?log" for i
    by (rule cl.below_oldest[OF log_okD(1)[OF ok] that])
  have "OldestActive ?log \<le> ?now"
    using below[of ?now] fin[of ?now] by (meson less_irrefl not_le)
  then show "OldestActive ?log = ?now \<or> (\<exists>i. opened (sys_accessors s) i = Some (OldestActive ?log))"
    using stamps_okD(4)[OF st _ free] by (auto simp: le_less)
  fix t
  assume "t = ?now \<or> (\<exists>i. opened (sys_accessors s) i = Some t)"
  then have "t \<notin> finished ?log"
    using stamps_okD(2)[OF st] fin[of ?now] by auto
  then show "OldestActive ?log \<le> t"
    using below by (meson not_le)
qed

lemma finite_accessors: "reachable s \<Longrightarrow> finite (dom (sys_accessors s))"
proof -
  assume "reachable s"
  then obtain cfg where "steps_of sys_event_step (\<lambda>_. True) (Sys_new cfg) s"
    by (auto simp: reachable_def)
  then show ?thesis
  proof (rule storage.reachable_keep[rotated])
    show "fresh_storage (Sys_new cfg)" "finite (dom (sys_accessors (Sys_new cfg)))"
      by (auto simp: fresh_storage_def Sys_new_def)
    fix e s s'
    assume "finite (dom (sys_accessors s))" "sys_event_step e s s'"
    then show "finite (dom (sys_accessors s'))"
      by (cases e) (auto elim!: sys_step.cases)
  qed
qed

text \<open>Destroying the open accessors, one after another.\<close>

lemma destroy_all:
  assumes "finite (dom (sys_accessors s))" and "sys_inv s"
  shows "\<exists>s'. steps_of sys_event_step (\<lambda>(ev, i). ev = Ev_destroy) s s' \<and> sys_accessors s' = Map.empty"
  using assms
proof (induction "dom (sys_accessors s)" arbitrary: s rule: finite_psubset_induct)
  case psubset
  show ?case
  proof (cases "sys_accessors s = Map.empty")
    case True
    then show ?thesis
      by (intro exI[of _ s]) simp
  next
    case False
    then obtain i acc where acc: "sys_accessors s i = Some acc"
      by (metis not_Some_eq)
    obtain db' where d: "Accessor_destroy acc (sys_db s) = Inr db'" "sys_inv (sys_with db' i None s)"
      using sys_inv_destroy[OF psubset(3) acc] by blast
    have step: "sys_event_step (Ev_destroy, i) s (sys_with db' i None s)"
      using sys_step.sys_destroy[of s i acc db'] acc d(1) by (simp add: sys_with_def)
    have "dom (sys_accessors (sys_with db' i None s)) \<subset> dom (sys_accessors s)"
      using acc by auto
    then obtain s' where s': "steps_of sys_event_step (\<lambda>(ev, i). ev = Ev_destroy) (sys_with db' i None s) s'" "sys_accessors s' = Map.empty"
      using psubset(2) d(2) by blast
    have "steps_of sys_event_step (\<lambda>(ev, i). ev = Ev_destroy) s (sys_with db' i None s)"
      using steps_of_step[of sys_event_step "\<lambda>(ev, i). ev = Ev_destroy" s s "(Ev_destroy, i)"] step by simp
    then show ?thesis
      using steps_of_trans[OF _ s'(1)] s'(2) by (intro exI[of _ s']) simp
  qed
qed

lemma steps_committed:
  assumes "steps_of sys_event_step C s s'" and "sys_inv s" and C: "\<And>ev i. C (ev, i) \<Longrightarrow> \<not> is_commit ev"
  shows "sys_inv s' \<and> committed (machine s') o' = committed (machine s) o'"
proof (rule storage.steps_keep[OF assms(1,2)])
  fix e s1 s2
  assume a: "sys_inv s1" "committed (machine s1) o' = committed (machine s) o'" "C e" "sys_event_step e s1 s2"
  obtain ev i where e: "e = (ev, i)"
    by (cases e)
  have st: "sys_step ev i s1 s2" and ev: "is_commit ev = False"
    using a(3,4) C[of ev i] by (simp_all add: e)
  have "path False i (machine s1) (machine s2)"
    using sys_step_refines[OF st a(1)] unfolding ev by (rule conjunct2)
  from path_committed[OF this sys_invD(6)[OF a(1)]] have "committed (machine s2) o' = committed (machine s1) o'" .
  then show "committed (machine s2) o' = committed (machine s) o'"
    unfolding a(2) .
qed (rule refl)

lemma collect_all:
  assumes inv: "sys_inv s" and none: "sys_accessors s = Map.empty" and env: "ge_gc_lock_free env" "ge_min_queued_start_ts env = None"
  shows "\<exists>db'. CollectGarbage env (sys_db s) = Inr db' \<and> (\<forall>o' a ds. objs db' o' = Some (a, ds) \<longrightarrow> ds = []) \<and>
    db_commit_log db' = db_commit_log (sys_db s) \<and> db_timestamp db' = db_timestamp (sys_db s)"
proof -
  have A: "actives_of (sys_accessors s) = Map.empty"
    using none by simp
  have "opened (sys_accessors s) = Map.empty"
    using none by simp
  then have oldest: "OldestActive (db_commit_log (sys_db s)) = db_timestamp (sys_db s)"
    unfolding oldest_open[OF inv] by (simp add: Least_equality)
  then have H: "gc_horizon env (sys_db s) = db_timestamp (sys_db s)"
    using env(2) by (simp add: gc_horizon_def Let_def)
  obtain db' where db': "CollectGarbage env (sys_db s) = Inr db'" "db_ok Map.empty db'" "db_commit_log db' = db_commit_log (sys_db s)"
    "db_timestamp db' = db_timestamp (sys_db s)" "db_heap db' = db_heap (sys_db s)"
    and left: "\<And>o' a ds d. objs db' o' = Some (a, ds) \<Longrightarrow> d \<in> set ds \<Longrightarrow> \<not> below Map.empty (db_heap (sys_db s)) (db_timestamp (sys_db s)) d"
    using CollectGarbage_step[OF sys_invD(1,3)[OF inv] sys_inv_pending_ok(1)[OF inv], of env 0] env(1) unfolding A H by metis
  have "ds = []" if o: "objs db' o' = Some (a, ds)" for o' a ds
  proof (cases ds)
    case (Cons d rest)
    have "ts (db_heap db') d < db_timestamp db'"
      using obj_okD(4)[OF mv_invD(2)[OF db_ok_mv_inv[OF db'(2)]], of o' a ds d] o Cons by (auto simp: delta_ok_def)
    then have "below Map.empty (db_heap (sys_db s)) (db_timestamp (sys_db s)) d"
      using db'(4,5) by (simp add: below_def)
    then show ?thesis
      using left[OF o, of d] Cons by simp
  qed simp
  then show ?thesis
    using db' by blast
qed

section \<open>A timestamp that is finished twice\<close>

text \<open>Marking an id of a freed block sets the bit of another id, in the first block that is left.\<close>

lemma MarkFinished_freed:
  assumes "cl_inv cl" and "tid < cl_head_start cl"
  shows "finished (MarkFinished tid cl) = insert (cl_head_start cl + tid mod kIdsInBlock) (finished cl)" "cl_head_start (MarkFinished tid cl) = cl_head_start cl"
proof -
  define hs where "hs = cl_head_start cl"
  obtain j cl1 where f: "FindOrCreateBlock tid cl = (j, cl1)"
    by fastforce
  have inv: "shape (cl_head cl) hs (cl_next_start cl)" "cached (cl_head cl) hs (cl_oldest_active cl)"
    using assms(1) by (simp_all add: cl_inv_def hs_def)
  note spec = FindOrCreateBlock_spec[OF f, folded hs_def, OF inv(1)]
  have j: "j = 0" "j < length (cl_head cl1)"
    using spec assms(2) by (auto simp: hs_def)
  define fi where "fi = (tid mod kIdsInBlock) div kIdsInField"
  define cl2 where "cl2 = cl1\<lparr>cl_head := upd_block j (or_field fi (push_bit (tid mod kIdsInField) 1)) (cl_head cl1)\<rparr>"
  have block: "blk_ids (or_field fi (push_bit (tid mod kIdsInField) 1) (cl_head cl1 ! j)) =
      blk_ids (cl_head cl1 ! j) \<union> {tid mod kIdsInBlock..<tid mod kIdsInBlock + 1}"
    using blk_ids_masks(1)[OF shape_length[of "cl_head cl1" _ _ j] field_idx_less idx_in_field_less] spec
      offset_decomposition[of tid] by (auto simp: fi_def)
  have only: "{x. hs \<le> x \<and> (x - hs) div kIdsInBlock = j \<and> x mod kIdsInBlock \<in> {tid mod kIdsInBlock..<tid mod kIdsInBlock + 1}} = {hs + tid mod kIdsInBlock}"
  proof -
    obtain k where k: "hs = kIdsInBlock * k"
      using inv(1) unfolding shape_def by (blast elim: dvdE)
    have "x = hs + tid mod kIdsInBlock" if x: "hs \<le> x" "(x - hs) div kIdsInBlock = 0" "x mod kIdsInBlock = tid mod kIdsInBlock" for x
    proof -
      obtain y where y: "x = hs + y"
        using le_Suc_ex[OF x(1)] by blast
      have "y div kIdsInBlock = 0"
        using x(2) unfolding y by simp
      then have "y < kIdsInBlock"
        using kIdsInBlock_pos by (metis div_eq_0_iff less_numeral_extra(3))
      then have "y = tid mod kIdsInBlock"
        using x(3) unfolding y k by simp
      then show ?thesis
        using y by simp
    qed
    moreover have "(hs + tid mod kIdsInBlock) mod kIdsInBlock = tid mod kIdsInBlock" "(hs + tid mod kIdsInBlock - hs) div kIdsInBlock = 0"
      unfolding k by simp_all
    moreover have "x mod kIdsInBlock \<in> {tid mod kIdsInBlock..<tid mod kIdsInBlock + 1} \<longleftrightarrow> x mod kIdsInBlock = tid mod kIdsInBlock" for x
      by (simp add: less_Suc_eq_le eq_iff conj_commute)
    ultimately show ?thesis
      unfolding j(1) by (intro set_eqI) (metis (mono_tags, lifting) le_add1 mem_Collect_eq singleton_iff)
  qed
  have same: "fin_in (cl_head cl1) hs = fin_in (cl_head cl) hs" and hs2: "cl_head_start cl2 = hs" "cl_oldest_active cl2 = cl_oldest_active cl"
    using spec by (auto simp: cl2_def)
  have fin2: "finished cl2 = insert (hs + tid mod kIdsInBlock) (finished cl)"
    using fin_in_upd_block[where f = "or_field fi (push_bit (tid mod kIdsInField) 1)", OF j(2) block, of hs, unfolded only same] hs2(1)
    by (simp add: finished_def cl2_def hs_def)
  have "tid \<noteq> cl_oldest_active cl2"
    using unfinished_ge_head[OF cl.oldest_free[OF assms(1)]] assms(2) hs2(2) by (simp add: OldestActive_def)
  then have "MarkFinished tid cl = cl2"
    using f by (simp add: MarkFinished_def cl2_def fi_def Let_def)
  then show "finished (MarkFinished tid cl) = insert (cl_head_start cl + tid mod kIdsInBlock) (finished cl)" "cl_head_start (MarkFinished tid cl) = cl_head_start cl"
    using fin2 hs2 by (simp_all add: hs_def)
qed

text \<open>The last id of a block, when it is the only one that is left, frees the block.\<close>

lemma last_of_block:
  assumes inv: "cl_inv cl" and fin: "finished cl = {..<t}" and last: "kIdsInBlock dvd t + 1"
  shows "cl_head_start (MarkFinished t cl) = t + 1" "cl_inv (MarkFinished t cl)"
proof -
  let ?cl = "MarkFinished t cl"
  have "t \<notin> finished cl"
    using fin by simp
  then have cl: "cl_inv ?cl" "finished ?cl = {..<t + 1}"
    using cl.mark_inv[OF inv] cl.mark_fin[OF inv] fin by auto
  show "cl_inv ?cl"
    by (rule cl)
  have "OldestActive ?cl = t + 1"
    unfolding cl.oldest_is_least[OF cl(1)] cl(2) by (rule Least_equality) auto
  then have hs: "t + 1 < cl_head_start ?cl + kIdsInBlock" "cl_head_start ?cl \<le> t + 1" "kIdsInBlock dvd cl_head_start ?cl"
    using cached_oldest cl(1) unfinished_ge_head[of "t + 1" ?cl] cl(2) by (auto simp: cl_inv_def OldestActive_def shape_def)
  obtain k l where kl: "cl_head_start ?cl = kIdsInBlock * k" "t + 1 = kIdsInBlock * l"
    using hs(3) last by (meson dvdE)
  have "kIdsInBlock * l < kIdsInBlock * (k + 1)"
    using hs(1) kl by simp
  then have "l \<le> k"
    unfolding mult_less_cancel1 by simp
  moreover have "k \<le> l"
    using hs(2) unfolding kl by simp
  ultimately show "cl_head_start ?cl = t + 1"
    using kl by simp
qed

lemma finished_IsFinished: "i \<in> finished cl \<Longrightarrow> cl_head_start cl \<le> i \<Longrightarrow> IsFinished i cl"
  by (auto simp: finished_def fin_in_def IsFinished_def)

lemma finished_twice:
  assumes "cl_inv cl" and "finished cl = {..<t}" and "kIdsInBlock dvd t + 1"
  shows "IsFinished (t + kIdsInBlock) (MarkFinished t (MarkFinished t cl))"
proof -
  note l = last_of_block[OF assms]
  have "t < cl_head_start (MarkFinished t cl)"
    using l(1) by simp
  note m = MarkFinished_freed[OF l(2) this]
  have "t mod kIdsInBlock + 1 = kIdsInBlock"
  proof -
    have "Suc t mod kIdsInBlock = 0"
      using assms(3) by simp
    then show ?thesis
      using mod_Suc[of t kIdsInBlock] by (auto split: if_splits)
  qed
  then have "t + 1 + t mod kIdsInBlock = t + kIdsInBlock"
    by simp
  then show ?thesis
    using m l(1) by (intro finished_IsFinished) simp_all
qed

end
