(* ===== verification/Scenarios.thy ===== *)
theory Scenarios
  imports Guarantees
begin

text \<open>
  Runs of the whole storage on concrete inputs: the states after one event as functions, and a scenario in which a writer
  creates a vertex and commits while a reader is open.
\<close>

section \<open>The state after an event\<close>

definition after_begin :: "IsolationLevel \<Rightarrow> sys \<Rightarrow> sys" where
  "after_begin il s = (case Accessor_new il IN_MEMORY_TRANSACTIONAL False (sys_db s) of
     (acc, db') \<Rightarrow> sys_with db' (tx_id (acc_transaction acc)) (Some acc) s)"

definition after_run :: "operation \<Rightarrow> nat \<Rightarrow> sys \<Rightarrow> sys" where
  "after_run op i s = (case sys_accessors s i of None \<Rightarrow> s
     | Some acc \<Rightarrow> (case run op (acc_transaction acc) (sys_db s) of
         (e, T', db') \<Rightarrow> sys_with db' i (Some (acc\<lparr>acc_transaction := T'\<rparr>)) s))"

definition after_commit :: "commit_env \<Rightarrow> nat \<Rightarrow> sys \<Rightarrow> sys" where
  "after_commit env i s = (case sys_accessors s i of None \<Rightarrow> s
     | Some acc \<Rightarrow> (case PrepareForCommitPhase env acc (sys_db s) of (r, acc', db') \<Rightarrow> sys_with db' i (Some acc') s))"

lemma step_after_begin:
  assumes "db_timestamp (sys_db s) < kTransactionInitialId"
  shows "sys_step (Ev_begin il False) (db_transaction_id (sys_db s)) s (after_begin il s)"
proof -
  obtain acc db' where a: "Accessor_new il IN_MEMORY_TRANSACTIONAL False (sys_db s) = (acc, db')"
    by fastforce
  then have "tx_id (acc_transaction acc) = db_transaction_id (sys_db s)"
    by (auto simp: Accessor_new_def CreateTransaction_def Transaction_new_def)
  then show ?thesis
    using sys_step.sys_begin[OF a assms, of "db_transaction_id (sys_db s)"] a by (simp add: after_begin_def sys_with_def)
qed

lemma step_after_run:
  assumes "sys_accessors s i = Some acc" and "acc_is_transaction_active acc" and "covered op (acc_transaction acc) (sys_db s)"
  shows "sys_step (Ev_run op) i s (after_run op i s)"
proof -
  obtain e T' db' where r: "run op (acc_transaction acc) (sys_db s) = (e, T', db')"
    by (metis prod_cases3)
  show ?thesis
    using sys_step.sys_run[OF assms r] assms(1) r by (simp add: after_run_def sys_with_def)
qed

lemma step_after_commit:
  assumes "sys_accessors s i = Some acc" and "may_commit env acc" and "db_timestamp (sys_db s) < kTransactionInitialId"
  shows "sys_step (Ev_commit env) i s (after_commit env i s)"
proof -
  obtain r acc' db' where r: "PrepareForCommitPhase env acc (sys_db s) = (r, acc', db')"
    by (metis prod_cases3)
  show ?thesis
    using sys_step.sys_commit[OF assms r] assms(1) r by (simp add: after_commit_def sys_with_def)
qed

section \<open>A writer and a reader\<close>

definition writer :: nat where
  "writer = kTransactionInitialId"

definition reader :: nat where
  "reader = kTransactionInitialId + 1"

definition both_open :: sys where
  "both_open = after_begin SNAPSHOT_ISOLATION (after_begin SNAPSHOT_ISOLATION (Sys_new example_config))"

definition vertex_created :: sys where
  "vertex_created = after_run Op_CreateVertex writer both_open"

definition opened_tx :: "nat \<Rightarrow> transaction" where
  "opened_tx n = Transaction_new (kTransactionInitialId + n) n SNAPSHOT_ISOLATION IN_MEMORY_TRANSACTIONAL False False empty_container"

definition opened_acc :: "nat \<Rightarrow> accessor" where
  "opened_acc n = \<lparr>acc_transaction = opened_tx n, acc_commit_timestamp = None, acc_is_transaction_active = True\<rparr>"

lemma writer_reader [simp]: "writer \<noteq> reader" "reader \<noteq> writer"
  by (simp_all add: writer_def reader_def)

lemma both_open_eq:
  "both_open = \<lparr>sys_db = (new_storage example_config)\<lparr>db_transaction_id := kTransactionInitialId + 2, db_timestamp := 2\<rparr>,
     sys_accessors = [writer \<mapsto> opened_acc 0, reader \<mapsto> opened_acc 1]\<rparr>"
  by (simp add: both_open_def after_begin_def Accessor_new_def CreateTransaction_def Sys_new_def opened_acc_def opened_tx_def writer_def reader_def
      new_storage_def kTimestampInitialId_def sys_with_def Transaction_new_def)

definition creator_tx :: transaction where
  "creator_tx = (opened_tx 0)\<lparr>tx_commit_info := Some writer, tx_deltas := [(Owner_vertex 0, 0)]\<rparr>"

definition created_delta :: delta where
  "created_delta = \<lparr>d_uid = 0, d_commit_info = writer, d_command_id = 0, d_op = DELETE_OBJECT\<rparr>"

definition created_heap :: delta_heap where
  "created_heap = \<lparr>h_commit_infos = (\<lambda>_. \<lparr>ci_timestamp = 0, ci_non_seq_propagation = PROP_NONE\<rparr>)
      (writer := \<lparr>ci_timestamp = writer, ci_non_seq_propagation = PROP_NONE\<rparr>), h_next_delta = 1\<rparr>"

lemma run_create:
  "run Op_CreateVertex (opened_tx 0) (sys_db both_open) = (None, creator_tx, put_vertex (new_vertex 0 [created_delta])
     ((sys_db both_open)\<lparr>db_vertex_id := 1, db_heap := created_heap\<rparr>))"
  by (simp add: both_open_eq CreateVertex_def insert_vertex_def action_defs outcome_def new_storage_def create_delete_delta_def
      CreateDeleteObjectDelta_def EnsureCommitInfoExists_def new_delta_def opened_tx_def creator_tx_def created_delta_def created_heap_def
      Transaction_new_def schema_call_def record_calls_def schema_calls_def example_config_def writer_def put_vertex_def calls_def Let_def)

definition creator_acc :: accessor where
  "creator_acc = (opened_acc 0)\<lparr>acc_transaction := creator_tx\<rparr>"

lemma vertex_created_simps:
  "sys_accessors vertex_created = [writer \<mapsto> creator_acc, reader \<mapsto> opened_acc 1]"
  "db_vertices (sys_db vertex_created) = [0 \<mapsto> new_vertex 0 [created_delta]]" "db_edges (sys_db vertex_created) = Map.empty"
  "db_heap (sys_db vertex_created) = created_heap" "db_timestamp (sys_db vertex_created) = 2" "db_commit_log (sys_db vertex_created) = CommitLog_new"
  "db_config (sys_db vertex_created) = example_config"
proof -
  have "sys_accessors both_open writer = Some (opened_acc 0)"
    by (simp add: both_open_eq)
  then have v: "vertex_created = sys_with (put_vertex (new_vertex 0 [created_delta]) ((sys_db both_open)\<lparr>db_vertex_id := 1, db_heap := created_heap\<rparr>))
      writer (Some creator_acc) both_open"
    unfolding vertex_created_def after_run_def using run_create by (simp add: opened_acc_def[of 0] creator_acc_def)
  show "sys_accessors vertex_created = [writer \<mapsto> creator_acc, reader \<mapsto> opened_acc 1]"
    "db_vertices (sys_db vertex_created) = [0 \<mapsto> new_vertex 0 [created_delta]]" "db_edges (sys_db vertex_created) = Map.empty"
    "db_heap (sys_db vertex_created) = created_heap" "db_timestamp (sys_db vertex_created) = 2" "db_commit_log (sys_db vertex_created) = CommitLog_new"
    "db_config (sys_db vertex_created) = example_config"
    unfolding v by (simp_all add: both_open_eq new_storage_def new_vertex_def fun_upd_twist)
qed

lemma acc_simps [simp]:
  "acc_is_transaction_active (opened_acc n)" "acc_transaction (opened_acc n) = opened_tx n" "acc_commit_timestamp (opened_acc n) = None"
  "acc_is_transaction_active creator_acc" "acc_transaction creator_acc = creator_tx" "acc_commit_timestamp creator_acc = None"
  "tx_isolation_level (opened_tx n) = SNAPSHOT_ISOLATION" "tx_isolation_level creator_tx = SNAPSHOT_ISOLATION"
  "tx_start (opened_tx n) = n" "tx_start creator_tx = 0" "tx_deltas creator_tx = [(Owner_vertex 0, 0)]" "tx_deltas (opened_tx n) = []"
  "\<not> tx_has_serialization_error creator_tx" "\<not> tx_edge_import_mode_active (opened_tx n)"
  by (simp_all add: opened_acc_def opened_tx_def creator_acc_def creator_tx_def Transaction_new_def)

lemma initial_small: "0 < kTransactionInitialId" "1 < kTransactionInitialId" "2 < kTransactionInitialId"
  by (simp_all add: kTransactionInitialId_def)

lemma both_open_step: "sys_step (Ev_begin SNAPSHOT_ISOLATION False) reader (after_begin SNAPSHOT_ISOLATION (Sys_new example_config)) both_open"
  and reachable_first: "reachable (after_begin SNAPSHOT_ISOLATION (Sys_new example_config))"
proof -
  let ?s = "after_begin SNAPSHOT_ISOLATION (Sys_new example_config)"
  have 0: "db_timestamp (sys_db (Sys_new example_config)) < kTransactionInitialId"
    using initial_small by (simp add: Sys_new_def new_storage_def kTimestampInitialId_def)
  show "reachable ?s"
    by (rule reachable_step[OF reachable_new step_after_begin[OF 0]])
  have "db_timestamp (sys_db ?s) < kTransactionInitialId" "db_transaction_id (sys_db ?s) = reader"
    using initial_small
    by (simp_all add: after_begin_def Accessor_new_def CreateTransaction_def Sys_new_def new_storage_def kTimestampInitialId_def reader_def)
  then show "sys_step (Ev_begin SNAPSHOT_ISOLATION False) reader ?s both_open"
    using step_after_begin[of ?s SNAPSHOT_ISOLATION] by (simp add: both_open_def)
qed

lemma reachable_both_open: "reachable both_open"
  by (rule reachable_step[OF reachable_first both_open_step])

lemma vertex_created_step: "sys_step (Ev_run Op_CreateVertex) writer both_open vertex_created"
  unfolding vertex_created_def by (rule step_after_run[of _ _ "opened_acc 0"]) (simp_all add: both_open_eq covered_def)

lemma reachable_vertex_created: "reachable vertex_created"
  by (rule reachable_step[OF reachable_both_open vertex_created_step])

lemma created_objs:
  "objs (sys_db vertex_created) (Owner_vertex 0) = Some (abs_vertex (new_vertex 0 [created_delta]), [created_delta])"
  by (simp add: objs_def vertex_created_simps new_vertex_def)

lemma created_actives:
  "actives_of (sys_accessors vertex_created) writer = Some creator_tx" "actives_of (sys_accessors vertex_created) reader = Some (opened_tx 1)"
  by (simp_all add: actives_of_def vertex_created_simps)

lemma created_written: "written_by (machine vertex_created) writer (Owner_vertex 0)"
  using created_objs by (simp add: written_by_def created_delta_def)

lemma created_version: "abs_vertex (new_vertex 0 [created_delta]) =
    \<lparr>a_exists = True, a_deleted = False, a_labels = {}, a_props = (\<lambda>_. PV_Null), a_in = {}, a_out = {}\<rparr>"
  by (simp add: abs_vertex_def new_vertex_def GetProperty_def)

lemma created_by_writer [simp]: "d_commit_info created_delta = writer"
  by (simp add: created_delta_def)

lemma creator_sees: "sees (machine vertex_created) creator_tx NEW (Owner_vertex 0) = Some (abs_vertex (new_vertex 0 [created_delta]))"
  using own_write_seen[OF sys_invD(6)[OF reachable_sys_inv[OF reachable_vertex_created]], of writer creator_tx "Owner_vertex 0"
      "abs_vertex (new_vertex 0 [created_delta])" "[created_delta]" created_delta] created_objs created_actives
  by (simp add: alive_def created_version)

definition quiet_commit :: commit_env where
  "quiet_commit = \<lparr>ce_has_md_deltas = False, ce_existence_ok = True, ce_unique_ok = True, ce_wal_initialized = False, ce_role = Main [],
     ce_gc_lock_free = False, ce_text_changes = False\<rparr>"

lemma creator_may_commit: "may_commit quiet_commit creator_acc"
  by (simp add: may_commit_def quiet_commit_def)

lemma creator_commit_succeeds: "fst (PrepareForCommitPhase quiet_commit creator_acc (sys_db vertex_created)) = Inr ()"
  by (simp add: PrepareForCommitPhase_def quiet_commit_def ensure_commit_info_def EnsureCommitInfoExists_def creator_tx_def
      GetCommitTimestamp_def FinalizeCommitPhase_def CheckForFastDiscardOfDeltas_def Let_def opened_tx_def Transaction_new_def split: prod.splits)

definition vertex_committed :: sys where
  "vertex_committed = after_commit quiet_commit writer vertex_created"

lemma vertex_committed_step: "sys_step (Ev_commit quiet_commit) writer vertex_created vertex_committed"
  unfolding vertex_committed_def
  by (rule step_after_commit[OF _ creator_may_commit]) (use initial_small in \<open>simp_all add: vertex_created_simps\<close>)

lemma reachable_vertex_committed: "reachable vertex_committed"
  by (rule reachable_step[OF reachable_vertex_created vertex_committed_step])

end
