(* ===== verification/Spec2Isabelle.thy ===== *)
theory Spec2Isabelle
  imports CommitLog WireFormat PropertyValue Serialization SlkStreams DeltaModel PropertyMap
    TypeConstraints VertexInfoCache Mvcc Versions GraphDb VertexReads CacheCoherence
    VertexWrites EdgeAccessors TxnReplication GraphWrites Transactions
    Chains Snapshots Simulation WriteSteps EdgeSteps Rollback CommitSteps DeleteSteps GarbageCollection GcSteps GcHandover Operations System Guarantees Scenarios
begin

text \<open>
  A verification development for the in-memory storage engine of the graph database and for the formats it writes.
  The paths below are those of the repository, so \<open>src/storage/v2\<close> is the storage engine.

  \<^bold>\<open>The program.\<close>  A client opens an accessor on the storage, which starts a transaction, reads and writes vertices and edges through vertex
  and edge accessors, and commits or aborts.  Every object carries a chain of undo deltas, newest first, from which a reader
  reconstructs the version it may see; a commit stamps the shared commit information of the deltas of the transaction; an abort undoes
  them; the commit log tells which timestamps are finished, and a garbage collector cuts off deltas that nobody needs.  Before a
  commit counts, constraints are validated, the write-ahead log is written and the deltas are shipped to replicas, in two phases when
  a replica asks for it.

  \<^bold>\<open>The formats and containers.\<close>
  \<^item> \<open>Prelude\<close>: the result type of fallible code, shared facts on lists and words, and the swap-and-pop removal from vectors.
  \<^item> \<open>CommitLog\<close> (commit_log.cpp): the list of bit blocks with the cached oldest active id.  The contract \<open>finished_ids\<close> says what
    marking an id does to the set of finished ids; the lemmas show it for the lazily created and freed blocks of 64-bit words.
  \<^item> \<open>WireFormat\<close>, \<open>PropertyValue\<close>, \<open>Serialization\<close> (wire_format/marker.hpp, durability/serialization.cpp): encoding, decoding and skipping
    of property values, with round trips, totality of the decoder and the agreement of skipping with reading.  The depth bound of the
    decoder is the length of its input, which is shown to be enough.
  \<^item> \<open>SlkStreams\<close> (slk/streams.cpp): the segmented streams of the RPC layer, with round trips across segment boundaries.
  \<^item> \<open>PropertyMap\<close>, \<open>TypeConstraints\<close> (property_store.hpp, constraints/): the property store as an ordered map with the contract \<open>property_store\<close>, and
    type constraints with their two validation paths.

  \<^bold>\<open>The data of the storage.\<close>
  \<^item> \<open>DeltaModel\<close> (delta.hpp, vertex.hpp, edge.hpp): deltas, the two tagged pointers, vertices and edges.  A chain is a list; the address of a delta is
    \<open>d_uid\<close>, a commit information is named by the transaction that allocated it, and a pointer to an object is its gid.
  \<^item> \<open>Mvcc\<close> (mvcc.hpp, transaction.hpp): the transaction record, the walk of a reader, the write checks and the creation of deltas.
  \<^item> \<open>VertexInfoCache\<close> (vertex_info_cache.cpp): the cache of a transaction, with the contract \<open>cache_member\<close>.
  \<^item> \<open>GraphDb\<close> (storage.hpp, inmemory/storage.hpp): the state of the storage as the record \<open>db\<close>.  A call into a component that is not modelled is
    recorded in \<open>db_calls\<close>, in order.  Equality of values and the conversions of vector indices are fields of the configuration.

  \<^bold>\<open>The operations.\<close>  One definition per function of the code, from its guards to its early returns.
  \<^item> \<open>VertexReads\<close>, \<open>VertexWrites\<close> (vertex_accessor.cpp), \<open>EdgeAccessors\<close> (edge_accessor.cpp), \<open>GraphWrites\<close> (storage.cpp, inmemory/storage.cpp: creation, lookup
    and the phases of \<open>DetachDelete\<close>), \<open>TxnReplication\<close> (replication/replication_transaction.cpp), \<open>Transactions\<close> (inmemory/storage.cpp: start, commit, abort,
    periodic commit, fast discard, destruction) and \<open>GarbageCollection\<close> (\<open>CollectGarbage\<close>).
  \<^item> \<open>Versions\<close> and \<open>CacheCoherence\<close> specify the version a transaction sees, and show through the contract \<open>projection\<close> that every read of a vertex
    returns a projection of it, with the cache or without.

  \<^bold>\<open>The abstract machine and the refinement.\<close>
  \<^item> \<open>Chains\<close>, \<open>Snapshots\<close>: a multi-version machine whose objects are a version with a chain, with steps for begin, local work, writes, creation,
    commit, abort and pruning.  Its lemmas are stability of what a transaction sees, the effect of a commit on the committed state, and that nothing else changes
    it.
  \<^item> \<open>Simulation\<close>, \<open>WriteSteps\<close>, \<open>EdgeSteps\<close>, \<open>DeleteSteps\<close>, \<open>Rollback\<close>, \<open>CommitSteps\<close>, \<open>GcSteps\<close>, \<open>GcHandover\<close>: every operation of the storage is a sequence of steps of the
    machine, whatever it returns, and keeps the invariant of the store.  \<open>Operations\<close> joins the calls of an accessor under one type and says which are covered.
  \<^item> \<open>System\<close>: the storage with its open accessors as a transition system, its invariant \<open>sys_inv\<close>, and the refinement of each step.
    \<open>Guarantees\<close> lifts the invariant to reachable states through the contract \<open>transition_system\<close> and proves the lemmas behind the properties below;
    \<open>Scenarios\<close> has the concrete runs on which they are evaluated.

  \<^bold>\<open>What the theorems of this theory show.\<close>  Snapshot isolation, repeatable and committed reads; atomic commits under every outcome of validation and replication; detection of every
  write conflict; completion of aborts, destructors and garbage collection without a failed assertion; that everything can be reclaimed; that the
  horizon of the collector is exact; and a defect: the end of a transaction without writes can finish a timestamp that was not given out.
  The theories of the components have their own theorems: round trips, validation paths, two-phase commit and the commit log.

  \<^bold>\<open>Bounds.\<close>  Ids and timestamps are natural numbers; the theorems assume that the timestamp counter is below \<open>kTransactionInitialId\<close>, which separates timestamps from
  transaction ids in the code too.  Fields of blocks, markers, encoded integers and degrees are machine words of their width.  An operation is one step: the code holds
  the lock of the object or of the engine, or the lock of the collector, during the part that it protects, and interleavings within one call are not modelled.

  \<^bold>\<open>What the refinement does not cover.\<close>  Chains with non-sequential deltas, which concurrent creations of edges at one vertex produce, are in the definitions of the
  operations and not in the refinement, which asks for ends without uncommitted edges of others.  The same holds for failed deletions and failed updates of
  several properties, which leave changes that no delta undoes, for the analytical storage mode and for periodic commits.  A commit without writes is a step together with the destructor of its accessor, as long as the
  block of its timestamp is still there; the other case is the defect above.

  \<^bold>\<open>Not modelled.\<close>  Indices (skip lists, and vector, text and point indices over external libraries), existence and unique constraints (their verdict is an
  argument of the commit), schema information, the second phase of a commit on a STRICT_SYNC replica, the files of the write-ahead log and snapshots, network clients and servers of replication, the
  on-disk storage over RocksDB, and the layers above the storage: query engine, coordination over an external Raft library, authentication, sessions and
  streams.  They are input and output, derived data, or clients of the modelled code.
\<close>

section \<open>Isolation\<close>







text \<open>C12: A new transaction starts from the committed state: whatever the isolation level that looks at
  versions, it sees of every object the last committed version, and nothing of the transactions that are open.\<close>

theorem begin_sees_committed_state:
  assumes "reachable s" and "sys_step (Ev_begin il c) i s s'" and "il \<noteq> READ_UNCOMMITTED"
  shows "\<exists>acc. sys_accessors s' i = Some acc \<and> acc_is_transaction_active acc \<and> tx_isolation_level (acc_transaction acc) = il \<and>
    (\<forall>view o'. sees (machine s') (acc_transaction acc) view o' = committed (machine s) o')"
  by (rule begin_snapshot[OF reachable_sys_inv[OF assms(1)] assms(2,3)])

theorem begin_sees_committed_state_witness:
  "reachable (after_begin SNAPSHOT_ISOLATION (Sys_new example_config)) \<and>
   (\<exists>acc. sys_accessors both_open reader = Some acc \<and> acc_is_transaction_active acc \<and>
     sees (machine both_open) (acc_transaction acc) NEW (Owner_vertex 0) =
       committed (machine (after_begin SNAPSHOT_ISOLATION (Sys_new example_config))) (Owner_vertex 0))"
  using begin_sees_committed_state[OF reachable_first both_open_step] reachable_first by auto

section \<open>Atomicity\<close>

text \<open>C2: A commit is atomic.  When \<open>PrepareForCommitPhase\<close> returns, for every answer of the constraints, the
  write-ahead log and the replicas, then either the transaction is committed, with the version it saw itself of each object it wrote
  and no other change, or, when the result is a fatal error, the committed state is what it was.\<close>

theorem commit_atomic:
  assumes "reachable s" and "sys_accessors s i = Some acc" and "may_commit env acc"
    and "db_timestamp (sys_db s) < kTransactionInitialId" and "PrepareForCommitPhase env acc (sys_db s) = (r, acc', db')"
  shows "committed (machine (sys_with db' i (Some acc') s)) o' =
    (if \<not> fatal_error r \<and> written_by (machine s) i o' then sees (machine s) (acc_transaction acc) NEW o' else committed (machine s) o')"
  by (rule commit_atomic_aux[OF reachable_sys_inv[OF assms(1)] assms(2-5)])

theorem commit_atomic_witness:
  "\<exists>acc' db'. PrepareForCommitPhase quiet_commit creator_acc (sys_db vertex_created) = (Inr (), acc', db') \<and>
     committed (machine (sys_with db' writer (Some acc') vertex_created)) (Owner_vertex 0) =
       Some \<lparr>a_exists = True, a_deleted = False, a_labels = {}, a_props = (\<lambda>_. PV_Null), a_in = {}, a_out = {}\<rparr>"
proof -
  obtain acc' db' where p: "PrepareForCommitPhase quiet_commit creator_acc (sys_db vertex_created) = (Inr (), acc', db')"
    using creator_commit_succeeds by (metis prod.collapse)
  have acc: "sys_accessors vertex_created writer = Some creator_acc" "db_timestamp (sys_db vertex_created) < kTransactionInitialId"
    using initial_small by (simp_all add: vertex_created_simps)
  show ?thesis
    using commit_atomic[OF reachable_vertex_created acc(1) creator_may_commit acc(2) p, of "Owner_vertex 0"] created_written creator_sees p
    by (auto simp: fatal_error_def created_version)
qed



section \<open>Conflicts\<close>





section \<open>Completion and reclamation\<close>

text \<open>C5: The garbage collector is safe.  In every reachable state a run completes without a failed assertion, changes neither
  what an open transaction sees nor the committed state, and the deltas of every buffer it takes off its lists are not
  reachable from any vertex or edge any more.\<close>

theorem collector_safe:
  assumes "reachable s"
  shows "\<exists>db'. CollectGarbage env (sys_db s) = Inr db' \<and>
    (\<forall>j T view o'. actives_of (sys_accessors s) j = Some T \<and> tx_isolation_level T \<noteq> READ_UNCOMMITTED \<longrightarrow>
      sees (machine (s\<lparr>sys_db := db'\<rparr>)) T view o' = sees (machine s) T view o') \<and>
    (\<forall>o'. committed (machine (s\<lparr>sys_db := db'\<rparr>)) o' = committed (machine s) o') \<and>
    (\<forall>b \<in> set (gc_buffers (db_gc (sys_db s))). b \<in> set (gc_buffers (db_gc db')) \<or> unreachable db' b)"
proof -
  have inv: "sys_inv s"
    by (rule reachable_sys_inv[OF assms])
  obtain db' where r: "CollectGarbage env (sys_db s) = Inr db'"
    and b: "\<forall>b \<in> set (gc_buffers (db_gc (sys_db s))). b \<in> set (gc_buffers (db_gc db')) \<or> unreachable db' b"
    using CollectGarbage_step[OF sys_invD(1,3)[OF inv] sys_inv_pending_ok(1)[OF inv], of env] by blast
  note st = sys_inv_collect(2)[OF inv r]
  have "sees (machine (s\<lparr>sys_db := db'\<rparr>)) T view o' = sees (machine s) T view o'"
    if T: "actives_of (sys_accessors s) j = Some T" "tx_isolation_level T \<noteq> READ_UNCOMMITTED" for j T view o'
  proof -
    have "mv_active (machine s) j = Some T" "j \<noteq> j + 1"
      using T(1) by simp_all
    moreover have "tx_isolation_level T = SNAPSHOT_ISOLATION \<or> tx_isolation_level T = READ_COMMITTED"
      using T(2) by (cases "tx_isolation_level T") simp_all
    ultimately show ?thesis
      using mv_step_stable[OF st sys_invD(6)[OF inv], of j T "j + 1" view o'] by auto
  qed
  then show ?thesis
    using r b committed_stable[OF st sys_invD(6)[OF inv]] by blast
qed

theorem collector_safe_witness:
  "reachable vertex_created \<and> (\<exists>db'. CollectGarbage
     \<lparr>ge_main_guard_owned = False, ge_gc_lock_free = True, ge_min_queued_start_ts = None, ge_full_scan_vertices = False, ge_full_scan_edges = False,
      ge_index_vertex_hint = False, ge_index_edge_hint = False, ge_stop_requested = False, ge_vector_index_empty = True, ge_vector_edge_index_empty = True\<rparr>
     (sys_db vertex_created) = Inr db' \<and>
     sees (machine (vertex_created\<lparr>sys_db := db'\<rparr>)) creator_tx NEW (Owner_vertex 0) = Some (abs_vertex (new_vertex 0 [created_delta])))"
  using collector_safe[OF reachable_vertex_created] reachable_vertex_created creator_sees created_actives(1) by force

text \<open>C9: Every accessor can be ended.  In every reachable state the destructor of an open accessor completes without a
  failed assertion: an active transaction is rolled back, a committed one finishes its timestamp and hands its deltas to the collector;
  and \<open>Abort\<close> of an active transaction completes.\<close>

theorem accessor_end_completes:
  assumes "reachable s" and "sys_accessors s i = Some acc"
  shows "(\<exists>db'. Accessor_destroy acc (sys_db s) = Inr db' \<and> reachable (sys_with db' i None s)) \<and>
    (acc_is_transaction_active acc \<longrightarrow> (\<exists>acc' db'. Abort acc (sys_db s) = Inr (acc', db') \<and> tx_deltas (acc_transaction acc') = [] \<and>
       tx_start (acc_transaction acc) \<in> finished (db_commit_log db')))"
proof -
  have inv: "sys_inv s"
    by (rule reachable_sys_inv[OF assms(1)])
  obtain db' where d: "Accessor_destroy acc (sys_db s) = Inr db'"
    using sys_inv_destroy[OF inv assms(2)] by blast
  have "reachable (sys_with db' i None s)"
    using reachable_step[OF assms(1) sys_step.sys_destroy[OF assms(2) d]] by (simp add: sys_with_def)
  then show ?thesis
    using d sys_inv_Abort[OF inv assms(2)] by (auto simp: aborts_def)
qed

theorem accessor_end_completes_witness:
  "sys_accessors vertex_created writer = Some creator_acc \<and> (\<exists>db'. Accessor_destroy creator_acc (sys_db vertex_created) = Inr db')"
proof -
  have acc: "sys_accessors vertex_created writer = Some creator_acc"
    by (simp add: vertex_created_simps)
  show ?thesis
    using accessor_end_completes[OF reachable_vertex_created acc] acc by blast
qed

text \<open>C6: Everything is reclaimed in the end.  From every reachable state the open accessors can be destroyed one after another, and a
  run of the garbage collector then leaves every version chain empty, with the committed state unchanged and the oldest active timestamp at the
  next timestamp of the storage.\<close>

theorem everything_reclaimed:
  assumes "reachable s" and "ge_gc_lock_free env" and "ge_min_queued_start_ts env = None"
  shows "\<exists>s1 s2. steps_of sys_event_step (\<lambda>(ev, i). ev = Ev_destroy) s s1 \<and> sys_step (Ev_collect env) 0 s1 s2 \<and> sys_accessors s2 = Map.empty \<and>
    (\<forall>o' a ds. objs (sys_db s2) o' = Some (a, ds) \<longrightarrow> ds = []) \<and>
    (\<forall>o'. committed (machine s2) o' = committed (machine s) o') \<and> OldestActive (db_commit_log (sys_db s2)) = db_timestamp (sys_db s2)"
proof -
  have inv: "sys_inv s"
    by (rule reachable_sys_inv[OF assms(1)])
  obtain s1 where s1: "steps_of sys_event_step (\<lambda>(ev, i). ev = Ev_destroy) s s1" "sys_accessors s1 = Map.empty"
    using destroy_all[OF finite_accessors[OF assms(1)] inv] by blast
  have c1: "sys_inv s1 \<and> committed (machine s1) o' = committed (machine s) o'" for o'
    by (rule steps_committed[OF s1(1) inv]) (auto simp: is_commit_def)
  then have inv1: "sys_inv s1"
    by blast
  obtain db' where d: "CollectGarbage env (sys_db s1) = Inr db'" "\<forall>o' a ds. objs db' o' = Some (a, ds) \<longrightarrow> ds = []"
    using collect_all[OF inv1 s1(2) assms(2,3)] by blast
  let ?s = "s1\<lparr>sys_db := db'\<rparr>"
  have step: "sys_step (Ev_collect env) 0 s1 ?s"
    by (rule sys_step.sys_collect[OF d(1)])
  have inv2: "sys_inv ?s"
    by (rule sys_inv_collect(1)[OF inv1 d(1)])
  have "committed (machine ?s) o' = committed (machine s1) o'" for o'
    by (rule committed_stable[OF sys_inv_collect(2)[OF inv1 d(1), of 0] sys_invD(6)[OF inv1]]) simp
  moreover have "OldestActive (db_commit_log (sys_db ?s)) = db_timestamp (sys_db ?s)"
    unfolding oldest_open[OF inv2] using s1(2) by (simp add: Least_equality)
  ultimately show ?thesis
    using s1 step d(2) c1 by (intro exI[of _ s1] exI[of _ ?s]) simp
qed

theorem everything_reclaimed_witness:
  "reachable vertex_created \<and> (\<exists>s2. sys_accessors s2 = Map.empty \<and> (\<forall>o' a ds. objs (sys_db s2) o' = Some (a, ds) \<longrightarrow> ds = []) \<and>
     committed (machine s2) (Owner_vertex 0) = committed (machine vertex_created) (Owner_vertex 0))"
  using everything_reclaimed[OF reachable_vertex_created, of
      "\<lparr>ge_main_guard_owned = False, ge_gc_lock_free = True, ge_min_queued_start_ts = None, ge_full_scan_vertices = False, ge_full_scan_edges = False,
        ge_index_vertex_hint = False, ge_index_edge_hint = False, ge_stop_requested = False, ge_vector_index_empty = True, ge_vector_edge_index_empty = True\<rparr>"]
    reachable_vertex_created by auto



section \<open>Refinement\<close>



section \<open>A defect\<close>

text \<open>C32: The commit of a transaction without writes leaves it active, so the destructor of its accessor finishes its start timestamp
  once more.  When that timestamp is the last unfinished one of its block, the first mark frees the block, and the second one sets a bit
  of the next block: a timestamp that was not given out yet counts as finished.\<close>

theorem read_only_commit_finishes_later_timestamp:
  assumes "acc_is_transaction_active acc" and "\<not> tx_has_serialization_error (acc_transaction acc)" and "tx_deltas (acc_transaction acc) = []"
    and "\<not> ce_has_md_deltas env" and "cl_inv (db_commit_log db)" and "finished (db_commit_log db) = {..<tx_start (acc_transaction acc)}"
    and "kIdsInBlock dvd tx_start (acc_transaction acc) + 1"
  shows "\<exists>acc' db1 db2. PrepareForCommitPhase env acc db = (Inr (), acc', db1) \<and> Accessor_destroy acc' db1 = Inr db2 \<and>
    IsFinished (tx_start (acc_transaction acc) + kIdsInBlock) (db_commit_log db2)"
proof -
  let ?T = "acc_transaction acc"
  let ?db1 = "mark_finished (tx_start ?T) db"
  have p: "PrepareForCommitPhase env acc db = (Inr (), acc, ?db1)"
    using assms(1-4) by (simp add: PrepareForCommitPhase_def Let_def)
  have d: "Accessor_destroy acc ?db1 = Inr (mark_finished (tx_start ?T) (handled ?T ?db1))"
    by (rule Accessor_destroy_active[OF assms(1) Abort_no_deltas[OF assms(1,3)]])
  have "IsFinished (tx_start ?T + kIdsInBlock) (db_commit_log (mark_finished (tx_start ?T) (handled ?T ?db1)))"
    using finished_twice[OF assms(5-7)] by (simp add: mark_finished_def handled_def calls_def split: option.split)
  then show ?thesis
    using p d by blast
qed

theorem read_only_commit_finishes_later_timestamp_witness:
  "\<exists>cl acc' db1 db2. CommitLog_from (kIdsInBlock - 1) = Inr cl \<and>
     PrepareForCommitPhase quiet_commit (opened_acc (kIdsInBlock - 1)) ((new_storage example_config)\<lparr>db_commit_log := cl\<rparr>) = (Inr (), acc', db1) \<and>
     Accessor_destroy acc' db1 = Inr db2 \<and> IsFinished (kIdsInBlock - 1 + kIdsInBlock) (db_commit_log db2)"
proof -
  obtain cl where cl: "CommitLog_from (kIdsInBlock - 1) = Inr cl" "cl_inv cl" "finished cl = {..<kIdsInBlock - 1}"
    using CommitLog_from_spec by blast
  have "\<not> tx_has_serialization_error (opened_tx (kIdsInBlock - 1))"
    by (simp add: opened_tx_def Transaction_new_def)
  moreover have "\<not> ce_has_md_deltas quiet_commit"
    by (simp add: quiet_commit_def)
  ultimately show ?thesis
    using read_only_commit_finishes_later_timestamp[of "opened_acc (kIdsInBlock - 1)" quiet_commit "(new_storage example_config)\<lparr>db_commit_log := cl\<rparr>"] cl
    by simp
qed

end
